(* ===== verification/Go_Prelude.thy ===== *)
theory Go_Prelude
  imports Main "HOL-Library.Word"
begin

text \<open>
  Shared vocabulary of the development: Go's byte strings, decimal printing, the
  string predicates of package \<^verbatim>\<open>strings\<close> that the watcher uses, and the generic lemmas
  the component theories share.

  A Go \<^verbatim>\<open>string\<close> is a sequence of bytes, so it is modelled by HOL's \<open>string\<close>, whose
  characters are exactly the 256 byte values; \<open>byte c\<close> is the numeric value of a byte.
  A \<^verbatim>\<open>uint64\<close> or \<^verbatim>\<open>uint32\<close> whose width matters (log sequence numbers, binlog
  positions, protocol fields) is a word; counters of handed events and list indices,
  which no run brings near \<open>2 ^ 63\<close>, are natural numbers.
\<close>

unbundle bit_operations_syntax

named_theorems byte_simps \<open>evaluation of byte values\<close>

type_synonym gostring = string
type_synonym u16 = "16 word"
type_synonym u32 = "32 word"
type_synonym u64 = "64 word"

text \<open>Durations and instants are nanosecond counts, as Go's \<^verbatim>\<open>time.Duration\<close> is.\<close>

type_synonym duration = int
type_synonym instant = int

abbreviation byte :: "char \<Rightarrow> nat" where
  "byte c \<equiv> of_char c"

abbreviation second :: duration where
  "second \<equiv> 1000000000"

lemma byte_less_256 [simp]: "byte c < 256"
  by (cases c) (simp add: of_char_def)

lemma byte_char_of [simp]: "n < 256 \<Longrightarrow> byte (char_of n) = n"
  by (simp add: of_char_of)

lemma byte_inject: "byte c = byte d \<longleftrightarrow> c = d"
  by (metis char_of_char)

lemma char_of_inject_small: "m < 256 \<Longrightarrow> n < 256 \<Longrightarrow> char_of m = (char_of n :: char) \<longleftrightarrow> m = (n::nat)"
  by (metis byte_char_of)

subsection \<open>Decimal printing\<close>

text \<open>\<^verbatim>\<open>strconv.Itoa\<close> and the verb \<^verbatim>\<open>%d\<close> on a non-negative value.\<close>

definition digit_char :: "nat \<Rightarrow> char" where
  "digit_char d = char_of (48 + d)"

fun itoa :: "nat \<Rightarrow> gostring" where
  "itoa n = (if n < 10 then [digit_char n] else itoa (n div 10) @ [digit_char (n mod 10)])"

declare itoa.simps [simp del]

definition is_digit :: "char \<Rightarrow> bool" where
  "is_digit c \<longleftrightarrow> 48 \<le> byte c \<and> byte c \<le> 57"

text \<open>The verb \<^verbatim>\<open>%d\<close> on a signed value.\<close>

definition itoa_int :: "int \<Rightarrow> gostring" where
  "itoa_int i = (if i < 0 then CHR ''-'' # itoa (nat (- i)) else itoa (nat i))"

lemma is_digit_digit_char: "d < 10 \<Longrightarrow> is_digit (digit_char d)"
  by (simp add: is_digit_def digit_char_def)

lemma byte_digit_char: "d < 10 \<Longrightarrow> byte (digit_char d) = 48 + d"
  by (simp add: digit_char_def)

lemma digit_char_eval [simp]:
  "digit_char 0 = CHR ''0''" "digit_char (Suc 0) = CHR ''1''" "digit_char 1 = CHR ''1''"
  "digit_char 2 = CHR ''2''" "digit_char 3 = CHR ''3''" "digit_char 4 = CHR ''4''"
  "digit_char 5 = CHR ''5''" "digit_char 6 = CHR ''6''" "digit_char 7 = CHR ''7''"
  "digit_char 8 = CHR ''8''" "digit_char 9 = CHR ''9''"
  by (rule iffD1 [OF byte_inject], simp add: byte_digit_char)+

lemma itoa_nonempty [simp]: "itoa n \<noteq> []"
  by (subst itoa.simps) simp

lemma itoa_digits: "c \<in> set (itoa n) \<Longrightarrow> is_digit c"
proof (induction n rule: itoa.induct)
  case (1 n)
  show ?case
  proof (cases "n < 10")
    case True
    with "1.prems" show ?thesis
      by (simp add: itoa.simps [of n] is_digit_digit_char)
  next
    case False
    with "1.prems" have "c \<in> set (itoa (n div 10)) \<or> c = digit_char (n mod 10)"
      by (auto simp: itoa.simps [of n])
    with False "1.IH" show ?thesis
      by (auto simp: is_digit_digit_char)
  qed
qed

lemma itoa_no_colon: "CHR '':'' \<notin> set (itoa n)"
  using itoa_digits [of "CHR '':''" n] by (auto simp: is_digit_def)

text \<open>Reading the digits back: the value a decimal string denotes.\<close>

definition atoi :: "gostring \<Rightarrow> nat" where
  "atoi s = foldl (\<lambda>v c. 10 * v + (byte c - 48)) 0 s"

lemma atoi_itoa [simp]: "atoi (itoa n) = n"
proof (induction n rule: itoa.induct)
  case (1 n)
  show ?case
  proof (cases "n < 10")
    case True
    then show ?thesis
      by (simp add: itoa.simps [of n] atoi_def byte_digit_char)
  next
    case False
    then have "atoi (itoa n) = 10 * atoi (itoa (n div 10)) + (byte (digit_char (n mod 10)) - 48)"
      by (subst itoa.simps) (simp add: atoi_def)
    with False "1.IH" show ?thesis
      by (simp add: byte_digit_char)
  qed
qed

lemma itoa_inject [simp]: "itoa m = itoa n \<longleftrightarrow> m = n"
  by (metis atoi_itoa)

subsection \<open>Separators\<close>

text \<open>
  The identifiers the watcher builds are fields joined by colons; the field after the
  last colon is colon-free, so it can be read back.
\<close>

lemma first_separator_unique:
  "xs @ c # ds = ys @ c # es \<Longrightarrow> c \<notin> set xs \<Longrightarrow> c \<notin> set ys \<Longrightarrow> xs = ys \<and> ds = es"
proof (induction xs arbitrary: ys)
  case Nil
  then show ?case by (cases ys) auto
next
  case (Cons x xs)
  then show ?case by (cases ys) auto
qed

lemma last_separator_unique:
  assumes "xs @ c # ds = ys @ c # es" and "c \<notin> set ds" and "c \<notin> set es"
  shows "xs = ys \<and> ds = es"
proof -
  have "rev ds @ c # rev xs = rev es @ c # rev ys"
    using arg_cong [OF assms(1), of rev] by simp
  then show ?thesis
    using assms(2,3) first_separator_unique [of "rev ds" c "rev xs" "rev es" "rev ys"] by simp
qed

lemma itoa_suffix_inject:
  "xs @ CHR '':'' # itoa m = ys @ CHR '':'' # itoa n \<longleftrightarrow> xs = ys \<and> m = n"
  using last_separator_unique [of xs "CHR '':''" "itoa m" ys "itoa n"]
  by (auto simp: itoa_no_colon)

text \<open>\<^verbatim>\<open>strings.HasPrefix\<close> and \<^verbatim>\<open>strings.Contains\<close>.\<close>

definition has_prefix :: "gostring \<Rightarrow> gostring \<Rightarrow> bool" where
  "has_prefix s p \<longleftrightarrow> take (length p) s = p"

lemma has_prefix_append [simp]: "has_prefix (p @ s) p"
  by (simp add: has_prefix_def)

fun contains :: "gostring \<Rightarrow> gostring \<Rightarrow> bool" where
  "contains [] p = (p = [])"
| "contains (c # s) p = (has_prefix (c # s) p \<or> contains s p)"

lemma contains_append [simp]: "contains (xs @ p @ ys) p"
proof (induction xs)
  case Nil
  show ?case
  proof (cases "p @ ys")
    case (Cons a list)
    have "has_prefix (p @ ys) p" by simp
    with Cons show ?thesis by simp
  qed simp
next
  case (Cons x xs)
  then show ?case by simp
qed

subsection \<open>Bounded doubling\<close>

text \<open>
  Every retry loop of the watcher computes its next delay as \<^verbatim>\<open>min(delay*2, max)\<close>:
  this is the step they share.
\<close>

definition double_up_to :: "duration \<Rightarrow> duration \<Rightarrow> duration" where
  "double_up_to cap d = min (d * 2) cap"

lemma double_up_to_bounds:
  "0 < d \<Longrightarrow> d \<le> cap \<Longrightarrow> d \<le> double_up_to cap d \<and> double_up_to cap d \<le> cap \<and> 0 < double_up_to cap d"
  by (auto simp: double_up_to_def min_def)

lemma funpow_double_up_to:
  assumes "0 < d" "d \<le> cap"
  shows "(double_up_to cap ^^ n) d = min (d * 2 ^ n) cap"
proof (induction n)
  case 0
  then show ?case using assms by simp
next
  case (Suc n)
  have "0 < d * 2 ^ n" using assms by simp
  with Suc assms show ?case by (auto simp: double_up_to_def min_def)
qed

end
