(* ===== verification/Go_Utf8.thy ===== *)
theory Go_Utf8
  imports Go_Prelude
begin

text \<open>
  Go's \<^verbatim>\<open>for _, c := range s\<close> over a string decodes UTF-8: each malformed byte yields
  the replacement rune U+FFFD and advances by one byte. \<open>decode_rune\<close> and
  \<open>encode_rune\<close> are \<^verbatim>\<open>utf8.DecodeRuneInString\<close> and \<^verbatim>\<open>utf8.AppendRune\<close>;
  runes are natural numbers.
\<close>

definition in_range :: "nat \<Rightarrow> nat \<Rightarrow> char \<Rightarrow> bool" where
  "in_range lo hi c \<longleftrightarrow> lo \<le> byte c \<and> byte c \<le> hi"

definition rune_error :: nat where
  "rune_error = 65533"

definition decode2 :: "nat \<Rightarrow> gostring \<Rightarrow> nat \<times> nat" where
  "decode2 n0 t = (case t of
      [] \<Rightarrow> (rune_error, 1)
    | b1 # _ \<Rightarrow> if in_range 128 191 b1 then ((n0 - 192) * 64 + (byte b1 - 128), 2) else (rune_error, 1))"

definition decode3 :: "nat \<Rightarrow> nat \<Rightarrow> nat \<Rightarrow> gostring \<Rightarrow> nat \<times> nat" where
  "decode3 lo hi n0 t = (case t of
      b1 # b2 # _ \<Rightarrow>
        if in_range lo hi b1 \<and> in_range 128 191 b2
        then ((n0 - 224) * 4096 + (byte b1 - 128) * 64 + (byte b2 - 128), 3) else (rune_error, 1)
    | _ \<Rightarrow> (rune_error, 1))"

definition decode4 :: "nat \<Rightarrow> nat \<Rightarrow> nat \<Rightarrow> gostring \<Rightarrow> nat \<times> nat" where
  "decode4 lo hi n0 t = (case t of
      b1 # b2 # b3 # _ \<Rightarrow>
        if in_range lo hi b1 \<and> in_range 128 191 b2 \<and> in_range 128 191 b3
        then ((n0 - 240) * 262144 + (byte b1 - 128) * 4096 + (byte b2 - 128) * 64 + (byte b3 - 128), 4)
        else (rune_error, 1)
    | _ \<Rightarrow> (rune_error, 1))"

fun decode_rune :: "gostring \<Rightarrow> nat \<times> nat" where
  "decode_rune [] = (rune_error, 0)"
| "decode_rune (b0 # t) =
     (let n0 = byte b0 in
      if n0 < 128 then (n0, 1)
      else if n0 < 194 then (rune_error, 1)
      else if n0 < 224 then decode2 n0 t
      else if n0 = 224 then decode3 160 191 n0 t
      else if n0 = 237 then decode3 128 159 n0 t
      else if n0 < 240 then decode3 128 191 n0 t
      else if n0 = 240 then decode4 144 191 n0 t
      else if n0 < 244 then decode4 128 191 n0 t
      else if n0 = 244 then decode4 128 143 n0 t
      else (rune_error, 1))"

definition encode_rune :: "nat \<Rightarrow> gostring" where
  "encode_rune r =
     (if r < 128 then [char_of r]
      else if r < 2048 then [char_of (192 + r div 64), char_of (128 + r mod 64)]
      else if (55296 \<le> r \<and> r < 57344) \<or> 1114112 \<le> r then [char_of (239::nat), char_of (191::nat), char_of (189::nat)]
      else if r < 65536 then
        [char_of (224 + r div 4096), char_of (128 + r div 64 mod 64), char_of (128 + r mod 64)]
      else
        [char_of (240 + r div 262144), char_of (128 + r div 4096 mod 64),
         char_of (128 + r div 64 mod 64), char_of (128 + r mod 64)])"

definition is_scalar :: "nat \<Rightarrow> bool" where
  "is_scalar r \<longleftrightarrow> r < 55296 \<or> (57344 \<le> r \<and> r < 1114112)"

text \<open>The runes a range loop visits, and the strings on which it meets no malformed byte.\<close>

function runes :: "gostring \<Rightarrow> nat list" where
  "runes [] = []"
| "runes (b # t) = fst (decode_rune (b # t)) # runes (drop (snd (decode_rune (b # t)) - 1) t)"
  by pat_completeness auto
termination
  by (relation "measure length") auto

function utf8_valid :: "gostring \<Rightarrow> bool" where
  "utf8_valid [] = True"
| "utf8_valid (b # t) =
     (decode_rune (b # t) \<noteq> (rune_error, 1) \<and> utf8_valid (drop (snd (decode_rune (b # t)) - 1) t))"
  by pat_completeness auto
termination
  by (relation "measure length") auto

declare decode_rune.simps(2) [simp del]

subsection \<open>Decoding and encoding are inverse\<close>

lemmas decode_defs = decode_rune.simps(2) decode2_def decode3_def decode4_def in_range_def Let_def

lemma decode_rune_cases:
  assumes "decode_rune (b # t) = (r, n)"
  obtains (ascii) "byte b < 128" "r = byte b" "n = 1"
  | (error) "128 \<le> byte b" "r = rune_error" "n = 1"
  | (two) b1 t' where "194 \<le> byte b" "byte b < 224" "t = b1 # t'" "in_range 128 191 b1"
      "r = (byte b - 192) * 64 + (byte b1 - 128)" "n = 2"
  | (three) b1 b2 t' where "224 \<le> byte b" "byte b < 240" "t = b1 # b2 # t'" "in_range 128 191 b1"
      "in_range 128 191 b2" "byte b = 224 \<longrightarrow> 160 \<le> byte b1" "byte b = 237 \<longrightarrow> byte b1 < 160"
      "r = (byte b - 224) * 4096 + (byte b1 - 128) * 64 + (byte b2 - 128)" "n = 3"
  | (four) b1 b2 b3 t' where "240 \<le> byte b" "byte b < 245" "t = b1 # b2 # b3 # t'" "in_range 128 191 b1"
      "in_range 128 191 b2" "in_range 128 191 b3" "byte b = 240 \<longrightarrow> 144 \<le> byte b1"
      "byte b = 244 \<longrightarrow> byte b1 < 144"
      "r = (byte b - 240) * 262144 + (byte b1 - 128) * 4096 + (byte b2 - 128) * 64 + (byte b3 - 128)" "n = 4"
  using assms
  by (auto simp: decode_defs split: if_splits list.splits)

lemma decode_rune_size: "decode_rune (b # t) = (r, n) \<Longrightarrow> 1 \<le> n \<and> n \<le> length (b # t)"
  by (erule decode_rune_cases) auto

lemma base64_digits:
  fixes r :: nat
  assumes "y < 64" "z < 64"
  shows "r = y * 64 + z \<Longrightarrow> r div 64 = y \<and> r mod 64 = z"
  using assms by auto

lemma base64_digits3:
  fixes r :: nat
  assumes "r = x * 4096 + y * 64 + z" "y < 64" "z < 64"
  shows "r div 4096 = x" "r div 64 mod 64 = y" "r mod 64 = z"
proof -
  have r: "r = (x * 64 + y) * 64 + z" using assms(1) by simp
  have *: "r div 64 = x * 64 + y" unfolding r using assms(3) by simp
  have "r div 4096 = r div 64 div 64" by (simp add: div_mult2_eq [symmetric])
  with * assms(2) show "r div 4096 = x" by simp
  from * assms(2) show "r div 64 mod 64 = y" by simp
  show "r mod 64 = z" unfolding r using assms(3) by (simp only: mod_mult_self3 mod_less)
qed

lemma surrogate_digits:
  fixes r :: nat
  assumes "r = x * 4096 + y * 64 + z" "y < 64" "z < 64"
  shows "55296 \<le> r \<and> r < 57344 \<longleftrightarrow> x = 13 \<and> 32 \<le> y"
  by (cases "x < 13"; cases "x = 13"; cases "32 \<le> y") (use assms in linarith)+

lemma base64_digits4:
  fixes r :: nat
  assumes "r = w * 262144 + x * 4096 + y * 64 + z" "x < 64" "y < 64" "z < 64"
  shows "r div 262144 = w" "r div 4096 mod 64 = x" "r div 64 mod 64 = y" "r mod 64 = z"
proof -
  have r: "r = (w * 64 + x) * 4096 + y * 64 + z" using assms(1) by simp
  note d = base64_digits3 [OF r assms(3,4)]
  have "r div 262144 = r div 4096 div 64" by (simp add: div_mult2_eq [symmetric])
  with d(1) assms(2) show "r div 262144 = w" by simp
  from d(1) assms(2) show "r div 4096 mod 64 = x" by simp
  from d(2) show "r div 64 mod 64 = y" .
  from d(3) show "r mod 64 = z" .
qed

lemma plane_digits:
  fixes r :: nat
  assumes "r = w * 262144 + x * 4096 + y * 64 + z" "x < 64" "y < 64" "z < 64"
  shows "65536 \<le> r \<longleftrightarrow> w \<noteq> 0 \<or> 16 \<le> x"
    and "r < 1114112 \<longleftrightarrow> w < 4 \<or> (w = 4 \<and> x < 16)"
proof -
  show "65536 \<le> r \<longleftrightarrow> w \<noteq> 0 \<or> 16 \<le> x"
    by (cases "w = 0"; cases "16 \<le> x") (use assms in linarith)+
  show "r < 1114112 \<longleftrightarrow> w < 4 \<or> (w = 4 \<and> x < 16)"
    by (cases "w < 4"; cases "w = 4"; cases "x < 16") (use assms in linarith)+
qed

lemma char_of_byte_minus: "k \<le> byte c \<Longrightarrow> char_of (k + (byte c - k)) = c"
  by (simp add: char_of_char)

lemma encode_decode:
  assumes d: "decode_rune (b # t) = (r, n)" and ok: "(r, n) \<noteq> (rune_error, 1)"
  shows "encode_rune r = take n (b # t)"
  using d
proof (cases rule: decode_rune_cases)
  case ascii
  then show ?thesis by (simp add: encode_rune_def char_of_char)
next
  case error
  with ok show ?thesis by simp
next
  case (two b1 t')
  then have "byte b1 - 128 < 64" and "byte b - 192 < 32" and "2 \<le> byte b - 192"
    by (auto simp: in_range_def)
  moreover from this two(5) have "128 \<le> r" "r < 2048" by auto
  ultimately show ?thesis
    using two base64_digits [of "byte b - 192" "byte b1 - 128" r] char_of_byte_minus [of 192 b]
      char_of_byte_minus [of 128 b1]
    by (auto simp: encode_rune_def in_range_def)
next
  case (three b1 b2 t')
  let ?x = "byte b - 224" and ?y = "byte b1 - 128" and ?z = "byte b2 - 128"
  have b: "?x < 16" "?y < 64" "?z < 64" using three by (auto simp: in_range_def)
  have g: "2048 \<le> r" "r < 65536"
    using three b by (auto simp: in_range_def)
  have "?x = 13 \<longrightarrow> byte b = 237" using three(1) by arith
  then have ns: "\<not> (55296 \<le> r \<and> r < 57344)"
    using surrogate_digits [OF three(8) b(2,3)] three(7) by auto
  note dg = base64_digits3 [OF three(8) b(2,3)]
  show ?thesis
    using g ns dg three(1,3,4,5,9) char_of_byte_minus [of 224 b] char_of_byte_minus [of 128 b1]
      char_of_byte_minus [of 128 b2]
    by (auto simp: encode_rune_def in_range_def)
next
  case (four b1 b2 b3 t')
  let ?w = "byte b - 240" and ?x = "byte b1 - 128" and ?y = "byte b2 - 128" and ?z = "byte b3 - 128"
  have b: "?w < 5" "?x < 64" "?y < 64" "?z < 64" using four by (auto simp: in_range_def)
  have "?w = 0 \<longrightarrow> byte b = 240" "?w = 4 \<longrightarrow> byte b = 244" using four(1) by arith+
  then have g: "65536 \<le> r" "r < 1114112"
    unfolding plane_digits [OF four(9) b(2,3,4)] using four(7,8) b(1) by auto
  note dg = base64_digits4 [OF four(9) b(2,3,4)]
  show ?thesis
    using g dg four(1,3,4,5,6,10) char_of_byte_minus [of 240 b] char_of_byte_minus [of 128 b1]
      char_of_byte_minus [of 128 b2] char_of_byte_minus [of 128 b3]
    by (auto simp: encode_rune_def in_range_def)
qed

lemma decode_three_bytes:
  assumes "x < 16" "y < 64" "z < 64" "x = 0 \<longrightarrow> 32 \<le> y" "x = 13 \<longrightarrow> y < 32"
  shows "decode_rune (char_of (224 + x) # char_of (128 + y) # char_of (128 + z) # t) = (x * 4096 + y * 64 + z, 3)"
proof -
  consider "x = 0" | "x = 13" | "x \<noteq> 0" "x \<noteq> 13" by blast
  then show ?thesis
    by cases (use assms in \<open>simp_all add: decode_defs\<close>)
qed

lemma decode_four_bytes:
  assumes "w < 5" "x < 64" "y < 64" "z < 64" "w = 0 \<longrightarrow> 16 \<le> x" "w = 4 \<longrightarrow> x < 16"
  shows "decode_rune (char_of (240 + w) # char_of (128 + x) # char_of (128 + y) # char_of (128 + z) # t)
    = (w * 262144 + x * 4096 + y * 64 + z, 4)"
proof -
  consider "w = 0" | "w = 4" | "w \<noteq> 0" "w < 4" using assms(1) by linarith
  then show ?thesis
    by cases (use assms in \<open>simp_all add: decode_defs\<close>)
qed

lemma decode_encode_scalar:
  assumes "is_scalar r"
  shows "decode_rune (encode_rune r @ t) = (r, length (encode_rune r))"
proof -
  let ?w = "r div 262144" and ?x = "r div 4096 mod 64" and ?y = "r div 64 mod 64" and ?z = "r mod 64"
  have d: "?w = r div 4096 div 64" "r div 4096 = r div 64 div 64"
    by (simp_all add: div_mult2_eq [symmetric])
  have z: "?x < 64" "?y < 64" "?z < 64" by auto
  have e3: "r = r div 4096 * 4096 + ?y * 64 + ?z"
    using d(2) div_mult_mod_eq [of r 64] div_mult_mod_eq [of "r div 64" 64] by linarith
  have e4: "r = ?w * 262144 + ?x * 4096 + ?y * 64 + ?z"
    using e3 d(1) div_mult_mod_eq [of "r div 4096" 64] by linarith
  consider "r < 128" | "128 \<le> r" "r < 2048" | "2048 \<le> r" "r < 65536" | "65536 \<le> r" "r < 1114112"
    using assms by (fastforce simp: is_scalar_def)
  then show ?thesis
  proof cases
    case 1
    then show ?thesis by (simp add: encode_rune_def decode_defs)
  next
    case 2
    then have "2 \<le> r div 64" "r div 64 < 32" by auto
    with 2 show ?thesis by (simp add: encode_rune_def decode_defs)
  next
    case 3
    have a: "r div 4096 < 16" "r div 4096 = 0 \<longrightarrow> 32 \<le> ?y" using 3 by auto
    have b: "r div 4096 = 13 \<longrightarrow> ?y < 32"
      using surrogate_digits [OF e3 z(2,3)] assms unfolding is_scalar_def by linarith
    have "encode_rune r = [char_of (224 + r div 4096), char_of (128 + ?y), char_of (128 + ?z)]"
      using 3 assms by (auto simp: encode_rune_def is_scalar_def)
    then show ?thesis
      using decode_three_bytes [OF a(1) z(2,3) a(2) b, of t] by (simp flip: e3)
  next
    case 4
    have a: "?w < 5" "?w = 0 \<longrightarrow> 16 \<le> ?x" "?w = 4 \<longrightarrow> ?x < 16"
      using plane_digits [OF e4 z] 4 by linarith+
    have "encode_rune r = [char_of (240 + ?w), char_of (128 + ?x), char_of (128 + ?y), char_of (128 + ?z)]"
      using 4 assms by (auto simp: encode_rune_def is_scalar_def)
    then show ?thesis
      using decode_four_bytes [OF a(1) z a(2,3), of t] by (simp flip: e4)
  qed
qed

end
