(* ===== verification/Go_Json.thy ===== *)
theory Go_Json
  imports Go_Utf8
begin

text \<open>
  The part of Go's \<^verbatim>\<open>encoding/json\<close> the watcher uses. \<^verbatim>\<open>json.Valid\<close> runs a
  byte-at-a-time scanner with a stack of open arrays and objects; \<open>jstep\<close> is that
  scanner's step function, one constructor of \<open>jstate\<close> per scanner state (the states
  inside the literals true, false and null carry the letters still expected, the states
  inside a \<^verbatim>\<open>\u\<close> escape the number of hex digits still expected). The first argument
  of \<open>jstep\<close> is the nesting limit, 10000 in Go.
\<close>

datatype jstate =
    BeginValue | BeginValueOrEmpty | BeginStringOrEmpty | BeginString | EndValue | EndTop
  | InString | InStringEsc | InStringEscU nat
  | Neg | Num0 | Num1 | Dot | Dot0 | ExpE | ESign | ExpE0 | Literal string | ScanError

datatype pstate = ObjectKey | ObjectValue | ArrayValue

type_synonym scanner = "jstate \<times> pstate list"

definition is_space :: "char \<Rightarrow> bool" where
  "is_space c \<longleftrightarrow> byte c = 32 \<or> byte c = 9 \<or> byte c = 13 \<or> byte c = 10"

definition is_hex :: "char \<Rightarrow> bool" where
  "is_hex c \<longleftrightarrow> is_digit c \<or> (97 \<le> byte c \<and> byte c \<le> 102) \<or> (65 \<le> byte c \<and> byte c \<le> 70)"

definition push_state :: "nat \<Rightarrow> pstate \<Rightarrow> jstate \<Rightarrow> pstate list \<Rightarrow> scanner" where
  "push_state D p q st = (if length st < D then (q, p # st) else (ScanError, st))"

definition pop_state :: "pstate list \<Rightarrow> scanner" where
  "pop_state st = (if st = [] then EndTop else EndValue, st)"

fun end_value :: "pstate list \<Rightarrow> char \<Rightarrow> scanner" where
  "end_value [] c = (if is_space c then EndTop else ScanError, [])"
| "end_value (p # st) c =
     (if is_space c then (EndValue, p # st)
      else case p of
        ObjectKey \<Rightarrow> if c = CHR '':'' then (BeginValue, ObjectValue # st) else (ScanError, p # st)
      | ObjectValue \<Rightarrow>
          if c = CHR '','' then (BeginString, ObjectKey # st)
          else if c = CHR ''}'' then pop_state st else (ScanError, p # st)
      | ArrayValue \<Rightarrow>
          if c = CHR '','' then (BeginValue, ArrayValue # st)
          else if c = CHR '']'' then pop_state st else (ScanError, p # st))"

definition begin_value :: "nat \<Rightarrow> pstate list \<Rightarrow> char \<Rightarrow> scanner" where
  "begin_value D st c =
     (if is_space c then (BeginValue, st)
      else if c = CHR ''{'' then push_state D ObjectKey BeginStringOrEmpty st
      else if c = CHR ''['' then push_state D ArrayValue BeginValueOrEmpty st
      else if c = CHR 0x22 then (InString, st)
      else if c = CHR ''-'' then (Neg, st)
      else if c = CHR ''0'' then (Num0, st)
      else if c = CHR ''t'' then (Literal ''rue'', st)
      else if c = CHR ''f'' then (Literal ''alse'', st)
      else if c = CHR ''n'' then (Literal ''ull'', st)
      else if is_digit c then (Num1, st)
      else (ScanError, st))"

definition begin_string :: "pstate list \<Rightarrow> char \<Rightarrow> scanner" where
  "begin_string st c =
     (if is_space c then (BeginString, st)
      else if c = CHR 0x22 then (InString, st) else (ScanError, st))"

definition num0 :: "pstate list \<Rightarrow> char \<Rightarrow> scanner" where
  "num0 st c =
     (if c = CHR ''.'' then (Dot, st)
      else if c = CHR ''e'' \<or> c = CHR ''E'' then (ExpE, st) else end_value st c)"

definition esign :: "pstate list \<Rightarrow> char \<Rightarrow> scanner" where
  "esign st c = (if is_digit c then (ExpE0, st) else (ScanError, st))"

fun jstep :: "nat \<Rightarrow> scanner \<Rightarrow> char \<Rightarrow> scanner" where
  "jstep D (BeginValue, st) c = begin_value D st c"
| "jstep D (BeginValueOrEmpty, st) c =
     (if is_space c then (BeginValueOrEmpty, st)
      else if c = CHR '']'' then end_value st c else begin_value D st c)"
| "jstep D (BeginStringOrEmpty, st) c =
     (if is_space c then (BeginStringOrEmpty, st)
      else if c = CHR ''}'' then end_value (ObjectValue # tl st) c else begin_string st c)"
| "jstep D (BeginString, st) c = begin_string st c"
| "jstep D (EndValue, st) c = end_value st c"
| "jstep D (EndTop, st) c = (if is_space c then EndTop else ScanError, st)"
| "jstep D (InString, st) c =
     (if c = CHR 0x22 then (EndValue, st)
      else if c = CHR 0x5C then (InStringEsc, st)
      else if byte c < 32 then (ScanError, st) else (InString, st))"
| "jstep D (InStringEsc, st) c =
     (if c \<in> set ''bfnrt/'' \<or> c = CHR 0x5C \<or> c = CHR 0x22 then (InString, st)
      else if c = CHR ''u'' then (InStringEscU 4, st) else (ScanError, st))"
| "jstep D (InStringEscU n, st) c =
     (if is_hex c then (if n \<le> 1 then InString else InStringEscU (n - 1), st) else (ScanError, st))"
| "jstep D (Neg, st) c =
     (if c = CHR ''0'' then (Num0, st) else if is_digit c then (Num1, st) else (ScanError, st))"
| "jstep D (Num1, st) c = (if is_digit c then (Num1, st) else num0 st c)"
| "jstep D (Num0, st) c = num0 st c"
| "jstep D (Dot, st) c = (if is_digit c then (Dot0, st) else (ScanError, st))"
| "jstep D (Dot0, st) c =
     (if is_digit c then (Dot0, st)
      else if c = CHR ''e'' \<or> c = CHR ''E'' then (ExpE, st) else end_value st c)"
| "jstep D (ExpE, st) c = (if c = CHR ''+'' \<or> c = CHR ''-'' then (ESign, st) else esign st c)"
| "jstep D (ESign, st) c = esign st c"
| "jstep D (ExpE0, st) c = (if is_digit c then (ExpE0, st) else end_value st c)"
| "jstep D (Literal w, st) c =
     (case w of
        [] \<Rightarrow> (ScanError, st)
      | x # w' \<Rightarrow> if c = x then (if w' = [] then EndValue else Literal w', st) else (ScanError, st))"
| "jstep D (ScanError, st) c = (ScanError, st)"

fun scan :: "nat \<Rightarrow> scanner \<Rightarrow> gostring \<Rightarrow> scanner" where
  "scan D q [] = q"
| "scan D q (c # s) = scan D (jstep D q c) s"

definition max_nesting_depth :: nat where
  "max_nesting_depth = 10000"

definition json_valid_upto :: "nat \<Rightarrow> gostring \<Rightarrow> bool" where
  "json_valid_upto D s \<longleftrightarrow> fst (jstep D (scan D (BeginValue, []) s) CHR '' '') = EndTop"

definition json_valid :: "gostring \<Rightarrow> bool" where
  "json_valid s = json_valid_upto max_nesting_depth s"

subsection \<open>Values in context\<close>

lemma scan_append [simp]: "scan D q (xs @ ys) = scan D (scan D q xs) ys"
  by (induction xs arbitrary: q) auto

lemma scan_error [simp]: "scan D (ScanError, st) xs = (ScanError, st)"
  by (induction xs) auto

text \<open>
  A text is a value needing \<open>n\<close> further levels of nesting when the scanner, started on
  it inside any context with that much room, comes back to the same context with the value
  complete.
\<close>

definition value_done :: "jstate \<Rightarrow> pstate list \<Rightarrow> bool" where
  "value_done q st \<longleftrightarrow> q \<in> {EndValue, Num0, Num1, Dot0, ExpE0} \<or> (q = EndTop \<and> st = [])"

definition embeds :: "nat \<Rightarrow> gostring \<Rightarrow> bool" where
  "embeds n s \<longleftrightarrow> (\<forall>D st. length st + n \<le> D \<longrightarrow>
     (\<exists>q. value_done q st \<and> scan D (BeginValue, st) s = (q, st)))"

definition string_body :: "gostring \<Rightarrow> bool" where
  "string_body s \<longleftrightarrow> (\<forall>D st. scan D (InString, st) s = (InString, st))"

lemma value_done_step:
  assumes "value_done q st" and "st \<noteq> []" and "c \<in> {CHR '','', CHR ''}'', CHR '']'', CHR '':''}"
  shows "jstep D (q, st) c = end_value st c"
  using assms by (auto simp: value_done_def num0_def is_digit_def)

lemma embeds_valid:
  assumes "embeds n s" and "n \<le> D"
  shows "json_valid_upto D s"
proof -
  obtain q where q: "value_done q []" "scan D (BeginValue, []) s = (q, [])"
    using assms unfolding embeds_def by (metis add_0 list.size(3))
  from q(1) have "jstep D (q, []) CHR '' '' = (EndTop, [])"
    by (auto simp: value_done_def num0_def is_digit_def is_space_def)
  with q(2) show ?thesis by (simp add: json_valid_upto_def)
qed

lemma embeds_mono: "embeds m s \<Longrightarrow> m \<le> n \<Longrightarrow> embeds n s"
  unfolding embeds_def by (meson add_left_mono order_trans)

subsection \<open>A valid text embeds in any context\<close>

text \<open>
  The scanner never looks below the stack it started on, so a run on an empty stack can be
  replayed above any non-empty one; only the state reached at the end of the top-level value
  differs.
\<close>

definition lift_state :: "pstate list \<Rightarrow> scanner \<Rightarrow> scanner" where
  "lift_state base = (\<lambda>(q, st). (if q = EndTop then EndValue else q, st @ base))"

definition scanner_wf :: "scanner \<Rightarrow> bool" where
  "scanner_wf = (\<lambda>(q, st). (q = EndTop \<longrightarrow> st = []) \<and> (q = BeginStringOrEmpty \<longrightarrow> st \<noteq> []))"

lemma end_value_lift:
  assumes "end_value st c = (q', st')" and "q' \<noteq> ScanError" and "base \<noteq> []"
  shows "end_value (st @ base) c = lift_state base (q', st') \<and> scanner_wf (q', st')"
proof (cases st)
  case Nil
  then show ?thesis
    using assms by (cases base) (auto simp: lift_state_def scanner_wf_def split: if_splits)
next
  case (Cons p st'')
  then show ?thesis
    using assms
    by (cases p) (auto simp: lift_state_def scanner_wf_def pop_state_def split: if_splits)
qed

lemma begin_value_lift:
  assumes "begin_value D st c = (q', st')" and "q' \<noteq> ScanError" and "D + length base \<le> D'"
  shows "begin_value D' (st @ base) c = lift_state base (q', st') \<and> scanner_wf (q', st')"
  using assms
  by (auto simp: begin_value_def push_state_def lift_state_def scanner_wf_def split: if_splits)

lemmas scanner_defs = begin_string_def num0_def esign_def lift_state_def scanner_wf_def

lemma jstep_lift:
  assumes "scanner_wf (q, st)" and "jstep D (q, st) c = (q', st')" and "q' \<noteq> ScanError"
    and "base \<noteq> []" and "D + length base \<le> D'"
  shows "jstep D' (lift_state base (q, st)) c = lift_state base (q', st') \<and> scanner_wf (q', st')"
proof (cases q)
  case BeginValue
  then show ?thesis using assms begin_value_lift [of D st c q' st' base D'] by (simp add: lift_state_def)
next
  case BeginValueOrEmpty
  then show ?thesis
    using assms begin_value_lift [of D st c q' st' base D'] end_value_lift [of st c q' st' base]
    by (auto simp: lift_state_def scanner_wf_def split: if_splits)
next
  case BeginStringOrEmpty
  then show ?thesis
    using assms end_value_lift [of "ObjectValue # tl st" c q' st' base]
    by (auto simp: scanner_defs split: if_splits)
next
  case EndValue
  then show ?thesis using assms end_value_lift [of st c q' st' base] by (simp add: lift_state_def)
next
  case EndTop
  then show ?thesis
    using assms by (cases base) (auto simp: scanner_defs split: if_splits)
next
  case (Literal w)
  then show ?thesis
    using assms by (cases w) (auto simp: scanner_defs split: if_splits)
qed (use assms end_value_lift [of st c q' st' base] in
      \<open>auto simp: scanner_defs split: if_splits\<close>)

lemma scan_lift:
  assumes "scanner_wf (q, st)" and "scan D (q, st) s = (q', st')" and "q' \<noteq> ScanError"
    and "base \<noteq> []" and "D + length base \<le> D'"
  shows "scan D' (lift_state base (q, st)) s = lift_state base (q', st')"
  using assms
proof (induction s arbitrary: q st)
  case Nil
  then show ?case by simp
next
  case (Cons c s)
  obtain q1 st1 where s1: "jstep D (q, st) c = (q1, st1)" by fastforce
  with Cons.prems(2) have r: "scan D (q1, st1) s = (q', st')" by simp
  with Cons.prems(3) have "q1 \<noteq> ScanError" by auto
  then have "jstep D' (lift_state base (q, st)) c = lift_state base (q1, st1)" "scanner_wf (q1, st1)"
    using jstep_lift [OF Cons.prems(1) s1 _ assms(4,5)] by auto
  with Cons.IH [OF _ r] assms show ?case by simp
qed

lemma end_value_EndTop: "fst (end_value st c) = EndTop \<Longrightarrow> is_space c \<Longrightarrow> st = []"
  by (cases st) (auto split: if_splits)

lemma jstep_space_EndTop:
  assumes "fst (jstep D (q, st) CHR '' '') = EndTop"
  shows "(q = EndTop \<or> (q \<in> {EndValue, Num0, Num1, Dot0, ExpE0} \<and> st = []))"
proof -
  have sp: "is_space CHR '' ''" by (simp add: is_space_def)
  show ?thesis
    using assms sp end_value_EndTop [OF _ sp, of st]
    by (cases q)
      (auto simp: begin_value_def begin_string_def push_state_def num0_def esign_def is_digit_def
        split: if_splits list.splits)
qed

lemma jstep_wf:
  "scanner_wf (q, st) \<Longrightarrow> jstep D (q, st) c = (q', st') \<Longrightarrow> q' \<noteq> ScanError \<Longrightarrow> scanner_wf (q', st')"
  using jstep_lift [of q st D c q' st' "[ObjectKey]" "D + 1"] by simp

lemma scan_wf:
  "scanner_wf (q, st) \<Longrightarrow> scan D (q, st) s = (q', st') \<Longrightarrow> q' \<noteq> ScanError \<Longrightarrow> scanner_wf (q', st')"
proof (induction s arbitrary: q st)
  case (Cons c s)
  obtain q1 st1 where s1: "jstep D (q, st) c = (q1, st1)" by fastforce
  with Cons.prems show ?case using Cons.IH [of q1 st1] jstep_wf [OF Cons.prems(1) s1]
    by (cases "q1 = ScanError") auto
qed simp

lemma jstep_deeper:
  assumes "jstep D x c = (q', st')" and "q' \<noteq> ScanError" and "D \<le> D'"
  shows "jstep D' x c = (q', st')"
proof (cases x)
  case (Pair q st)
  show ?thesis
    using assms unfolding Pair
    by (cases q) (auto simp: begin_value_def push_state_def split: if_splits)
qed

lemma scan_deeper:
  "scan D x s = (q', st') \<Longrightarrow> q' \<noteq> ScanError \<Longrightarrow> D \<le> D' \<Longrightarrow> scan D' x s = (q', st')"
proof (induction s arbitrary: x)
  case (Cons c s)
  obtain q1 st1 where s1: "jstep D x c = (q1, st1)" by fastforce
  with Cons.prems have "q1 \<noteq> ScanError" by auto
  with Cons.prems Cons.IH s1 show ?case using jstep_deeper [OF s1 _ Cons.prems(3)] by simp
qed simp

lemma valid_embeds:
  assumes "json_valid_upto n s"
  shows "embeds n s"
  unfolding embeds_def
proof (intro allI impI)
  fix D and base :: "pstate list"
  assume room: "length base + n \<le> D"
  obtain q st where qs: "scan n (BeginValue, []) s = (q, st)" by fastforce
  have fin: "q = EndTop \<or> (q \<in> {EndValue, Num0, Num1, Dot0, ExpE0} \<and> st = [])"
    using assms qs jstep_space_EndTop [of n q st] by (simp add: json_valid_upto_def)
  then have ne: "q \<noteq> ScanError" by auto
  have "st = []"
    using scan_wf [OF _ qs ne] fin by (auto simp: scanner_wf_def)
  show "\<exists>q. value_done q base \<and> scan D (BeginValue, base) s = (q, base)"
  proof (cases "base = []")
    case True
    then show ?thesis
      using scan_deeper [OF qs ne] room fin \<open>st = []\<close> by (auto simp: value_done_def)
  next
    case False
    have "scan D (lift_state base (BeginValue, [])) s = lift_state base (q, [])"
      using scan_lift [OF _ qs ne False] room \<open>st = []\<close> by (auto simp: scanner_wf_def)
    then show ?thesis
      using fin by (auto simp: lift_state_def value_done_def)
  qed
qed

lemma embeds_iff_valid: "embeds n s \<longleftrightarrow> json_valid_upto n s"
  using valid_embeds embeds_valid by blast

subsection \<open>Strings, literals, numbers and objects\<close>

lemma string_body_Nil [simp]: "string_body []"
  by (simp add: string_body_def)

lemma string_body_append: "string_body s \<Longrightarrow> string_body t \<Longrightarrow> string_body (s @ t)"
  by (simp add: string_body_def)

lemma string_body_concat: "(\<And>s. s \<in> set ss \<Longrightarrow> string_body s) \<Longrightarrow> string_body (concat ss)"
  by (induction ss) (auto intro: string_body_append)

lemma string_body_plain:
  "\<forall>c \<in> set s. 32 \<le> byte c \<and> c \<noteq> CHR 0x22 \<and> c \<noteq> CHR 0x5C \<Longrightarrow> string_body s"
  unfolding string_body_def by (induction s) auto

lemma embeds_string:
  assumes "string_body s"
  shows "embeds n (CHR 0x22 # s @ [CHR 0x22])"
  using assms
  by (auto simp: embeds_def string_body_def begin_value_def is_space_def value_done_def)

lemma embeds_null: "embeds n ''null''"
  by (auto simp: embeds_def begin_value_def is_space_def value_done_def)

lemma embeds_true: "embeds n ''true''"
  by (auto simp: embeds_def begin_value_def is_space_def value_done_def)

lemma embeds_false: "embeds n ''false''"
  by (auto simp: embeds_def begin_value_def is_space_def value_done_def)

lemma digit_not_space: "is_digit c \<Longrightarrow> \<not> is_space c"
  unfolding is_digit_def is_space_def by linarith

lemma begin_value_digit:
  assumes "is_digit c" and "c \<noteq> CHR ''0''"
  shows "begin_value D st c = (Num1, st)"
proof -
  have "c \<noteq> CHR ''{''" "c \<noteq> CHR ''[''" "c \<noteq> CHR 0x22" "c \<noteq> CHR ''-''" "c \<noteq> CHR ''t''"
    "c \<noteq> CHR ''f''" "c \<noteq> CHR ''n''"
    using assms(1) by (auto simp: is_digit_def)
  with assms show ?thesis by (simp add: begin_value_def digit_not_space)
qed

lemma scan_digits: "(\<And>c. c \<in> set s \<Longrightarrow> is_digit c) \<Longrightarrow> scan D (Num1, st) s = (Num1, st)"
  by (induction s) auto

lemma itoa_first_nonzero:
  "0 < n \<Longrightarrow> hd (itoa n) \<noteq> CHR ''0'' \<and> is_digit (hd (itoa n))"
proof (induction n rule: itoa.induct)
  case (1 n)
  show ?case
  proof (cases "n < 10")
    case True
    have "byte (digit_char n) \<noteq> byte CHR ''0''" using "1.prems" True by (simp add: byte_digit_char)
    with True show ?thesis by (auto simp: itoa.simps [of n] is_digit_digit_char)
  next
    case False
    then have "0 < n div 10" by simp
    with False "1.IH" show ?thesis by (simp add: itoa.simps [of n])
  qed
qed

lemma scan_itoa_positive:
  assumes "0 < n"
  shows "scan D (BeginValue, st) (itoa n) = (Num1, st)" and "scan D (Neg, st) (itoa n) = (Num1, st)"
proof -
  obtain c t where ct: "itoa n = c # t" "c \<noteq> CHR ''0''" "is_digit c"
    using itoa_first_nonzero [OF assms] by (cases "itoa n") auto
  have digits: "is_digit x" if "x \<in> set t" for x
    using that ct(1) itoa_digits [of x n] by simp
  show "scan D (BeginValue, st) (itoa n) = (Num1, st)"
    unfolding ct(1) by (simp add: begin_value_digit ct(2,3) scan_digits digits)
  show "scan D (Neg, st) (itoa n) = (Num1, st)"
    unfolding ct(1) by (simp add: ct(2,3) scan_digits digits)
qed

lemma embeds_itoa: "embeds k (itoa n)"
proof (cases "n = 0")
  case True
  have "itoa 0 = ''0''" by (simp add: itoa.simps [of 0])
  with True show ?thesis by (auto simp: embeds_def begin_value_def is_space_def value_done_def)
next
  case False
  then show ?thesis by (auto simp: embeds_def value_done_def scan_itoa_positive)
qed

lemma embeds_itoa_int: "embeds k (itoa_int i)"
proof (cases "i < 0")
  case True
  then have "scan D (BeginValue, st) (itoa_int i) = (Num1, st)" for D st
    by (simp add: itoa_int_def begin_value_def is_space_def scan_itoa_positive)
  then show ?thesis by (auto simp: embeds_def value_done_def)
next
  case False
  then show ?thesis by (simp add: itoa_int_def embeds_itoa)
qed

text \<open>
  The watcher's renderers write objects as \<^verbatim>\<open>{"k":v, "k":v}\<close>: members separated by a
  comma and a space; \<^verbatim>\<open>json.Marshal\<close> leaves the space out. \<open>json_object_sep\<close> is
  that layout as a function of the separator, the escaped keys and the rendered values.
\<close>

fun intercalate :: "gostring \<Rightarrow> gostring list \<Rightarrow> gostring" where
  "intercalate sep [] = []"
| "intercalate sep [x] = x"
| "intercalate sep (x # y # xs) = x @ sep @ intercalate sep (y # xs)"

definition json_member :: "gostring \<times> gostring \<Rightarrow> gostring" where
  "json_member = (\<lambda>(k, v). CHR 0x22 # k @ CHR 0x22 # CHR '':'' # v)"

definition json_object_sep :: "gostring \<Rightarrow> (gostring \<times> gostring) list \<Rightarrow> gostring" where
  "json_object_sep sep ms = CHR ''{'' # intercalate sep (map json_member ms) @ ''}''"

abbreviation json_object :: "(gostring \<times> gostring) list \<Rightarrow> gostring" where
  "json_object \<equiv> json_object_sep '', ''"

lemma intercalate_snoc:
  "intercalate sep (xs @ [y]) = (if xs = [] then y else intercalate sep xs @ sep @ y)"
  by (induction sep xs rule: intercalate.induct) auto

lemma scan_member:
  assumes "string_body k" and "embeds n v" and "Suc (length st) + n \<le> D"
  shows "\<exists>q. value_done q (ObjectValue # st) \<and>
    scan D (InString, ObjectKey # st) (k @ CHR 0x22 # CHR '':'' # v) = (q, ObjectValue # st)"
proof -
  obtain q where "value_done q (ObjectValue # st)"
    "scan D (BeginValue, ObjectValue # st) v = (q, ObjectValue # st)"
    using assms(2,3) unfolding embeds_def by (metis length_Cons)
  with assms(1) show ?thesis by (auto simp: string_body_def is_space_def)
qed

lemma scan_members:
  assumes "ms \<noteq> []" and "\<And>k v. (k, v) \<in> set ms \<Longrightarrow> string_body k \<and> embeds n v"
    and "Suc (length st) + n \<le> D" and "q0 \<in> {BeginString, BeginStringOrEmpty}"
    and "sep = '','' \<or> sep = '', ''"
  shows "\<exists>q. value_done q (ObjectValue # st) \<and>
    scan D (q0, ObjectKey # st) (intercalate sep (map json_member ms)) = (q, ObjectValue # st)"
  using assms
proof (induction ms arbitrary: q0)
  case Nil
  then show ?case by simp
next
  case (Cons m ms)
  obtain k v where m: "m = (k, v)" by fastforce
  have kv: "string_body k" "embeds n v" using Cons.prems(2) m by auto
  obtain q where q: "value_done q (ObjectValue # st)"
    "scan D (InString, ObjectKey # st) (k @ CHR 0x22 # CHR '':'' # v) = (q, ObjectValue # st)"
    using scan_member [OF kv Cons.prems(3)] by blast
  have first: "scan D (q0, ObjectKey # st) (json_member m) = (q, ObjectValue # st)"
    using Cons.prems(4) q(2) by (auto simp: json_member_def m begin_string_def is_space_def)
  show ?case
  proof (cases ms)
    case Nil
    then show ?thesis using first q(1) by simp
  next
    case (Cons m' ms')
    have "scan D (q, ObjectValue # st) sep = (BeginString, ObjectKey # st)"
      using value_done_step [OF q(1), of "CHR '',''" D] assms(5)
      by (auto simp: is_space_def begin_string_def)
    moreover obtain q' where "value_done q' (ObjectValue # st)"
      "scan D (BeginString, ObjectKey # st) (intercalate sep (map json_member ms)) = (q', ObjectValue # st)"
      using Cons.IH [of BeginString] Cons Cons.prems by auto
    ultimately show ?thesis using first Cons by auto
  qed
qed

lemma embeds_object:
  assumes "\<And>k v. (k, v) \<in> set ms \<Longrightarrow> string_body k \<and> embeds n v"
    and "sep = '','' \<or> sep = '', ''"
  shows "embeds (Suc n) (json_object_sep sep ms)"
  unfolding embeds_def
proof (intro allI impI)
  fix D and st :: "pstate list"
  assume room: "length st + Suc n \<le> D"
  then have b: "jstep D (BeginValue, st) CHR ''{'' = (BeginStringOrEmpty, ObjectKey # st)"
    by (simp add: begin_value_def is_space_def push_state_def)
  have pop: "\<exists>q. value_done q st \<and> pop_state st = (q, st)"
    by (auto simp: pop_state_def value_done_def)
  show "\<exists>q. value_done q st \<and> scan D (BeginValue, st) (json_object_sep sep ms) = (q, st)"
  proof (cases "ms = []")
    case True
    then show ?thesis using b pop by (simp add: json_object_sep_def is_space_def)
  next
    case False
    then obtain q where q: "value_done q (ObjectValue # st)"
      "scan D (BeginStringOrEmpty, ObjectKey # st) (intercalate sep (map json_member ms)) = (q, ObjectValue # st)"
      using scan_members [OF False assms(1), of st D BeginStringOrEmpty sep] assms(2) room by auto
    have "jstep D (q, ObjectValue # st) CHR ''}'' = pop_state st"
      using value_done_step [OF q(1), of "CHR ''}''" D] by (simp add: is_space_def)
    then show ?thesis using b q pop by (simp add: json_object_sep_def)
  qed
qed

end
