(* ===== verification/Json_Escape.thy ===== *)
theory Json_Escape
  imports Go_Json
begin

text \<open>
  Package \<^verbatim>\<open>jsonutil\<close> (\<^verbatim>\<open>internal/jsonutil/escape.go\<close>): \<^verbatim>\<open>EscapeString\<close>, the one
  routine every renderer of row data uses to embed database text in a JSON string, and the
  string decoder of \<^verbatim>\<open>encoding/json\<close> that consumers apply to the result. Shown here:
  whatever bytes the database sends, the escaped text is the body of a well-formed JSON
  string, and decoding it gives the bytes back (malformed UTF-8 being replaced, as Go's
  range loop does).
\<close>

subsection \<open>EscapeString\<close>

definition hex_digit :: "nat \<Rightarrow> char" where
  "hex_digit d = (if d < 10 then char_of (48 + d) else char_of (87 + d))"

text \<open>The format \<^verbatim>\<open>\u%04x\<close>.\<close>

definition u_escape :: "nat \<Rightarrow> gostring" where
  "u_escape c =
     [CHR 0x5C, CHR ''u'', hex_digit (c div 4096 mod 16), hex_digit (c div 256 mod 16),
      hex_digit (c div 16 mod 16), hex_digit (c mod 16)]"

definition escape_rune :: "nat \<Rightarrow> gostring" where
  "escape_rune c =
     (if c = 92 then [CHR 0x5C, CHR 0x5C]
      else if c = 34 then [CHR 0x5C, CHR 0x22]
      else if c = 10 then [CHR 0x5C, CHR ''n'']
      else if c = 13 then [CHR 0x5C, CHR ''r'']
      else if c = 9 then [CHR 0x5C, CHR ''t'']
      else if c = 8 then [CHR 0x5C, CHR ''b'']
      else if c = 12 then [CHR 0x5C, CHR ''f'']
      else if c < 32 \<or> c = 127 then u_escape c
      else encode_rune c)"

definition EscapeString :: "gostring \<Rightarrow> gostring" where
  "EscapeString s = concat (map escape_rune (runes s))"

subsection \<open>The decoder of JSON string bodies\<close>

definition hex_value :: "char \<Rightarrow> nat option" where
  "hex_value c =
     (if is_digit c then Some (byte c - 48)
      else if 97 \<le> byte c \<and> byte c \<le> 102 then Some (byte c - 87)
      else if 65 \<le> byte c \<and> byte c \<le> 70 then Some (byte c - 55)
      else None)"

text \<open>\<^verbatim>\<open>getu4\<close>, on the text after a backslash and a \<^verbatim>\<open>u\<close>.\<close>

definition getu4 :: "gostring \<Rightarrow> (nat \<times> gostring) option" where
  "getu4 s = (case s of
      a # b # c # d # t \<Rightarrow>
        (case (hex_value a, hex_value b, hex_value c, hex_value d) of
           (Some x, Some y, Some z, Some w) \<Rightarrow> Some (x * 4096 + y * 256 + z * 16 + w, t)
         | _ \<Rightarrow> None)
    | _ \<Rightarrow> None)"

definition is_surrogate :: "nat \<Rightarrow> bool" where
  "is_surrogate r \<longleftrightarrow> 55296 \<le> r \<and> r < 57344"

text \<open>
  One unit of \<^verbatim>\<open>unquoteBytes\<close>: the bytes it appends and the input it leaves;
  \<open>None\<close> where the Go function gives up.
\<close>

definition unquote_u :: "gostring \<Rightarrow> (gostring \<times> gostring) option" where
  "unquote_u s = (case getu4 s of
      None \<Rightarrow> None
    | Some (rr, t) \<Rightarrow>
        if is_surrogate rr then
          (case t of
             b # u # t1 \<Rightarrow>
               if b = CHR 0x5C \<and> u = CHR ''u'' then
                 (case getu4 t1 of
                    Some (rr1, t2) \<Rightarrow>
                      if rr < 56320 \<and> 56320 \<le> rr1 \<and> rr1 < 57344
                      then Some (encode_rune ((rr - 55296) * 1024 + (rr1 - 56320) + 65536), t2)
                      else Some (encode_rune rune_error, t)
                  | None \<Rightarrow> Some (encode_rune rune_error, t))
               else Some (encode_rune rune_error, t)
           | _ \<Rightarrow> Some (encode_rune rune_error, t))
        else Some (encode_rune rr, t))"

definition unquote_unit :: "char \<Rightarrow> gostring \<Rightarrow> (gostring \<times> gostring) option" where
  "unquote_unit c s =
     (if c = CHR 0x5C then
        (case s of
           [] \<Rightarrow> None
         | e # t \<Rightarrow>
             if e = CHR 0x22 \<or> e = CHR 0x5C \<or> e = CHR ''/'' \<or> e = CHR 0x27 then Some ([e], t)
             else if e = CHR ''b'' then Some ([CHR 0x08], t)
             else if e = CHR ''f'' then Some ([CHR 0x0C], t)
             else if e = CHR ''n'' then Some ([CHR 0x0A], t)
             else if e = CHR ''r'' then Some ([CHR 0x0D], t)
             else if e = CHR ''t'' then Some ([CHR 0x09], t)
             else if e = CHR ''u'' then unquote_u t
             else None)
      else if c = CHR 0x22 \<or> byte c < 32 then None
      else if byte c < 128 then Some ([c], s)
      else (let (r, n) = decode_rune (c # s) in Some (encode_rune r, drop (n - 1) s)))"

lemma getu4_shorter: "getu4 s = Some (r, t) \<Longrightarrow> length t < length s"
  by (auto simp: getu4_def split: list.splits option.splits)

lemma unquote_u_shorter: "unquote_u s = Some (out, t) \<Longrightarrow> length t \<le> length s"
  by (auto simp: unquote_u_def split: if_splits option.splits list.splits dest!: getu4_shorter)

lemma unquote_unit_shorter: "unquote_unit c s = Some (out, t) \<Longrightarrow> length t \<le> length s"
  by (auto simp: unquote_unit_def split: if_splits list.splits prod.splits dest!: unquote_u_shorter)

function unquote :: "gostring \<Rightarrow> gostring option" where
  "unquote [] = Some []"
| "unquote (c # s) =
     (case unquote_unit c s of
        None \<Rightarrow> None
      | Some (out, t) \<Rightarrow> map_option (\<lambda>rest. out @ rest) (unquote t))"
  by pat_completeness auto
termination
  by (relation "measure length") (auto dest: unquote_unit_shorter)

subsection \<open>Correctness\<close>

lemma decode_rune_scalar: "decode_rune (b # t) = (r, n) \<Longrightarrow> is_scalar r"
proof (erule decode_rune_cases, goal_cases)
  case (3 b1 t')
  then show ?case by (auto simp: is_scalar_def in_range_def)
next
  case (4 b1 b2 t')
  have d: "byte b1 - 128 < 64" "byte b2 - 128 < 64" "byte b - 224 < 16"
    using 4 by (auto simp: in_range_def)
  have "byte b - 224 = 13 \<longrightarrow> byte b = 237" using 4(1) by arith
  then have "\<not> (55296 \<le> r \<and> r < 57344)"
    using surrogate_digits [OF 4(8) d(1,2)] 4(7) by auto
  moreover have "r < 65536" unfolding 4(8) using d by linarith
  ultimately show ?case by (auto simp: is_scalar_def)
next
  case (5 b1 b2 b3 t')
  have d: "byte b1 - 128 < 64" "byte b2 - 128 < 64" "byte b3 - 128 < 64" "byte b - 240 < 5"
    using 5 by (auto simp: in_range_def)
  have "byte b - 240 = 0 \<longrightarrow> byte b = 240" "byte b - 240 = 4 \<longrightarrow> byte b = 244" using 5(1) by arith+
  then have "65536 \<le> r" "r < 1114112"
    unfolding plane_digits [OF 5(9) d(1,2,3)] using 5(7,8) d(4) by auto
  then show ?case by (simp add: is_scalar_def)
qed (auto simp: is_scalar_def rune_error_def)

lemma runes_scalar: "r \<in> set (runes s) \<Longrightarrow> is_scalar r"
proof (induction s rule: runes.induct)
  case (2 b t)
  obtain r' n where "decode_rune (b # t) = (r', n)" by fastforce
  with 2 show ?case by (auto dest: decode_rune_scalar)
qed simp

lemma encode_rune_bytes:
  "128 \<le> r \<Longrightarrow> c \<in> set (encode_rune r) \<Longrightarrow> 128 \<le> byte c"
  by (auto simp: encode_rune_def of_char_of split: if_splits)

lemma string_body_encode:
  assumes "32 \<le> r" "r \<noteq> 34" "r \<noteq> 92"
  shows "string_body (encode_rune r)"
proof (rule string_body_plain, intro ballI)
  fix c assume c: "c \<in> set (encode_rune r)"
  show "32 \<le> byte c \<and> c \<noteq> CHR 0x22 \<and> c \<noteq> CHR 0x5C"
  proof (cases "r < 128")
    case True
    with c have "byte c = r" by (simp add: encode_rune_def)
    with assms show ?thesis by auto
  next
    case False
    with encode_rune_bytes [OF _ c] have "128 \<le> byte c" by simp
    then show ?thesis by auto
  qed
qed

lemma hex_digit_is_hex: "d < 16 \<Longrightarrow> is_hex (hex_digit d)"
  by (auto simp: hex_digit_def is_hex_def is_digit_def)

lemma hex_value_hex_digit: "d < 16 \<Longrightarrow> hex_value (hex_digit d) = Some d"
  by (auto simp: hex_digit_def hex_value_def is_digit_def)

lemma string_body_u_escape: "string_body (u_escape c)"
  by (auto simp: string_body_def u_escape_def hex_digit_is_hex)

lemma string_body_escape_rune: "string_body (escape_rune c)"
  by (auto simp: escape_rune_def string_body_u_escape intro!: string_body_encode)
    (auto simp: string_body_def)

lemma EscapeString_body: "string_body (EscapeString s)"
  by (auto simp: EscapeString_def intro!: string_body_concat string_body_escape_rune)

lemma escaped_chars:
  "char_of (92 :: nat) = CHR 0x5C" "char_of (34 :: nat) = CHR 0x22" "char_of (10 :: nat) = CHR 0x0A"
  "char_of (13 :: nat) = CHR 0x0D" "char_of (9 :: nat) = CHR 0x09" "char_of (8 :: nat) = CHR 0x08"
  "char_of (12 :: nat) = CHR 0x0C"
  by (rule iffD1 [OF byte_inject], simp)+

lemma encode_rune_nonempty: "encode_rune r \<noteq> []"
  by (simp add: encode_rune_def)

lemma unquote_u_escape:
  assumes "r < 256"
  shows "unquote_u (drop 2 (u_escape r) @ t) = Some (encode_rune r, t)"
proof -
  have "getu4 (drop 2 (u_escape r) @ t) = Some (r, t)"
    using assms by (simp add: u_escape_def getu4_def hex_value_hex_digit)
  with assms show ?thesis by (simp add: unquote_u_def is_surrogate_def)
qed

lemma unquote_high_rune:
  assumes "is_scalar r" and "128 \<le> r"
  shows "unquote (encode_rune r @ t) = map_option (\<lambda>rest. encode_rune r @ rest) (unquote t)"
proof -
  obtain b bs where e: "encode_rune r = b # bs" using encode_rune_nonempty by (cases "encode_rune r") auto
  have "128 \<le> byte b" using encode_rune_bytes [OF assms(2), of b] e by simp
  moreover have "b \<noteq> CHR 0x5C" "b \<noteq> CHR 0x22" using calculation by auto
  moreover have "decode_rune (b # bs @ t) = (r, Suc (length bs))"
    using decode_encode_scalar [OF assms(1), of t] e by simp
  ultimately have "unquote_unit b (bs @ t) = Some (encode_rune r, t)"
    by (simp add: unquote_unit_def)
  then have "unquote (b # bs @ t) = map_option (\<lambda>rest. encode_rune r @ rest) (unquote t)" by simp
  then show ?thesis using e by simp
qed

lemma unquote_escape_rune:
  assumes "is_scalar r"
  shows "unquote (escape_rune r @ t) = map_option (\<lambda>rest. encode_rune r @ rest) (unquote t)"
proof -
  consider "r \<in> {92, 34, 10, 13, 9, 8, 12}"
    | "r \<notin> {92, 34, 10, 13, 9, 8, 12}" "r < 32 \<or> r = 127"
    | "r \<notin> {92, 34}" "32 \<le> r" "r < 128" "r \<noteq> 127" | "128 \<le> r" by fastforce
  then show ?thesis
  proof cases
    case 1
    then show ?thesis
      by (cases "unquote t"; elim insertE emptyE) (simp_all add: escape_rune_def unquote_unit_def encode_rune_def escaped_chars)
  next
    case 2
    have "u_escape r = CHR 0x5C # CHR ''u'' # drop 2 (u_escape r)" by (simp add: u_escape_def)
    moreover have "unquote_u (drop 2 (u_escape r) @ t) = Some (encode_rune r, t)"
      using 2 by (intro unquote_u_escape) auto
    moreover have "escape_rune r = u_escape r" using 2 by (auto simp: escape_rune_def)
    ultimately have "unquote (escape_rune r @ t) =
        unquote (CHR 0x5C # CHR ''u'' # drop 2 (u_escape r) @ t)"
      by (metis append_Cons)
    then show ?thesis
      using \<open>unquote_u (drop 2 (u_escape r) @ t) = Some (encode_rune r, t)\<close>
      by (simp add: unquote_unit_def)
  next
    case 3
    then have "char_of r \<noteq> CHR 0x5C" "char_of r \<noteq> CHR 0x22"
      by (simp_all add: char_of_inject_small flip: escaped_chars)
    with 3 show ?thesis
      by (cases "unquote t") (simp_all add: escape_rune_def unquote_unit_def encode_rune_def)
  next
    case 4
    then show ?thesis using unquote_high_rune [OF assms] by (simp add: escape_rune_def)
  qed
qed

lemma unquote_escape_runes:
  "(\<And>r. r \<in> set rs \<Longrightarrow> is_scalar r) \<Longrightarrow>
   unquote (concat (map escape_rune rs)) = Some (concat (map encode_rune rs))"
  by (induction rs) (simp_all add: unquote_escape_rune)

lemma encode_runes_valid: "utf8_valid s \<Longrightarrow> concat (map encode_rune (runes s)) = s"
proof (induction s rule: utf8_valid.induct)
  case (2 b t)
  obtain r n where d: "decode_rune (b # t) = (r, n)" by fastforce
  with 2 have ok: "(r, n) \<noteq> (rune_error, 1)" and IH: "concat (map encode_rune (runes (drop (n - 1) t))) = drop (n - 1) t"
    by auto
  have "encode_rune r = b # take (n - 1) t"
    using encode_decode [OF d ok] decode_rune_size [OF d] by (cases n) auto
  with d IH show ?case by simp
qed simp

lemma unquote_EscapeString: "unquote (EscapeString s) = Some (concat (map encode_rune (runes s)))"
  unfolding EscapeString_def by (rule unquote_escape_runes) (rule runes_scalar)

text \<open>C24. whatever bytes a database value holds, embedding them with \<^verbatim>\<open>EscapeString\<close>
  between double quotes is a complete JSON value (it can never break out of the string or
  make the row invalid), and decoding the string gives the value back unchanged when it is
  well-formed UTF-8, and otherwise the value with each malformed byte replaced by U+FFFD.\<close>

theorem EscapeString_roundtrip:
  "json_valid (CHR 0x22 # EscapeString s @ [CHR 0x22]) \<and>
   unquote (EscapeString s) = Some (if utf8_valid s then s else concat (map encode_rune (runes s)))"
proof -
  have "json_valid_upto max_nesting_depth (CHR 0x22 # EscapeString s @ [CHR 0x22])"
    by (rule embeds_valid [OF embeds_string [OF EscapeString_body, of 0]]) simp
  then show ?thesis
    by (simp add: json_valid_def encode_runes_valid unquote_EscapeString)
qed

end
