(* ===== verification/Go_Json_Map.thy ===== *)
theory Go_Json_Map
  imports Json_Escape "HOL-Library.Char_ord" "HOL-Library.List_Lexorder"
begin

text \<open>
  The rest of \<^verbatim>\<open>encoding/json\<close> the watcher uses: writing a string
  (\<^verbatim>\<open>json.Marshal\<close> of a Go string, with HTML escaping), reading an object into a
  \<^verbatim>\<open>map[string]json.RawMessage\<close>, and writing such a map (keys sorted, raw values
  compacted).
\<close>

subsection \<open>Writing strings\<close>

definition html_safe :: "char \<Rightarrow> bool" where
  "html_safe c \<longleftrightarrow> 32 \<le> byte c \<and> c \<noteq> CHR 0x22 \<and> c \<noteq> CHR 0x5C \<and>
     c \<noteq> CHR ''<'' \<and> c \<noteq> CHR ''>'' \<and> c \<noteq> CHR ''&''"

definition quote_ascii :: "char \<Rightarrow> gostring" where
  "quote_ascii c =
     (if html_safe c then [c]
      else if c = CHR 0x5C \<or> c = CHR 0x22 then [CHR 0x5C, c]
      else if byte c = 8 then [CHR 0x5C, CHR ''b'']
      else if byte c = 12 then [CHR 0x5C, CHR ''f'']
      else if byte c = 10 then [CHR 0x5C, CHR ''n'']
      else if byte c = 13 then [CHR 0x5C, CHR ''r'']
      else if byte c = 9 then [CHR 0x5C, CHR ''t'']
      else u_escape (byte c))"

definition quote_unit :: "char \<Rightarrow> gostring \<Rightarrow> gostring \<times> gostring" where
  "quote_unit c s =
     (if byte c < 128 then (quote_ascii c, s)
      else let (r, n) = decode_rune (c # s) in
        (if r = rune_error \<and> n = 1 then u_escape rune_error
         else if r = 8232 \<or> r = 8233 then u_escape r
         else take n (c # s), drop (n - 1) s))"

lemma quote_unit_shorter: "length (snd (quote_unit c s)) \<le> length s"
  by (auto simp: quote_unit_def split: prod.splits)

function quote_body :: "gostring \<Rightarrow> gostring" where
  "quote_body [] = []"
| "quote_body (c # s) = fst (quote_unit c s) @ quote_body (snd (quote_unit c s))"
  by pat_completeness auto
termination
  by (relation "measure length") (auto intro: le_imp_less_Suc quote_unit_shorter)

definition marshal_string :: "gostring \<Rightarrow> gostring" where
  "marshal_string s = CHR 0x22 # quote_body s @ [CHR 0x22]"

lemma u_escape_body: "string_body (u_escape c)"
  by (rule string_body_u_escape)

lemma quote_ascii_body: "string_body (quote_ascii c)"
proof (cases "html_safe c")
  case True
  then show ?thesis by (auto simp: quote_ascii_def html_safe_def intro: string_body_plain)
next
  case False
  then show ?thesis by (auto simp: quote_ascii_def u_escape_body) (auto simp: string_body_def)
qed

lemma quote_unit_body: "string_body (fst (quote_unit c s))"
proof (cases "byte c < 128")
  case True
  then show ?thesis by (simp add: quote_unit_def quote_ascii_body)
next
  case False
  obtain r n where d: "decode_rune (c # s) = (r, n)" by fastforce
  have "string_body (take n (c # s))" if ok: "\<not> (r = rune_error \<and> n = 1)"
  proof -
    have "encode_rune r = take n (c # s)" using encode_decode [OF d] ok by simp
    moreover have "128 \<le> r"
    proof (rule ccontr)
      assume "\<not> 128 \<le> r"
      then have "encode_rune r = [char_of r]" by (simp add: encode_rune_def)
      with calculation decode_rune_size [OF d] have "c = char_of r" by (cases n) auto
      with False \<open>\<not> 128 \<le> r\<close> show False by simp
    qed
    ultimately show ?thesis using string_body_encode [of r] by simp
  qed
  with d False show ?thesis by (auto simp: quote_unit_def u_escape_body)
qed

lemma quote_body_body: "string_body (quote_body s)"
  by (induction s rule: quote_body.induct) (auto intro: string_body_append quote_unit_body)

lemma marshal_string_embeds: "embeds n (marshal_string s)"
  unfolding marshal_string_def by (rule embeds_string [OF quote_body_body])

text \<open>Reading a written string gives it back.\<close>

lemma u_escape_split: "u_escape r = CHR 0x5C # CHR ''u'' # drop 2 (u_escape r)"
  by (simp add: u_escape_def)

lemma unquote_u_escape_append:
  assumes "r < 65536" and "\<not> is_surrogate r"
  shows "unquote (u_escape r @ t) = map_option (\<lambda>rest. encode_rune r @ rest) (unquote t)"
proof -
  have e: "r = r div 4096 mod 16 * 4096 + r div 256 mod 16 * 256 + r div 16 mod 16 * 16 + r mod 16"
  proof -
    have "r div 256 = r div 16 div 16" "r div 4096 = r div 256 div 16"
      by (simp_all add: div_mult2_eq [symmetric])
    moreover have "r div 4096 mod 16 = r div 4096" using assms(1) by simp
    ultimately show ?thesis
      using div_mult_mod_eq [of r 16] div_mult_mod_eq [of "r div 16" 16]
        div_mult_mod_eq [of "r div 256" 16] by linarith
  qed
  have "getu4 (drop 2 (u_escape r) @ t) = Some (r, t)"
    by (simp add: u_escape_def getu4_def hex_value_hex_digit flip: e)
  then have "unquote_u (drop 2 (u_escape r) @ t) = Some (encode_rune r, t)"
    using assms(2) by (simp add: unquote_u_def)
  then have "unquote (CHR 0x5C # CHR ''u'' # drop 2 (u_escape r) @ t) = map_option (\<lambda>rest. encode_rune r @ rest) (unquote t)"
    by (simp add: unquote_unit_def)
  then show ?thesis by (metis append_Cons u_escape_split)
qed

lemma quote_escape_chars:
  "byte c = 8 \<Longrightarrow> c = CHR 0x08" "byte c = 12 \<Longrightarrow> c = CHR 0x0C" "byte c = 10 \<Longrightarrow> c = CHR 0x0A"
  "byte c = 13 \<Longrightarrow> c = CHR 0x0D" "byte c = 9 \<Longrightarrow> c = CHR 0x09"
  by (rule iffD1 [OF byte_inject], simp)+

lemma unquote_quote_ascii:
  assumes "byte c < 128"
  shows "unquote (quote_ascii c @ t) = map_option (\<lambda>rest. [c] @ rest) (unquote t)"
proof -
  have enc: "encode_rune (byte c) = [c]" using assms by (simp add: encode_rune_def char_of_char)
  have u: "unquote (u_escape (byte c) @ t) = map_option (\<lambda>rest. [c] @ rest) (unquote t)"
    using unquote_u_escape_append [of "byte c" t] assms enc by (simp add: is_surrogate_def)
  consider "html_safe c" | "c = CHR 0x5C" | "c = CHR 0x22" | "byte c = 8" | "byte c = 12"
    | "byte c = 10" | "byte c = 13" | "byte c = 9" | "quote_ascii c = u_escape (byte c)"
    unfolding quote_ascii_def by argo
  then show ?thesis
  proof cases
    case 1
    then show ?thesis
      using assms by (cases "unquote t") (auto simp: quote_ascii_def html_safe_def unquote_unit_def)
  next
    case 9
    then show ?thesis using u by simp
  qed (cases "unquote t"; auto simp: quote_ascii_def html_safe_def unquote_unit_def dest!: quote_escape_chars)+
qed

lemma unquote_quote_body: "utf8_valid s \<Longrightarrow> unquote (quote_body s) = Some s"
proof (induction s rule: utf8_valid.induct)
  case (2 c s)
  obtain r n where d: "decode_rune (c # s) = (r, n)" by fastforce
  have ok: "(r, n) \<noteq> (rune_error, 1)" and IH: "unquote (quote_body (drop (n - 1) s)) = Some (drop (n - 1) s)"
    using 2 d by auto
  have n: "1 \<le> n" using decode_rune_size [OF d] by simp
  have enc: "encode_rune r = take n (c # s)" by (rule encode_decode [OF d ok])
  show ?case
  proof (cases "byte c < 128")
    case True
    then have "n = 1" using d by (simp add: decode_rune.simps(2))
    with True IH show ?thesis by (simp add: quote_unit_def unquote_quote_ascii)
  next
    case False
    then have "128 \<le> r"
      using enc n d by (cases n) (auto simp: encode_rune_def split: if_splits)
    have snd: "snd (quote_unit c s) = drop (n - 1) s" using False d by (simp add: quote_unit_def)
    have "unquote (fst (quote_unit c s) @ t) = map_option (\<lambda>rest. encode_rune r @ rest) (unquote t)" for t
    proof (cases "r = 8232 \<or> r = 8233")
      case True
      then show ?thesis
        using False d unquote_u_escape_append [of r t] by (auto simp: quote_unit_def is_surrogate_def rune_error_def)
    next
      case r: False
      then show ?thesis
        using False d ok unquote_high_rune [OF decode_rune_scalar [OF d] \<open>128 \<le> r\<close>, of t] enc
        by (auto simp: quote_unit_def)
    qed
    then have "unquote (quote_body (c # s)) = Some (encode_rune r @ drop (n - 1) s)"
      using IH snd by simp
    then show ?thesis using enc n by (cases n) auto
  qed
qed simp

subsection \<open>Reading an object\<close>

text \<open>
  \<^verbatim>\<open>json.Unmarshal\<close> into a \<^verbatim>\<open>map[string]json.RawMessage\<close> walks the text with the
  scanner: the text between the opening of a value and the separator that closes it is the
  raw message, without surrounding space. \<open>cur\<close> is the text since the last boundary,
  \<open>key\<close> the member whose value is being read.
\<close>

definition strip :: "gostring \<Rightarrow> gostring" where
  "strip s = rev (dropWhile is_space (rev (dropWhile is_space s)))"

definition read_key :: "gostring \<Rightarrow> gostring" where
  "read_key s = (case unquote (butlast (tl (strip s))) of Some k \<Rightarrow> k | None \<Rightarrow> [])"

fun collect :: "nat \<Rightarrow> scanner \<Rightarrow> gostring \<Rightarrow> gostring \<Rightarrow> (gostring \<times> gostring) list \<Rightarrow> gostring \<Rightarrow> (gostring \<times> gostring) list" where
  "collect D x cur key acc [] = rev acc"
| "collect D x cur key acc (c # s) =
     (let x' = jstep D x c in
      if snd x = [] \<and> x' = (BeginStringOrEmpty, [ObjectKey]) then collect D x' [] [] acc s
      else if snd x = [ObjectKey] \<and> x' = (BeginValue, [ObjectValue]) then collect D x' [] (read_key cur) acc s
      else if snd x = [ObjectValue] \<and> (x' = (BeginString, [ObjectKey]) \<or> x' = (EndTop, []))
      then collect D x' [] [] ((key, strip cur) # acc) s
      else collect D x' (cur @ [c]) key acc s)"

definition unmarshal_map :: "gostring \<Rightarrow> (gostring \<times> gostring) list option" where
  "unmarshal_map s =
     (if \<not> json_valid s then None
      else if strip s = ''null'' then Some []
      else if hd (strip s) = CHR ''{'' then Some (collect max_nesting_depth (BeginValue, []) [] [] [] s)
      else None)"

lemma collect_lifted:
  assumes "scanner_wf (q, st)" and "scan D (q, st) v = (q', st')" and "q' \<noteq> ScanError" and "Suc D \<le> D'"
  shows "collect D' (lift_state [p] (q, st)) cur key acc (v @ s) =
         collect D' (lift_state [p] (q', st')) (cur @ v) key acc s"
  using assms
proof (induction v arbitrary: q st cur)
  case Nil
  then show ?case by simp
next
  case (Cons c v)
  obtain q1 st1 where s1: "jstep D (q, st) c = (q1, st1)" by fastforce
  with Cons.prems(2) have r: "scan D (q1, st1) v = (q', st')" by simp
  with Cons.prems(3) have ne: "q1 \<noteq> ScanError" by auto
  have l: "jstep D' (lift_state [p] (q, st)) c = lift_state [p] (q1, st1)" and w: "scanner_wf (q1, st1)"
    using jstep_lift [OF Cons.prems(1) s1 ne] Cons.prems(4) by auto
  have "collect D' (lift_state [p] (q, st)) cur key acc (c # v @ s) =
        collect D' (lift_state [p] (q1, st1)) (cur @ [c]) key acc (v @ s)"
    using l by (cases st; cases st1) (auto simp: lift_state_def Let_def)
  then show ?case using Cons.IH [OF w r Cons.prems(3,4)] by simp
qed

lemma strip_quoted:
  assumes "\<forall>c \<in> set ws. is_space c"
  shows "strip (ws @ CHR 0x22 # k @ [CHR 0x22]) = CHR 0x22 # k @ [CHR 0x22]"
proof -
  have "dropWhile is_space (ws @ CHR 0x22 # k @ [CHR 0x22]) = CHR 0x22 # k @ [CHR 0x22]"
    using assms by (induction ws) (auto simp: is_space_def)
  then show ?thesis by (simp add: strip_def is_space_def)
qed

lemma read_key_quoted:
  assumes "\<forall>c \<in> set ws. is_space c" and "unquote k = Some k'"
  shows "read_key (ws @ CHR 0x22 # k @ [CHR 0x22]) = k'"
  using assms by (simp add: read_key_def strip_quoted butlast_append)

lemma collect_member:
  assumes k: "string_body k" "unquote k = Some k'" and v: "embeds n v" and D: "Suc n \<le> D"
    and ws: "\<forall>c \<in> set ws. is_space c" and q0: "q0 \<in> {BeginString, BeginStringOrEmpty}"
  shows "\<exists>q. value_done q [ObjectValue] \<and>
    collect D (q0, [ObjectKey]) ws key acc (json_member (k, v) @ rest) = collect D (q, [ObjectValue]) v k' acc rest"
proof -
  obtain D0 where D0: "D = Suc D0" "n \<le> D0" using D by (cases D) auto
  obtain q where q: "value_done q []" "scan D0 (BeginValue, []) v = (q, [])"
    using v D0(2) unfolding embeds_def by (metis add_0 list.size(3))
  have "scan D0 (InString, []) k = (InString, [])" using k(1) by (simp add: string_body_def)
  then have key: "collect D (InString, [ObjectKey]) cur key acc (k @ s) = collect D (InString, [ObjectKey]) (cur @ k) key acc s" for cur s
    using collect_lifted [of InString "[]" D0 k InString "[]" D ObjectKey cur key acc s] D0(1)
    by (simp add: lift_state_def scanner_wf_def)
  have val: "collect D (BeginValue, [ObjectValue]) [] k' acc (v @ rest) =
      collect D (lift_state [ObjectValue] (q, [])) v k' acc rest"
    using collect_lifted [OF _ q(2), of D ObjectValue "[]" k' acc rest] D0(1) q(1)
    by (auto simp: lift_state_def scanner_wf_def value_done_def)
  have "collect D (q0, [ObjectKey]) ws key acc (json_member (k, v) @ rest) =
      collect D (InString, [ObjectKey]) (ws @ [CHR 0x22]) key acc (k @ CHR 0x22 # CHR '':'' # v @ rest)"
    using q0 by (auto simp: json_member_def begin_string_def is_space_def)
  also have "\<dots> = collect D (EndValue, [ObjectKey]) (ws @ CHR 0x22 # k @ [CHR 0x22]) key acc (CHR '':'' # v @ rest)"
    unfolding key by simp
  also have "\<dots> = collect D (BeginValue, [ObjectValue]) [] k' acc (v @ rest)"
    by (simp add: is_space_def read_key_quoted [OF ws k(2)])
  finally show ?thesis
    using val q(1) by (auto simp: lift_state_def value_done_def)
qed

lemma collect_members:
  assumes "\<And>k v. (k, v) \<in> set ms \<Longrightarrow> string_body k \<and> unquote k = Some (f k) \<and> embeds n v \<and> strip v = v"
    and "Suc n \<le> D" and "sep = '','' \<or> sep = '', ''" and "ms \<noteq> []"
    and "q0 \<in> {BeginString, BeginStringOrEmpty}" and "\<forall>c \<in> set ws. is_space c"
  shows "collect D (q0, [ObjectKey]) ws key acc (intercalate sep (map json_member ms) @ ''}'') =
    rev acc @ map (\<lambda>(k, v). (f k, v)) ms"
  using assms
proof (induction ms arbitrary: q0 ws key acc)
  case Nil
  then show ?case by simp
next
  case (Cons m ms)
  obtain k v where m: "m = (k, v)" by fastforce
  have kv: "string_body k" "unquote k = Some (f k)" "embeds n v" "strip v = v"
    using Cons.prems(1) m by auto
  define rest where "rest = (if ms = [] then [] else sep @ intercalate sep (map json_member ms)) @ ''}''"
  obtain q where q: "value_done q [ObjectValue]"
    "collect D (q0, [ObjectKey]) ws key acc (json_member (k, v) @ rest) = collect D (q, [ObjectValue]) v (f k) acc rest"
    using collect_member [OF kv(1,2,3) Cons.prems(2,6,5)] by blast
  have split: "intercalate sep (map json_member (m # ms)) @ ''}'' = json_member (k, v) @ rest"
    by (cases ms) (auto simp: m rest_def)
  show ?case
  proof (cases ms)
    case Nil
    then show ?thesis
      using q kv(4) value_done_step [OF q(1), of "CHR ''}''" D] unfolding split
      by (simp add: rest_def pop_state_def is_space_def m)
  next
    case (Cons m' ms')
    let ?ws = "drop 1 sep"
    have "collect D (q, [ObjectValue]) v (f k) acc rest =
        collect D (BeginString, [ObjectKey]) ?ws [] ((f k, v) # acc) (intercalate sep (map json_member ms) @ ''}'')"
      using Cons.prems(3) kv(4) value_done_step [OF q(1), of "CHR '',''" D] Cons
      by (auto simp: rest_def is_space_def begin_string_def)
    also have "\<dots> = rev ((f k, v) # acc) @ map (\<lambda>(k, v). (f k, v)) ms"
      using Cons.prems Cons by (intro Cons.IH) (auto simp: is_space_def)
    finally show ?thesis using q(2) unfolding split by (simp add: m)
  qed
qed

lemma unmarshal_json_object:
  assumes "\<And>k v. (k, v) \<in> set ms \<Longrightarrow> string_body k \<and> unquote k = Some (f k) \<and> embeds n v \<and> strip v = v"
    and "Suc n \<le> max_nesting_depth" and "sep = '','' \<or> sep = '', ''"
  shows "unmarshal_map (json_object_sep sep ms) = Some (map (\<lambda>(k, v). (f k, v)) ms)"
proof -
  have "json_valid (json_object_sep sep ms)"
    unfolding json_valid_def
    by (rule embeds_valid [OF embeds_object [of ms n sep] assms(2)]) (use assms in auto)
  moreover have "strip (json_object_sep sep ms) = json_object_sep sep ms"
    by (simp add: strip_def json_object_sep_def is_space_def)
  moreover have "collect max_nesting_depth (BeginValue, []) [] [] [] (json_object_sep sep ms) =
      map (\<lambda>(k, v). (f k, v)) ms"
  proof (cases "ms = []")
    case True
    then show ?thesis
      by (simp add: json_object_sep_def begin_value_def is_space_def push_state_def pop_state_def max_nesting_depth_def)
  next
    case False
    have "collect max_nesting_depth (BeginValue, []) [] [] [] (json_object_sep sep ms) =
      collect max_nesting_depth (BeginStringOrEmpty, [ObjectKey]) [] [] [] (intercalate sep (map json_member ms) @ ''}'')"
      by (simp add: json_object_sep_def begin_value_def is_space_def push_state_def max_nesting_depth_def)
    then show ?thesis
      using collect_members [OF assms False, of BeginStringOrEmpty "[]" "[]" "[]"] by simp
  qed
  ultimately show ?thesis
    by (auto simp: unmarshal_map_def json_object_sep_def)
qed

subsection \<open>Writing a map of raw values\<close>

text \<open>
  \<^verbatim>\<open>json.Marshal\<close> of a \<^verbatim>\<open>map[string]json.RawMessage\<close> sorts the keys bytewise and
  compacts each raw value: space outside strings goes, and the characters HTML and
  JavaScript treat specially are written as escapes. An invalid raw value is an error.
\<close>

function compact_from :: "nat \<Rightarrow> scanner \<Rightarrow> gostring \<Rightarrow> gostring" where
  "compact_from D x [] = []"
| "compact_from D x (c # s) =
     (let x' = jstep D x c in
      if is_space c \<and> fst x \<noteq> InString then compact_from D x' s
      else if c = CHR ''<'' \<or> c = CHR ''>'' \<or> c = CHR ''&'' then u_escape (byte c) @ compact_from D x' s
      else if c = CHR 0xE2 \<and> take 2 s = [CHR 0x80, CHR 0xA8]
      then u_escape 8232 @ compact_from D (scan D x' (take 2 s)) (drop 2 s)
      else if c = CHR 0xE2 \<and> take 2 s = [CHR 0x80, CHR 0xA9]
      then u_escape 8233 @ compact_from D (scan D x' (take 2 s)) (drop 2 s)
      else c # compact_from D x' s)"
  by pat_completeness auto
termination
  by (relation "measure (\<lambda>(D, x, s). length s)") auto

definition compact :: "gostring \<Rightarrow> gostring" where
  "compact s = compact_from max_nesting_depth (BeginValue, []) s"

definition marshal_map :: "(gostring \<times> gostring) list \<Rightarrow> gostring option" where
  "marshal_map ms =
     (if list_all (\<lambda>(k, v). json_valid v) ms
      then Some (json_object_sep '',''
        (map (\<lambda>k. (quote_body k, compact (the (map_of ms k)))) (sort (remdups (map fst ms)))))
      else None)"

end
