(* ===== verification/Cdc_Event.thy ===== *)
theory Cdc_Event
  imports Go_Json_Map
begin

text \<open>
  Package \<^verbatim>\<open>cdc\<close>, the event type shared by every component
  (\<^verbatim>\<open>internal/cdc/event.go\<close>, \<^verbatim>\<open>publishable.go\<close>, \<^verbatim>\<open>truncate.go\<close>): the kinds of
  events, their JSON envelope, and the reduced forms published when an event is too large
  for the bus.
\<close>

subsection \<open>Event types\<close>

datatype EventType = Begin | Commit | Insert | Update | Delete | DDL | Truncate | Heartbeat

fun EventType_String :: "EventType \<Rightarrow> gostring" where
  "EventType_String Begin = ''BEGIN''"
| "EventType_String Commit = ''COMMIT''"
| "EventType_String Insert = ''INSERT''"
| "EventType_String Update = ''UPDATE''"
| "EventType_String Delete = ''DELETE''"
| "EventType_String DDL = ''DDL''"
| "EventType_String Truncate = ''TRUNCATE''"
| "EventType_String Heartbeat = ''HEARTBEAT''"

definition EventType_MarshalJSON :: "EventType \<Rightarrow> gostring" where
  "EventType_MarshalJSON t = marshal_string (EventType_String t)"

text \<open>\<^verbatim>\<open>UnmarshalJSON\<close>: the input is first read as a JSON string.\<close>

definition unmarshal_string :: "gostring \<Rightarrow> gostring option" where
  "unmarshal_string s =
     (if json_valid s \<and> hd (strip s) = CHR 0x22 then unquote (butlast (tl (strip s))) else None)"

definition EventType_UnmarshalJSON :: "gostring \<Rightarrow> EventType option" where
  "EventType_UnmarshalJSON data = (case unmarshal_string data of
      None \<Rightarrow> None
    | Some s \<Rightarrow>
        if s = ''BEGIN'' then Some Begin
        else if s = ''COMMIT'' then Some Commit
        else if s = ''INSERT'' then Some Insert
        else if s = ''UPDATE'' then Some Update
        else if s = ''DELETE'' then Some Delete
        else if s = ''DDL'' then Some DDL
        else if s = ''TRUNCATE'' then Some Truncate
        else if s = ''HEARTBEAT'' then Some Heartbeat
        else None)"

definition IsPublishable :: "EventType \<Rightarrow> bool" where
  "IsPublishable t \<longleftrightarrow> t \<in> {Insert, Update, Delete, DDL, Truncate}"

definition isTableEvent :: "EventType \<Rightarrow> bool" where
  "isTableEvent t \<longleftrightarrow> t \<in> {Insert, Update, Delete, Truncate}"

subsection \<open>Events\<close>

record Event =
  ev_Type :: EventType
  ev_Schema :: gostring
  ev_Table :: gostring
  ev_Data :: gostring
  ev_RawMessage :: gostring
  ev_LSN :: gostring
  ev_Timestamp :: int
  ev_SourceTimestamp :: int
  ev_SourceID :: gostring
  ev_Sequence :: nat
  ev_DataTruncated :: bool
  ev_KeyColumns :: "gostring list"

text \<open>The clock reading \<^verbatim>\<open>time.Now().UnixMilli()\<close> is the argument \<open>now\<close>.\<close>

definition NewEvent ::
  "int \<Rightarrow> EventType \<Rightarrow> gostring \<Rightarrow> gostring \<Rightarrow> gostring \<Rightarrow> gostring \<Rightarrow> gostring \<Rightarrow> Event" where
  "NewEvent now typ schema table data rawMessage lsn =
     \<lparr>ev_Type = typ, ev_Schema = schema, ev_Table = table, ev_Data = data, ev_RawMessage = rawMessage,
      ev_LSN = lsn, ev_Timestamp = now, ev_SourceTimestamp = 0, ev_SourceID = '''', ev_Sequence = 0,
      ev_DataTruncated = False, ev_KeyColumns = []\<rparr>"

definition NewEventWithSourceTS ::
  "int \<Rightarrow> EventType \<Rightarrow> gostring \<Rightarrow> gostring \<Rightarrow> gostring \<Rightarrow> gostring \<Rightarrow> gostring \<Rightarrow> int \<Rightarrow> Event" where
  "NewEventWithSourceTS now typ schema table data rawMessage lsn sourceTimestamp =
     (NewEvent now typ schema table data rawMessage lsn)\<lparr>ev_SourceTimestamp := sourceTimestamp\<rparr>"

text \<open>
  \<^verbatim>\<open>json.Marshal\<close> of an event, from the struct tags: \<^verbatim>\<open>omitempty\<close> fields are left out
  when empty, \<^verbatim>\<open>SourceID\<close>, \<^verbatim>\<open>Sequence\<close> and \<^verbatim>\<open>KeyColumns\<close> never appear.
\<close>

definition omitempty :: "gostring \<Rightarrow> gostring \<Rightarrow> (gostring \<times> gostring) list" where
  "omitempty k v = (if v = [] then [] else [(k, marshal_string v)])"

definition event_fields :: "Event \<Rightarrow> (gostring \<times> gostring) list" where
  "event_fields e =
     [(''type'', EventType_MarshalJSON (ev_Type e)), (''schema'', marshal_string (ev_Schema e))]
     @ omitempty ''table'' (ev_Table e) @ omitempty ''data'' (ev_Data e)
     @ omitempty ''rawMessage'' (ev_RawMessage e) @ omitempty ''lsn'' (ev_LSN e)
     @ [(''timestamp'', itoa_int (ev_Timestamp e)), (''sourceTimestamp'', itoa_int (ev_SourceTimestamp e))]
     @ (if ev_DataTruncated e then [(''dataTruncated'', ''true'')] else [])"

definition marshal_event :: "Event \<Rightarrow> gostring" where
  "marshal_event e = json_object_sep '','' (event_fields e)"

subsection \<open>Reduced forms\<close>

definition Stripped :: "Event \<Rightarrow> Event" where
  "Stripped e = e\<lparr>ev_Data := [], ev_DataTruncated := True\<rparr>"

definition keyColumns :: "(gostring \<times> gostring) list \<Rightarrow> gostring list \<Rightarrow> (gostring \<times> gostring) list" where
  "keyColumns row key = filter (\<lambda>(column, value). column \<in> set key) row"

definition marshalRow :: "(gostring \<times> gostring) list \<Rightarrow> gostring" where
  "marshalRow row = (case marshal_map row of None \<Rightarrow> ''{}'' | Some data \<Rightarrow> data)"

text \<open>
  A decoded \<^verbatim>\<open>map[string]json.RawMessage\<close> is an association list in which the last
  member read wins, as a later store into the Go map does.
\<close>

definition go_map :: "(gostring \<times> gostring) list \<Rightarrow> (gostring \<times> gostring) list" where
  "go_map ms = rev ms"

definition image_member :: "gostring list \<Rightarrow> (gostring \<times> gostring) list \<Rightarrow> gostring \<Rightarrow> (gostring \<times> gostring) list" where
  "image_member key row img = (case map_of row img of
      None \<Rightarrow> []
    | Some raw \<Rightarrow>
        (case unmarshal_map raw of
           None \<Rightarrow> []
         | Some values \<Rightarrow>
             if strip raw = ''null'' then [] else [(img, marshalRow (keyColumns (go_map values) key))]))"

definition keyOnly :: "EventType \<Rightarrow> gostring \<Rightarrow> gostring list \<Rightarrow> gostring" where
  "keyOnly eventType data key = (case unmarshal_map data of
      None \<Rightarrow> ''{}''
    | Some members \<Rightarrow>
        let row = go_map members in
        if eventType \<noteq> Update then marshalRow (keyColumns row key)
        else marshalRow (image_member key row ''old'' @ image_member key row ''new''))"

definition Truncated :: "Event \<Rightarrow> Event" where
  "Truncated e =
     (let truncated = Stripped e in
      if isTableEvent (ev_Type e)
      then truncated\<lparr>ev_Data := keyOnly (ev_Type e) (ev_Data e) (ev_KeyColumns e)\<rparr>
      else truncated)"

subsection \<open>The envelope\<close>

lemma strip_no_space:
  "s \<noteq> [] \<Longrightarrow> \<not> is_space (hd s) \<Longrightarrow> \<not> is_space (last s) \<Longrightarrow> strip s = s"
proof -
  assume s: "s \<noteq> []" "\<not> is_space (hd s)" "\<not> is_space (last s)"
  then have "dropWhile is_space s = s" by (cases s) auto
  moreover have "dropWhile is_space (rev s) = rev s" using s by (cases s rule: rev_cases) auto
  ultimately show "strip s = s" by (simp add: strip_def)
qed

lemma strip_marshal_string [simp]: "strip (marshal_string s) = marshal_string s"
  by (rule strip_no_space) (auto simp: marshal_string_def is_space_def)

lemma itoa_int_no_space: "c \<in> set (itoa_int i) \<Longrightarrow> \<not> is_space c"
  by (auto simp: itoa_int_def is_space_def split: if_splits dest!: itoa_digits digit_not_space)

lemma strip_itoa_int [simp]: "strip (itoa_int i) = itoa_int i"
proof (rule strip_no_space)
  show ne: "itoa_int i \<noteq> []" by (simp add: itoa_int_def)
  show "\<not> is_space (hd (itoa_int i))" by (rule itoa_int_no_space [of _ i]) (use ne in simp)
  show "\<not> is_space (last (itoa_int i))" by (rule itoa_int_no_space [of _ i]) (use ne in simp)
qed

lemma strip_true: "strip ''true'' = ''true''"
  by (simp add: strip_def is_space_def)

lemma unmarshal_marshal_string: "utf8_valid s \<Longrightarrow> unmarshal_string (marshal_string s) = Some s"
  using embeds_valid [OF marshal_string_embeds [of 0 s], of max_nesting_depth]
  by (simp add: unmarshal_string_def json_valid_def unquote_quote_body)
    (simp add: marshal_string_def butlast_append unquote_quote_body)

lemma EventType_roundtrip: "EventType_UnmarshalJSON (EventType_MarshalJSON t) = Some t"
proof -
  have "utf8_valid (EventType_String t)"
    by (cases t) (simp_all add: decode_rune.simps(2) rune_error_def)
  then show ?thesis
    by (cases t) (simp_all add: EventType_UnmarshalJSON_def EventType_MarshalJSON_def unmarshal_marshal_string)
qed

lemma field_name:
  assumes "\<forall>c \<in> set k. byte c < 128 \<and> 32 \<le> byte c \<and> c \<noteq> CHR 0x22 \<and> c \<noteq> CHR 0x5C"
  shows "string_body k" and "unquote k = Some k"
proof -
  show "string_body k" using assms by (auto intro: string_body_plain)
  show "unquote k = Some k" using assms by (induction k) (auto simp: unquote_unit_def)
qed

lemma event_fields_wf:
  assumes "(k, v) \<in> set (event_fields e)"
  shows "string_body k \<and> unquote k = Some (id k) \<and> embeds 0 v \<and> strip v = v"
proof -
  have "k \<in> {''type'', ''schema'', ''table'', ''data'', ''rawMessage'', ''lsn'', ''timestamp'',
      ''sourceTimestamp'', ''dataTruncated''}"
    using assms by (auto simp: event_fields_def omitempty_def split: if_splits)
  then have "\<forall>c \<in> set k. byte c < 128 \<and> 32 \<le> byte c \<and> c \<noteq> CHR 0x22 \<and> c \<noteq> CHR 0x5C"
    by auto
  moreover have "embeds 0 v \<and> strip v = v"
    using assms
    by (auto simp: event_fields_def omitempty_def EventType_MarshalJSON_def marshal_string_embeds
        embeds_itoa_int embeds_true strip_true split: if_splits)
  ultimately show ?thesis using field_name by simp
qed

lemma unmarshal_marshal_event: "unmarshal_map (marshal_event e) = Some (event_fields e)"
  using unmarshal_json_object [of "event_fields e" id 0 "'',''"] event_fields_wf
  by (simp add: marshal_event_def max_nesting_depth_def case_prod_unfold)

text \<open>C23. the envelope put on the bus is a JSON object from which a consumer reads back the
  event's type and, for well-formed text, its schema and its row data unchanged (the data
  field is a string holding JSON, decoded a second time); internal fields are not in it.\<close>

theorem envelope_roundtrip:
  assumes "utf8_valid (ev_Data e)" and "ev_Data e \<noteq> []" and "utf8_valid (ev_Schema e)"
  shows "\<exists>ms. unmarshal_map (marshal_event e) = Some ms \<and>
    Option.bind (map_of ms ''type'') EventType_UnmarshalJSON = Some (ev_Type e) \<and>
    Option.bind (map_of ms ''schema'') unmarshal_string = Some (ev_Schema e) \<and>
    Option.bind (map_of ms ''data'') unmarshal_string = Some (ev_Data e) \<and>
    fst ` set ms \<subseteq> {''type'', ''schema'', ''table'', ''data'', ''rawMessage'', ''lsn'', ''timestamp'',
      ''sourceTimestamp'', ''dataTruncated''}"
proof (intro exI conjI)
  show "unmarshal_map (marshal_event e) = Some (event_fields e)" by (rule unmarshal_marshal_event)
  show "fst ` set (event_fields e) \<subseteq> {''type'', ''schema'', ''table'', ''data'', ''rawMessage'', ''lsn'',
      ''timestamp'', ''sourceTimestamp'', ''dataTruncated''}"
    by (auto simp: event_fields_def omitempty_def)
qed (use assms in \<open>auto simp: event_fields_def omitempty_def EventType_roundtrip unmarshal_marshal_string\<close>)


theorem envelope_roundtrip_witness:
  "\<exists>ms. unmarshal_map (marshal_event (NewEvent 5 Insert ''shop'' ''t'' ''{}'' ''INSERT'' ''0/1'')) = Some ms \<and>
    Option.bind (map_of ms ''schema'') unmarshal_string = Some ''shop'' \<and> Option.bind (map_of ms ''data'') unmarshal_string = Some ''{}''"
proof -
  have "utf8_valid ''{}''" "utf8_valid ''shop''" by (simp_all add: decode_rune.simps(2) rune_error_def)
  then show ?thesis
    using envelope_roundtrip [of "NewEvent 5 Insert ''shop'' ''t'' ''{}'' ''INSERT'' ''0/1''"] by (auto simp: NewEvent_def)
qed

end
