(* ===== verification/Cdc_Service.thy ===== *)
theory Cdc_Service
  imports Cdc_Event "HOL-Library.Multiset" "HOL-Library.Sublist"
begin

text \<open>
  The in-process event bus (\<^verbatim>\<open>internal/cdc/service.go\<close>). Listeners call
  \<^verbatim>\<open>HandleEvent\<close>; the publisher reads from a channel obtained with
  \<^verbatim>\<open>SubscribeAll\<close>.

  Subscribers are heap objects shared by the service's lists and by the channel's reader, so
  they live in an explicit store: \<open>subs\<close> maps the address of a subscriber to its fields,
  \<open>fresh\<close> is the next unused address. \<open>tableSubs\<close> is the Go map of the same name, as
  an association list with distinct keys. The first part of the theory holds the operations
  as functions on the service; the second part the interleavings of several producers, the
  readers, \<^verbatim>\<open>unsubscribe\<close> and \<^verbatim>\<open>Shutdown\<close> as a step relation, in which a send on a
  closed channel is an explicit failure.
\<close>

definition defaultChanBuffer :: nat where
  "defaultChanBuffer = 100000"

record subscriber =
  sub_ch :: "Event list"
  sub_done :: bool
  sub_closed :: bool

definition newSubscriber :: subscriber where
  "newSubscriber = \<lparr>sub_ch = [], sub_done = False, sub_closed = False\<rparr>"

record Service =
  tableSubs :: "(gostring \<times> nat list) list"
  globalSubs :: "nat list"
  svc_running :: bool
  svc_closed :: bool
  subs :: "nat \<Rightarrow> subscriber"
  fresh :: nat

definition NewService :: Service where
  "NewService = \<lparr>tableSubs = [], globalSubs = [], svc_running = False, svc_closed = False,
     subs = (\<lambda>_. newSubscriber), fresh = 0\<rparr>"

text \<open>Lookup of a missing key in a Go map yields the zero value, here the nil slice.\<close>

definition table_list :: "Service \<Rightarrow> gostring \<Rightarrow> nat list" where
  "table_list s table = (case map_of (tableSubs s) table of None \<Rightarrow> [] | Some l \<Rightarrow> l)"

fun store_key :: "'k \<Rightarrow> 'v \<Rightarrow> ('k \<times> 'v) list \<Rightarrow> ('k \<times> 'v) list" where
  "store_key k v [] = [(k, v)]"
| "store_key k v ((k', v') # m) = (if k = k' then (k, v) # m else (k', v') # store_key k v m)"

definition delete_key :: "'k \<Rightarrow> ('k \<times> 'v) list \<Rightarrow> ('k \<times> 'v) list" where
  "delete_key k m = filter (\<lambda>(k', v). k' \<noteq> k) m"

subsection \<open>Operations\<close>

definition Subscribe :: "gostring \<Rightarrow> Service \<Rightarrow> nat \<times> Service" where
  "Subscribe table s =
     (fresh s, s\<lparr>tableSubs := store_key table (table_list s table @ [fresh s]) (tableSubs s),
                 subs := (subs s)(fresh s := newSubscriber), fresh := Suc (fresh s)\<rparr>)"

definition SubscribeAll :: "Service \<Rightarrow> nat \<times> Service" where
  "SubscribeAll s =
     (fresh s, s\<lparr>globalSubs := globalSubs s @ [fresh s],
                 subs := (subs s)(fresh s := newSubscriber), fresh := Suc (fresh s)\<rparr>)"

text \<open>\<^verbatim>\<open>stop\<close> runs before the lock is taken; the removal runs under the lock.\<close>

definition stop_sub :: "nat \<Rightarrow> Service \<Rightarrow> Service" where
  "stop_sub i s = s\<lparr>subs := (subs s)(i := (subs s i)\<lparr>sub_done := True\<rparr>)\<rparr>"

definition remove_table_sub :: "gostring \<Rightarrow> nat \<Rightarrow> Service \<Rightarrow> Service" where
  "remove_table_sub table i s =
     (let l = table_list s table;
          m = (if i \<in> set l then store_key table (remove1 i l) (tableSubs s) else tableSubs s)
      in s\<lparr>tableSubs := (if (case map_of m table of None \<Rightarrow> [] | Some l' \<Rightarrow> l') = []
                         then delete_key table m else m)\<rparr>)"

definition remove_global_sub :: "nat \<Rightarrow> Service \<Rightarrow> Service" where
  "remove_global_sub i s = s\<lparr>globalSubs := remove1 i (globalSubs s)\<rparr>"

definition unsub_table :: "gostring \<Rightarrow> nat \<Rightarrow> Service \<Rightarrow> Service" where
  "unsub_table table i s = remove_table_sub table i (stop_sub i s)"

definition unsub_global :: "nat \<Rightarrow> Service \<Rightarrow> Service" where
  "unsub_global i s = remove_global_sub i (stop_sub i s)"

text \<open>
  \<^verbatim>\<open>HandleEvent\<close>: whether the event is accepted, and the subscribers it is delivered to, in
  order.
\<close>

definition accepts :: "Service \<Rightarrow> Event \<Rightarrow> bool" where
  "accepts s e \<longleftrightarrow>
     \<not> svc_closed s \<and> \<not> (isTableEvent (ev_Type e) \<and> ev_Data e \<noteq> [] \<and> \<not> json_valid (ev_Data e))"

definition targets :: "Service \<Rightarrow> Event \<Rightarrow> nat list" where
  "targets s e =
     globalSubs s @ (if ev_Table e \<noteq> [] \<and> isTableEvent (ev_Type e) then table_list s (ev_Table e) else [])"

definition HandleEvent :: "Service \<Rightarrow> Event \<Rightarrow> bool \<times> nat list" where
  "HandleEvent s e = (if accepts s e then (True, targets s e) else (False, []))"

definition has_room :: "subscriber \<Rightarrow> bool" where
  "has_room sub \<longleftrightarrow> length (sub_ch sub) < defaultChanBuffer"

definition send_to :: "nat \<Rightarrow> Event \<Rightarrow> Service \<Rightarrow> Service" where
  "send_to i e s = s\<lparr>subs := (subs s)(i := (subs s i)\<lparr>sub_ch := sub_ch (subs s i) @ [e]\<rparr>)\<rparr>"

definition MarkRunning :: "Service \<Rightarrow> Service" where
  "MarkRunning s = s\<lparr>svc_running := True\<rparr>"

definition IsRunning :: "Service \<Rightarrow> bool" where
  "IsRunning s = svc_running s"

definition SubscriberCount :: "Service \<Rightarrow> gostring \<Rightarrow> nat" where
  "SubscriberCount s table = length (table_list s table)"

definition HasTableSubscribers :: "Service \<Rightarrow> gostring \<Rightarrow> bool" where
  "HasTableSubscribers s table \<longleftrightarrow> map_of (tableSubs s) table \<noteq> None"

definition TotalSubscriberCount :: "Service \<Rightarrow> nat" where
  "TotalSubscriberCount s = length (globalSubs s) + sum_list (map (length \<circ> snd) (tableSubs s))"

definition close_all :: "nat list \<Rightarrow> (nat \<Rightarrow> subscriber) \<Rightarrow> (nat \<Rightarrow> subscriber)" where
  "close_all is h = (\<lambda>i. if i \<in> set is then (h i)\<lparr>sub_closed := True\<rparr> else h i)"

definition all_listed :: "Service \<Rightarrow> nat list" where
  "all_listed s = globalSubs s @ concat (map snd (tableSubs s))"

text \<open>\<^verbatim>\<open>Shutdown\<close> first swaps the flag, then, under the lock, closes every channel.\<close>

definition Shutdown_close :: "Service \<Rightarrow> Service" where
  "Shutdown_close s = s\<lparr>subs := close_all (all_listed s) (subs s), globalSubs := [], tableSubs := []\<rparr>"

definition Shutdown :: "Service \<Rightarrow> Service" where
  "Shutdown s = (if svc_closed s then s else Shutdown_close (s\<lparr>svc_closed := True\<rparr>))"

subsection \<open>Subscription bookkeeping\<close>

definition service_inv :: "Service \<Rightarrow> bool" where
  "service_inv s \<longleftrightarrow>
     distinct (map fst (tableSubs s)) \<and> [] \<notin> snd ` set (tableSubs s) \<and> distinct (all_listed s) \<and>
     (\<forall>i \<in> set (all_listed s). i < fresh s \<and> \<not> sub_closed (subs s i))"

lemma map_of_store_key: "map_of (store_key k v m) = (map_of m)(k \<mapsto> v)"
  by (induction k v m rule: store_key.induct) auto

lemma keys_store_key: "set (map fst (store_key k v m)) = insert k (set (map fst m))"
  by (induction k v m rule: store_key.induct) auto

lemma distinct_store_key: "distinct (map fst m) \<Longrightarrow> distinct (map fst (store_key k v m))"
proof (induction k v m rule: store_key.induct)
  case (2 k v k' v' m)
  then show ?case
    using keys_store_key [of k v m] by (auto simp del: set_map)
qed simp

lemma snd_store_key: "snd ` set (store_key k v m) \<subseteq> insert v (snd ` set m)"
  by (induction k v m rule: store_key.induct) auto

lemma mset_store_key:
  "distinct (map fst m) \<Longrightarrow>
     mset (concat (map snd (store_key k v m))) + mset (case map_of m k of None \<Rightarrow> [] | Some l \<Rightarrow> l) =
     mset (concat (map snd m)) + mset v"
proof (induction k v m rule: store_key.induct)
  case (2 k v k' v' m)
  then show ?case
    by (cases "map_of m k") (auto simp: algebra_simps)
qed simp

lemma mset_delete_key:
  "distinct (map fst m) \<Longrightarrow>
     mset (concat (map snd (delete_key k m))) + mset (case map_of m k of None \<Rightarrow> [] | Some l \<Rightarrow> l) =
     mset (concat (map snd m))"
  unfolding delete_key_def
proof (induction m)
  case (Cons a m)
  obtain k' l where a: "a = (k', l)" by (cases a)
  show ?case
  proof (cases "k' = k")
    case True
    have "filter (\<lambda>(k', v). k' \<noteq> k) m = m"
      using Cons.prems True a by (auto simp: filter_id_conv rev_image_eqI)
    then show ?thesis using True a by simp
  next
    case False
    then show ?thesis using Cons a by (auto simp: algebra_simps)
  qed
qed simp

lemma map_of_delete_key: "map_of (delete_key k m) = (map_of m)(k := None)"
  unfolding delete_key_def by (induction m) (auto simp: fun_eq_iff)

lemma distinct_delete_key: "distinct (map fst m) \<Longrightarrow> distinct (map fst (delete_key k m))"
  unfolding delete_key_def by (induction m) (auto simp: image_iff)

text \<open>
  The removal under the lock takes exactly the given subscriber out of the table's list and
  leaves no empty list behind.
\<close>

lemma table_list_store: "table_list (s\<lparr>tableSubs := store_key t l (tableSubs s)\<rparr>) u = (if u = t then l else table_list s u)"
  by (simp add: table_list_def map_of_store_key)

lemma table_list_remove:
  "table_list (remove_table_sub t i s) u = (if u = t then remove1 i (table_list s t) else table_list s u)"
  by (auto simp: remove_table_sub_def table_list_def Let_def map_of_delete_key map_of_store_key
      remove1_idem split: option.splits)

lemma table_list_update_simps [simp]:
  "table_list (s\<lparr>globalSubs := g\<rparr>) u = table_list s u"
  "table_list (s\<lparr>subs := h\<rparr>) u = table_list s u"
  "table_list (s\<lparr>svc_closed := b\<rparr>) u = table_list s u"
  "table_list (s\<lparr>fresh := f\<rparr>) u = table_list s u"
  by (simp_all add: table_list_def)

lemma subs_remove [simp]:
  "subs (remove_table_sub t i s) = subs s" "fresh (remove_table_sub t i s) = fresh s"
  "globalSubs (remove_table_sub t i s) = globalSubs s" "svc_closed (remove_table_sub t i s) = svc_closed s"
  by (simp_all add: remove_table_sub_def Let_def)

lemma mset_remove_table:
  assumes "distinct (map fst (tableSubs s))"
  shows "mset (concat (map snd (tableSubs (remove_table_sub t i s)))) + mset (table_list s t) =
         mset (concat (map snd (tableSubs s))) + mset (remove1 i (table_list s t))"
proof -
  let ?m = "if i \<in> set (table_list s t) then store_key t (remove1 i (table_list s t)) (tableSubs s) else tableSubs s"
  have m: "distinct (map fst ?m)" using assms distinct_store_key by auto
  have l: "(case map_of ?m t of None \<Rightarrow> [] | Some l' \<Rightarrow> l') = remove1 i (table_list s t)"
    by (auto simp: map_of_store_key table_list_def remove1_idem split: option.splits)
  have "mset (concat (map snd ?m)) + mset (table_list s t) =
        mset (concat (map snd (tableSubs s))) + mset (remove1 i (table_list s t))"
    using mset_store_key [OF assms, of t "remove1 i (table_list s t)"]
    by (auto simp: table_list_def remove1_idem)
  moreover have "remove1 i (table_list s t) = [] \<Longrightarrow>
      mset (concat (map snd (delete_key t ?m))) = mset (concat (map snd ?m))"
    using mset_delete_key [OF m, of t] l by simp
  ultimately show ?thesis
    using l by (auto simp: remove_table_sub_def Let_def)
qed

lemma mset_subset_distinct:
  assumes "mset xs \<subseteq># mset ys" "distinct ys"
  shows "distinct xs" "set xs \<subseteq> set ys"
proof -
  have "count (mset xs) a \<le> (if a \<in> set xs then 1 else 0)" for a
    using mset_subset_eq_count [OF assms(1), of a] assms(2)
      mset_subset_eqD [OF assms(1), of a] distinct_count_atmost_1 [of ys]
    by (auto simp: count_mset_0_iff split: if_splits)
  then show "distinct xs"
    unfolding distinct_count_atmost_1 by (metis One_nat_def count_greater_eq_one_iff count_mset_0_iff le_antisym set_mset_mset)
  show "set xs \<subseteq> set ys"
    using set_mset_mono [OF assms(1)] by simp
qed

lemma mset_all_listed: "mset (all_listed s) = mset (globalSubs s) + mset (concat (map snd (tableSubs s)))"
  by (simp add: all_listed_def)

lemma listed_table: "i \<in> set (table_list s t) \<Longrightarrow> i \<in> set (all_listed s)"
  by (cases "map_of (tableSubs s) t") (force simp: table_list_def all_listed_def dest: map_of_SomeD)+

lemma targets_listed: "set (targets s e) \<subseteq> set (all_listed s)"
  using listed_table by (auto simp: targets_def) (auto simp: all_listed_def)

lemma service_inv_New: "service_inv NewService"
  by (simp add: service_inv_def NewService_def all_listed_def)

lemma mset_Subscribe:
  assumes "distinct (map fst (tableSubs s))"
  shows "mset (all_listed (snd (Subscribe t s))) = add_mset (fresh s) (mset (all_listed s))"
proof -
  have "mset (concat (map snd (store_key t (table_list s t @ [fresh s]) (tableSubs s)))) + mset (table_list s t) =
        add_mset (fresh s) (mset (concat (map snd (tableSubs s)))) + mset (table_list s t)"
    using mset_store_key [OF assms, of t "table_list s t @ [fresh s]"] by (simp add: table_list_def)
  then have "mset (concat (map snd (store_key t (table_list s t @ [fresh s]) (tableSubs s)))) =
        add_mset (fresh s) (mset (concat (map snd (tableSubs s))))"
    by (rule add_right_imp_eq)
  then show ?thesis
    by (simp add: Subscribe_def mset_all_listed)
qed

lemma mset_SubscribeAll: "mset (all_listed (snd (SubscribeAll s))) = add_mset (fresh s) (mset (all_listed s))"
  by (simp add: SubscribeAll_def mset_all_listed)

lemma distinct_add_mset: "mset xs = add_mset x (mset ys) \<Longrightarrow> distinct xs \<longleftrightarrow> x \<notin> set ys \<and> distinct ys"
  by (metis distinct.simps(2) mset.simps(2) mset_eq_imp_distinct_iff)

lemma set_add_mset: "mset xs = add_mset x (mset ys) \<Longrightarrow> set xs = insert x (set ys)"
  by (metis list.simps(15) mset.simps(2) mset_eq_setD)

lemma service_inv_grow:
  assumes "service_inv s" "mset (all_listed s') = add_mset (fresh s) (mset (all_listed s))"
    "fresh s' = Suc (fresh s)" "subs s' = (subs s)(fresh s := newSubscriber)"
    "distinct (map fst (tableSubs s'))" "[] \<notin> snd ` set (tableSubs s')"
  shows "service_inv s'"
proof -
  have "fresh s \<notin> set (all_listed s)" using assms(1) by (auto simp: service_inv_def)
  then show ?thesis
    using assms set_add_mset [OF assms(2)] distinct_add_mset [OF assms(2)]
    by (auto simp: service_inv_def newSubscriber_def)
qed

lemma service_inv_Subscribe: "service_inv s \<Longrightarrow> service_inv (snd (Subscribe t s))"
proof (rule service_inv_grow)
  assume s: "service_inv s"
  then show "mset (all_listed (snd (Subscribe t s))) = add_mset (fresh s) (mset (all_listed s))"
    by (simp add: mset_Subscribe service_inv_def)
  show "distinct (map fst (tableSubs (snd (Subscribe t s))))"
    using s by (simp add: Subscribe_def distinct_store_key service_inv_def)
  show "[] \<notin> snd ` set (tableSubs (snd (Subscribe t s)))"
    using s snd_store_key [of t "table_list s t @ [fresh s]" "tableSubs s"]
    by (auto simp: Subscribe_def service_inv_def)
qed (simp_all add: Subscribe_def)

lemma service_inv_SubscribeAll: "service_inv s \<Longrightarrow> service_inv (snd (SubscribeAll s))"
  by (frule service_inv_grow [OF _ mset_SubscribeAll]) (auto simp: SubscribeAll_def service_inv_def)

lemma service_inv_shrink:
  assumes "service_inv s" "mset (all_listed s') \<subseteq># mset (all_listed s)"
    "fresh s' = fresh s" "\<And>i. sub_closed (subs s' i) = sub_closed (subs s i)"
    "distinct (map fst (tableSubs s'))" "[] \<notin> snd ` set (tableSubs s')"
  shows "service_inv s'"
  using assms mset_subset_distinct [OF assms(2)] by (auto simp: service_inv_def)

lemma service_inv_stop: "service_inv s \<Longrightarrow> service_inv (stop_sub i s)"
  by (frule service_inv_shrink) (auto simp: stop_sub_def all_listed_def service_inv_def)

lemma service_inv_send: "service_inv s \<Longrightarrow> service_inv (send_to i e s)"
  by (frule service_inv_shrink) (auto simp: send_to_def all_listed_def service_inv_def)

lemma map_of_remove_table:
  "map_of (tableSubs (remove_table_sub t i s)) t \<noteq> Some []"
  "u \<noteq> t \<Longrightarrow> map_of (tableSubs (remove_table_sub t i s)) u = map_of (tableSubs s) u"
  by (simp_all add: remove_table_sub_def Let_def map_of_delete_key map_of_store_key split: option.split)

lemma empty_value_iff: "distinct (map fst m) \<Longrightarrow> v \<in> snd ` set m \<longleftrightarrow> (\<exists>k. map_of m k = Some v)"
  by (auto simp: image_iff Bex_def)

lemma multiset_cancel: "(a :: 'a multiset) + (b + k) = c + b \<Longrightarrow> c = a + k"
  using add_right_imp_eq [of "a + k" b c] by (simp add: ac_simps)

lemma service_inv_remove_table:
  assumes s: "service_inv s"
  shows "service_inv (remove_table_sub t i s)"
proof (rule service_inv_shrink [OF s])
  have d: "distinct (map fst (tableSubs s))" using s by (simp add: service_inv_def)
  have "mset (remove1 i (table_list s t)) \<subseteq># mset (table_list s t)" by simp
  then obtain k where "mset (table_list s t) = mset (remove1 i (table_list s t)) + k"
    by (rule subset_mset.le_iff_add [THEN iffD1, THEN exE])
  then have "mset (concat (map snd (tableSubs s))) = mset (concat (map snd (tableSubs (remove_table_sub t i s)))) + k"
    using mset_remove_table [OF d, of t i] by (metis multiset_cancel)
  then show "mset (all_listed (remove_table_sub t i s)) \<subseteq># mset (all_listed s)"
    by (simp add: mset_all_listed)
  show d': "distinct (map fst (tableSubs (remove_table_sub t i s)))"
    using d by (simp add: remove_table_sub_def Let_def distinct_delete_key distinct_store_key)
  show "[] \<notin> snd ` set (tableSubs (remove_table_sub t i s))"
    using s map_of_remove_table [where s = s and i = i and t = t] unfolding empty_value_iff [OF d'] service_inv_def empty_value_iff [OF d]
    by metis
qed simp_all

lemma service_inv_remove_global: "service_inv s \<Longrightarrow> service_inv (remove_global_sub i s)"
proof (frule service_inv_shrink)
  have "mset (remove1 i (globalSubs s)) \<subseteq># mset (globalSubs s)" by simp
  then show "mset (all_listed (remove_global_sub i s)) \<subseteq># mset (all_listed s)"
    by (simp add: mset_all_listed remove_global_sub_def del: mset_remove1)
qed (auto simp: remove_global_sub_def service_inv_def)

lemma service_inv_close: "service_inv s \<Longrightarrow> service_inv (Shutdown_close s)"
  by (simp add: service_inv_def Shutdown_close_def all_listed_def)

lemmas service_inv_intros =
  service_inv_New service_inv_Subscribe service_inv_SubscribeAll service_inv_stop service_inv_send
  service_inv_remove_table service_inv_remove_global service_inv_close

lemma HasTableSubscribers_iff: "service_inv s \<Longrightarrow> HasTableSubscribers s t \<longleftrightarrow> 0 < SubscriberCount s t"
  using empty_value_iff [of "tableSubs s" "[]"]
  by (auto simp: HasTableSubscribers_def SubscriberCount_def table_list_def service_inv_def split: option.splits)

lemma TotalSubscriberCount_listed: "TotalSubscriberCount s = length (all_listed s)"
  by (simp add: TotalSubscriberCount_def all_listed_def length_concat comp_def)

subsection \<open>Concurrent delivery\<close>

text \<open>
  A producer is a goroutine inside \<^verbatim>\<open>HandleEvent\<close>: it has passed the checks and waits for the
  read lock (\<open>Checked\<close>), or it holds the read lock and delivers the event to the subscribers of
  \<open>rest\<close>, those of \<open>finished\<close> being dealt with; \<open>slow\<close> says it is past the non-blocking
  send of \<^verbatim>\<open>deliver\<close> to the first of them.
\<close>

datatype producer =
    Idle
  | Checked Event
  | Delivering Event (finished: "nat list") (rest: "nat list") (slow: bool)

record bus =
  svc :: Service
  prods :: "nat \<Rightarrow> producer"
  closing :: bool
  received :: "nat \<Rightarrow> Event list"
  panicked :: bool

definition holds_lock :: "producer \<Rightarrow> bool" where
  "holds_lock q \<longleftrightarrow> (case q of Delivering e ds rs sl \<Rightarrow> True | _ \<Rightarrow> False)"

definition no_reader :: "bus \<Rightarrow> bool" where
  "no_reader b \<longleftrightarrow> (\<forall>p. \<not> holds_lock (prods b p))"

text \<open>
  The write-locked sections need \<open>no_reader\<close>. A send, blocking or not, to a closed channel
  panics. \<open>closing\<close> is the goroutine of \<^verbatim>\<open>Shutdown\<close> between its swap of \<^verbatim>\<open>closed\<close> and
  the locked section; it exists at most once, because only the first caller sees the flag
  unset.
\<close>

inductive bus_step :: "bus \<Rightarrow> bus \<Rightarrow> bool" where
  handle: "prods b p = Idle \<Longrightarrow> fst (HandleEvent (svc b) e) \<Longrightarrow>
     bus_step b (b\<lparr>prods := (prods b)(p := Checked e)\<rparr>)"
| rlock: "prods b p = Checked e \<Longrightarrow>
     bus_step b (b\<lparr>prods := (prods b)(p := Delivering e [] (targets (svc b) e) False)\<rparr>)"
| send: "prods b p = Delivering e ds (i # rs) sl \<Longrightarrow> \<not> sub_closed (subs (svc b) i) \<Longrightarrow>
     has_room (subs (svc b) i) \<Longrightarrow>
     bus_step b (b\<lparr>svc := send_to i e (svc b), prods := (prods b)(p := Delivering e (ds @ [i]) rs False)\<rparr>)"
| panic: "prods b p = Delivering e ds (i # rs) sl \<Longrightarrow> sub_closed (subs (svc b) i) \<Longrightarrow>
     bus_step b (b\<lparr>panicked := True\<rparr>)"
| full: "prods b p = Delivering e ds (i # rs) False \<Longrightarrow> \<not> sub_closed (subs (svc b) i) \<Longrightarrow>
     \<not> has_room (subs (svc b) i) \<Longrightarrow>
     bus_step b (b\<lparr>prods := (prods b)(p := Delivering e ds (i # rs) True)\<rparr>)"
| give_up_done: "prods b p = Delivering e ds (i # rs) True \<Longrightarrow> sub_done (subs (svc b) i) \<Longrightarrow>
     bus_step b (b\<lparr>prods := (prods b)(p := Delivering e (ds @ [i]) rs False)\<rparr>)"
| give_up_closed: "prods b p = Delivering e ds (i # rs) True \<Longrightarrow> svc_closed (svc b) \<Longrightarrow>
     bus_step b (b\<lparr>prods := (prods b)(p := Delivering e (ds @ [i]) rs False)\<rparr>)"
| runlock: "prods b p = Delivering e ds [] sl \<Longrightarrow>
     bus_step b (b\<lparr>prods := (prods b)(p := Idle)\<rparr>)"
| receive: "sub_ch (subs (svc b) i) = e # es \<Longrightarrow>
     bus_step b (b\<lparr>svc := (svc b)\<lparr>subs := (subs (svc b))(i := (subs (svc b) i)\<lparr>sub_ch := es\<rparr>)\<rparr>,
                  received := (received b)(i := received b i @ [e])\<rparr>)"
| subscribe: "no_reader b \<Longrightarrow> bus_step b (b\<lparr>svc := snd (Subscribe t (svc b))\<rparr>)"
| subscribe_all: "no_reader b \<Longrightarrow> bus_step b (b\<lparr>svc := snd (SubscribeAll (svc b))\<rparr>)"
| stop: "i < fresh (svc b) \<Longrightarrow> bus_step b (b\<lparr>svc := stop_sub i (svc b)\<rparr>)"
| unsub_table: "no_reader b \<Longrightarrow> sub_done (subs (svc b) i) \<Longrightarrow>
     bus_step b (b\<lparr>svc := remove_table_sub t i (svc b)\<rparr>)"
| unsub_global: "no_reader b \<Longrightarrow> sub_done (subs (svc b) i) \<Longrightarrow>
     bus_step b (b\<lparr>svc := remove_global_sub i (svc b)\<rparr>)"
| swap_closed: "\<not> svc_closed (svc b) \<Longrightarrow> bus_step b (b\<lparr>svc := (svc b)\<lparr>svc_closed := True\<rparr>, closing := True\<rparr>)"
| close_channels: "no_reader b \<Longrightarrow> closing b \<Longrightarrow>
     bus_step b (b\<lparr>svc := Shutdown_close (svc b), closing := False\<rparr>)"

definition bus_init :: bus where
  "bus_init = \<lparr>svc = NewService, prods = (\<lambda>_. Idle), closing = False, received = (\<lambda>_. []), panicked = False\<rparr>"

abbreviation bus_reach :: "bus \<Rightarrow> bus \<Rightarrow> bool" where
  "bus_reach \<equiv> bus_step\<^sup>*\<^sup>*"

text \<open>The events ever put on a subscriber's channel.\<close>

definition log_of :: "bus \<Rightarrow> nat \<Rightarrow> Event list" where
  "log_of b i = received b i @ sub_ch (subs (svc b) i)"

definition bus_inv :: "bus \<Rightarrow> bool" where
  "bus_inv b \<longleftrightarrow> service_inv (svc b) \<and> \<not> panicked b \<and>
     (\<forall>i. length (sub_ch (subs (svc b) i)) \<le> defaultChanBuffer) \<and>
     (\<forall>i \<ge> fresh (svc b). log_of b i = []) \<and>
     (\<forall>p e ds rs sl. prods b p = Delivering e ds rs sl \<longrightarrow>
        ds @ rs = targets (svc b) e \<and>
        (\<forall>i \<in> set ds. e \<in> set (log_of b i) \<or> sub_done (subs (svc b) i) \<or> svc_closed (svc b)))"

lemma no_reader_prods: "no_reader b \<Longrightarrow> prods b p \<noteq> Delivering e ds rs sl"
  by (auto simp: no_reader_def holds_lock_def dest: spec [of _ p])

lemma delivering_open:
  assumes "bus_inv b" "prods b p = Delivering e ds rs sl" "i \<in> set rs"
  shows "i < fresh (svc b)" "\<not> sub_closed (subs (svc b) i)"
proof -
  have "i \<in> set (targets (svc b) e)"
    using assms by (metis UnI2 bus_inv_def set_append)
  then have "i \<in> set (all_listed (svc b))" using targets_listed by blast
  then show "i < fresh (svc b)" "\<not> sub_closed (subs (svc b) i)"
    using assms(1) by (auto simp: bus_inv_def service_inv_def)
qed

text \<open>
  A write-locked section: no producer is delivering, so only the subscriber store and the lists
  matter.
\<close>

lemma bus_inv_locked:
  assumes "bus_inv b" "no_reader b" "service_inv s'"
    "\<And>i. sub_ch (subs s' i) = sub_ch (subs (svc b) i)" "fresh (svc b) \<le> fresh s'"
  shows "bus_inv (b\<lparr>svc := s'\<rparr>)" "bus_inv (b\<lparr>svc := s', closing := c\<rparr>)"
  using assms no_reader_prods [OF assms(2)] by (auto simp: bus_inv_def log_of_def)

lemma fresh_empty: "bus_inv b \<Longrightarrow> sub_ch (subs (svc b) (fresh (svc b))) = []"
  by (auto simp: bus_inv_def log_of_def)

text \<open>Steps that leave the service's lists alone and move at most one producer.\<close>

lemma targets_cong:
  "globalSubs s' = globalSubs s \<Longrightarrow> tableSubs s' = tableSubs s \<Longrightarrow> targets s' e = targets s e"
  by (simp add: targets_def table_list_def)

lemma bus_inv_move:
  assumes "bus_inv b"
    "\<And>e ds rs sl. q = Delivering e ds rs sl \<Longrightarrow> ds @ rs = targets (svc b) e \<and>
        (\<forall>i \<in> set ds. e \<in> set (log_of b i) \<or> sub_done (subs (svc b) i) \<or> svc_closed (svc b))"
  shows "bus_inv (b\<lparr>prods := (prods b)(p := q)\<rparr>)"
proof -
  have "log_of (b\<lparr>prods := (prods b)(p := q)\<rparr>) = log_of b" by (simp add: log_of_def fun_eq_iff)
  then show ?thesis using assms by (auto simp: bus_inv_def)
qed

lemma bus_inv_store:
  assumes "bus_inv b" "service_inv s'" "globalSubs s' = globalSubs (svc b)" "tableSubs s' = tableSubs (svc b)"
    "fresh s' = fresh (svc b)" "svc_closed (svc b) \<Longrightarrow> svc_closed s'"
    "\<And>i. sub_done (subs (svc b) i) \<Longrightarrow> sub_done (subs s' i)"
    "\<And>i. length (sub_ch (subs s' i)) \<le> defaultChanBuffer"
    "\<And>i. set (log_of b i) \<subseteq> set (r i @ sub_ch (subs s' i))"
    "\<And>i. fresh (svc b) \<le> i \<Longrightarrow> r i @ sub_ch (subs s' i) = []"
  shows "bus_inv (b\<lparr>svc := s', received := r\<rparr>)" "bus_inv (b\<lparr>svc := s', received := r, closing := c\<rparr>)"
proof -
  have t: "targets s' e = targets (svc b) e" for e using assms(3,4) by (rule targets_cong)
  have "e \<in> set (r i @ sub_ch (subs s' i)) \<or> sub_done (subs s' i) \<or> svc_closed s'"
    if "e \<in> set (log_of b i) \<or> sub_done (subs (svc b) i) \<or> svc_closed (svc b)" for e i
    using that assms(6,7,9) by blast
  then show "bus_inv (b\<lparr>svc := s', received := r\<rparr>)" "bus_inv (b\<lparr>svc := s', received := r, closing := c\<rparr>)"
    using assms(1,2,5,8,10) t unfolding bus_inv_def log_of_def by simp_all
qed

lemma log_of_move [simp]: "log_of (b\<lparr>prods := q\<rparr>) = log_of b" "log_of (b\<lparr>closing := c\<rparr>) = log_of b"
  by (simp_all add: log_of_def fun_eq_iff)

lemma bus_inv_service: "bus_inv b \<Longrightarrow> service_inv (svc b)"
  by (simp add: bus_inv_def)

lemma bus_inv_bound: "bus_inv b \<Longrightarrow> length (sub_ch (subs (svc b) i)) \<le> defaultChanBuffer"
  by (simp add: bus_inv_def)

lemma bus_inv_unused: "bus_inv b \<Longrightarrow> fresh (svc b) \<le> i \<Longrightarrow> received b i = []"
  "bus_inv b \<Longrightarrow> fresh (svc b) \<le> i \<Longrightarrow> sub_ch (subs (svc b) i) = []"
  by (simp_all add: bus_inv_def log_of_def)

lemmas bus_inv_facts = bus_inv_service bus_inv_bound bus_inv_unused

lemma bus_inv_init: "bus_inv bus_init"
  using service_inv_New by (simp add: bus_inv_def bus_init_def log_of_def NewService_def newSubscriber_def)

lemma bus_inv_delivering:
  assumes "bus_inv b" "prods b p = Delivering e ds rs sl"
  shows "ds @ rs = targets (svc b) e"
    "\<forall>j \<in> set ds. e \<in> set (log_of b j) \<or> sub_done (subs (svc b) j) \<or> svc_closed (svc b)"
  using assms unfolding bus_inv_def by blast+

lemma bus_inv_advance:
  assumes b: "bus_inv b" and p: "prods b p = Delivering e ds (i # rs) sl"
    and i: "e \<in> set (log_of b i) \<or> sub_done (subs (svc b) i) \<or> svc_closed (svc b)"
  shows "bus_inv (b\<lparr>prods := (prods b)(p := Delivering e (ds @ [i]) rs False)\<rparr>)"
  by (rule bus_inv_move [OF b]) (use i bus_inv_delivering [OF b p] in auto)

lemma bus_inv_send:
  assumes b: "bus_inv b" and p: "prods b p = Delivering e ds (i # rs) sl" and r: "has_room (subs (svc b) i)"
  shows "bus_inv (b\<lparr>svc := send_to i e (svc b), prods := (prods b)(p := Delivering e (ds @ [i]) rs False)\<rparr>)"
proof -
  let ?b = "b\<lparr>svc := send_to i e (svc b)\<rparr>"
  note o = delivering_open [OF b p, of i]
  have "bus_inv (b\<lparr>svc := send_to i e (svc b), received := received b\<rparr>)"
    by (rule bus_inv_store [OF b]) (use bus_inv_facts [OF b] r o in \<open>auto simp: send_to_def log_of_def
        has_room_def service_inv_send [unfolded send_to_def]\<close>)
  then have 1: "bus_inv ?b" by simp
  have "bus_inv (?b\<lparr>prods := (prods ?b)(p := Delivering e (ds @ [i]) rs False)\<rparr>)"
    by (rule bus_inv_advance [OF 1]) (use p in \<open>auto simp: log_of_def send_to_def\<close>)
  then show ?thesis by simp
qed

lemma bus_inv_receive:
  assumes b: "bus_inv b" and c: "sub_ch (subs (svc b) i) = e # es"
  shows "bus_inv (b\<lparr>svc := (svc b)\<lparr>subs := (subs (svc b))(i := (subs (svc b) i)\<lparr>sub_ch := es\<rparr>)\<rparr>,
                  received := (received b)(i := received b i @ [e])\<rparr>)"
proof (rule bus_inv_store [OF b])
  have "service_inv (svc b)" using b by (simp add: bus_inv_def)
  then show "service_inv ((svc b)\<lparr>subs := (subs (svc b))(i := (subs (svc b) i)\<lparr>sub_ch := es\<rparr>)\<rparr>)"
    by (rule service_inv_shrink) (use bus_inv_facts(1) [OF b] in \<open>auto simp: all_listed_def service_inv_def\<close>)
  have "length (e # es) \<le> defaultChanBuffer" using b c unfolding bus_inv_def by metis
  then show "length (sub_ch (subs ((svc b)\<lparr>subs := (subs (svc b))(i := (subs (svc b) i)\<lparr>sub_ch := es\<rparr>)\<rparr>) j))
      \<le> defaultChanBuffer" for j
    using b by (simp add: bus_inv_def)
qed (use bus_inv_facts [OF b] c in \<open>auto simp: log_of_def\<close>)

lemma bus_inv_step:
  assumes "bus_step b b'" "bus_inv b"
  shows "bus_inv b'"
  using assms
proof (cases rule: bus_step.cases)
  case (rlock p e)
  then show ?thesis using assms(2) by (auto intro: bus_inv_move)
next
  case (send p e ds i rs sl)
  then show ?thesis using assms(2) bus_inv_send by blast
next
  case (panic p e ds i rs sl)
  then show ?thesis using delivering_open(2) [OF assms(2) panic(2), of i] by simp
next
  case (full p e ds i rs)
  then show ?thesis using bus_inv_delivering [OF assms(2) full(2)] assms(2) by (auto intro!: bus_inv_move)
next
  case (give_up_done p e ds i rs)
  then show ?thesis using bus_inv_advance [OF assms(2)] by simp
next
  case (give_up_closed p e ds i rs)
  then show ?thesis using bus_inv_advance [OF assms(2)] by simp
next
  case (receive i e es)
  then show ?thesis using assms(2) bus_inv_receive by blast
next
  case (subscribe t)
  show ?thesis unfolding subscribe(1)
    by (rule bus_inv_locked(1) [OF assms(2) subscribe(2) service_inv_Subscribe])
      (use bus_inv_facts [OF assms(2)] in \<open>auto simp: Subscribe_def newSubscriber_def\<close>)
next
  case subscribe_all
  show ?thesis unfolding subscribe_all(1)
    by (rule bus_inv_locked(1) [OF assms(2) subscribe_all(2) service_inv_SubscribeAll])
      (use bus_inv_facts [OF assms(2)] in \<open>auto simp: SubscribeAll_def newSubscriber_def\<close>)
next
  case (stop i)
  have "bus_inv (b\<lparr>svc := stop_sub i (svc b), received := received b\<rparr>)"
    by (rule bus_inv_store [OF assms(2)])
      (use bus_inv_facts [OF assms(2)] in \<open>auto simp: service_inv_stop [unfolded stop_sub_def] stop_sub_def log_of_def\<close>)
  then show ?thesis using stop(1) by simp
next
  case (unsub_table i t)
  show ?thesis unfolding unsub_table(1)
    by (rule bus_inv_locked(1) [OF assms(2) unsub_table(2)])
      (use bus_inv_facts [OF assms(2)] in \<open>auto simp: service_inv_remove_table\<close>)
next
  case (unsub_global i)
  show ?thesis unfolding unsub_global(1)
    by (rule bus_inv_locked(1) [OF assms(2) unsub_global(2)])
      (use bus_inv_facts [OF assms(2)] in \<open>auto simp: service_inv_remove_global [unfolded remove_global_sub_def] remove_global_sub_def\<close>)
next
  case swap_closed
  have "bus_inv (b\<lparr>svc := (svc b)\<lparr>svc_closed := True\<rparr>, received := received b, closing := True\<rparr>)"
    by (rule bus_inv_store(2) [OF assms(2)])
      (use bus_inv_facts [OF assms(2)] in \<open>auto simp: log_of_def service_inv_def all_listed_def\<close>)
  then show ?thesis using swap_closed(1) by simp
next
  case close_channels
  show ?thesis unfolding close_channels(1)
    by (rule bus_inv_locked(2) [OF assms(2) close_channels(2) service_inv_close])
      (use bus_inv_facts [OF assms(2)] in \<open>auto simp: Shutdown_close_def close_all_def\<close>)
qed (auto intro!: bus_inv_move)

lemma bus_inv_reach: "bus_reach b b' \<Longrightarrow> bus_inv b \<Longrightarrow> bus_inv b'"
  by (induction rule: rtranclp_induct) (auto intro: bus_inv_step)

subsection \<open>Order and progress\<close>

lemma log_step_prefix:
  assumes "bus_step b b'" "bus_inv b"
  shows "prefix (log_of b i) (log_of b' i)"
  using assms(1)
proof (cases rule: bus_step.cases)
  case (send p e ds j rs sl)
  then show ?thesis by (simp add: log_of_def send_to_def)
next
  case (receive j e es)
  then show ?thesis by (simp add: log_of_def)
next
  case (subscribe t)
  then show ?thesis using fresh_empty [OF assms(2)] by (simp add: log_of_def Subscribe_def newSubscriber_def)
next
  case subscribe_all
  then show ?thesis using fresh_empty [OF assms(2)] by (simp add: log_of_def SubscribeAll_def newSubscriber_def)
qed (simp_all add: log_of_def stop_sub_def remove_global_sub_def Shutdown_close_def close_all_def)

lemma log_prefix: "bus_reach b b' \<Longrightarrow> bus_inv b \<Longrightarrow> prefix (log_of b i) (log_of b' i)"
  by (induction rule: rtranclp_induct) (auto intro: bus_inv_reach log_step_prefix prefix_order.trans)

text \<open>
  One delivery can be finished or given up in at most two steps once the subscriber has
  stopped, has room, or the service is closed.
\<close>

lemma deliver_unblocks:
  assumes b: "bus_inv b" and p: "prods b p = Delivering e ds (i # rs) sl"
    and u: "sub_done (subs (svc b) i) \<or> svc_closed (svc b)"
  shows "\<exists>b'. bus_reach b b' \<and> prods b' = (prods b)(p := Delivering e (ds @ [i]) rs False) \<and>
           svc_closed (svc b') = svc_closed (svc b) \<and> (\<forall>j. sub_done (subs (svc b') j) = sub_done (subs (svc b) j))"
proof -
  have o: "\<not> sub_closed (subs (svc b) i)" using delivering_open(2) [OF b p] by simp
  show ?thesis
  proof (cases "has_room (subs (svc b) i)")
    case True
    let ?b = "b\<lparr>svc := send_to i e (svc b), prods := (prods b)(p := Delivering e (ds @ [i]) rs False)\<rparr>"
    have "bus_step b ?b" using bus_step.send [OF p o True] .
    then show ?thesis by (intro exI [of _ ?b]) (auto simp: send_to_def)
  next
    case False
    let ?b = "b\<lparr>prods := (prods b)(p := Delivering e ds (i # rs) True)\<rparr>"
    let ?c = "b\<lparr>prods := (prods b)(p := Delivering e (ds @ [i]) rs False)\<rparr>"
    have 1: "bus_reach b ?b"
    proof (cases sl)
      case True
      then have "?b = b" using p by (simp add: fun_upd_idem)
      then show ?thesis by simp
    qed (use bus_step.full [of b p e ds i rs] p o False in auto)
    have "bus_step ?b (?b\<lparr>prods := (prods ?b)(p := Delivering e (ds @ [i]) rs False)\<rparr>)"
      using u bus_step.give_up_done [of ?b p e ds i rs] bus_step.give_up_closed [of ?b p e ds i rs] by auto
    then have "bus_reach b ?c" using 1 by simp
    then show ?thesis by (intro exI [of _ ?c]) auto
  qed
qed

lemma delivery_finishes:
  assumes "bus_inv b" "prods b p = Delivering e ds rs sl"
    "\<forall>i \<in> set rs. sub_done (subs (svc b) i) \<or> svc_closed (svc b)"
  shows "\<exists>b'. bus_reach b b' \<and> prods b' = (prods b)(p := Idle)"
  using assms
proof (induction rs arbitrary: b ds sl)
  case Nil
  then show ?case using bus_step.runlock [of b p e ds sl]
    by (intro exI [of _ "b\<lparr>prods := (prods b)(p := Idle)\<rparr>"]) auto
next
  case (Cons i rs)
  obtain b1 where b1: "bus_reach b b1" "prods b1 = (prods b)(p := Delivering e (ds @ [i]) rs False)"
    "svc_closed (svc b1) = svc_closed (svc b)" "\<forall>j. sub_done (subs (svc b1) j) = sub_done (subs (svc b) j)"
    using deliver_unblocks [OF Cons.prems(1,2)] Cons.prems(3) by auto
  have p1: "prods b1 p = Delivering e (ds @ [i]) rs False" using b1(2) by simp
  have u1: "\<forall>i \<in> set rs. sub_done (subs (svc b1) i) \<or> svc_closed (svc b1)" using b1(3,4) Cons.prems(3) by auto
  obtain b2 where "bus_reach b1 b2" "prods b2 = (prods b1)(p := Idle)"
    using Cons.IH [OF bus_inv_reach [OF b1(1) Cons.prems(1)] p1 u1] by blast
  then show ?case using b1(1,2) by (intro exI [of _ b2]) auto
qed

subsection \<open>The guarantees of the bus\<close>

text \<open>
  A concrete run for the witnesses: one global subscriber, one producer that hands over an
  insert, sends it, and has not released the lock yet.
\<close>

definition demo_event :: Event where
  "demo_event = NewEvent 1700000000000 Insert ''public'' ''users'' (json_object [(''id'', ''1'')]) [] ''0/16B3748''"

definition demo_bus :: bus where
  "demo_bus = (let s = snd (SubscribeAll NewService) in
     bus_init\<lparr>svc := send_to 0 demo_event s, prods := (\<lambda>_. Idle)(0 := Delivering demo_event [0] [] False)\<rparr>)"

lemma demo_event_valid: "json_valid (ev_Data demo_event)"
  by code_simp

lemma bus_reach_step: "bus_step a b \<Longrightarrow> bus_reach b c \<Longrightarrow> bus_reach a c"
  by (rule converse_rtranclp_into_rtranclp)

lemma demo_bus_reach: "bus_reach bus_init demo_bus"
proof -
  let ?s = "snd (SubscribeAll NewService)"
  let ?b1 = "bus_init\<lparr>svc := ?s\<rparr>"
  let ?b2 = "?b1\<lparr>prods := (prods ?b1)(0 := Checked demo_event)\<rparr>"
  let ?b3 = "?b2\<lparr>prods := (prods ?b2)(0 := Delivering demo_event [] [0] False)\<rparr>"
  have t: "targets ?s demo_event = [0]"
    by (simp add: targets_def SubscribeAll_def NewService_def table_list_def)
  have 1: "bus_step bus_init ?b1"
    using bus_step.subscribe_all [of bus_init] by (simp add: no_reader_def holds_lock_def bus_init_def)
  have 2: "bus_step ?b1 ?b2"
    by (rule bus_step.handle) (simp_all add: bus_init_def HandleEvent_def accepts_def demo_event_valid
        SubscribeAll_def NewService_def)
  have 3: "bus_step ?b2 ?b3"
    using bus_step.rlock [of ?b2 0 demo_event] t by simp
  have "bus_step ?b3 (?b3\<lparr>svc := send_to 0 demo_event (svc ?b3),
      prods := (prods ?b3)(0 := Delivering demo_event ([] @ [0]) [] False)\<rparr>)"
    by (rule bus_step.send [where sl = False]) (simp_all add: SubscribeAll_def NewService_def newSubscriber_def
        has_room_def defaultChanBuffer_def)
  moreover have "?b3\<lparr>svc := send_to 0 demo_event (svc ?b3),
      prods := (prods ?b3)(0 := Delivering demo_event ([] @ [0]) [] False)\<rparr> = demo_bus"
    by (simp add: demo_bus_def bus_init_def fun_eq_iff)
  ultimately have 4: "bus_step ?b3 demo_bus" by metis
  show ?thesis
    by (rule bus_reach_step, rule 1, rule bus_reach_step, rule 2, rule bus_reach_step, rule 3,
        rule bus_reach_step, rule 4, rule rtranclp.rtrancl_refl)
qed

lemma demo_bus_simps:
  "prods demo_bus 0 = Delivering demo_event [0] [] False"
  "0 \<in> set (targets (svc demo_bus) demo_event)"
  "\<not> sub_done (subs (svc demo_bus) 0)" "\<not> svc_closed (svc demo_bus)"
  by (simp_all add: demo_bus_def send_to_def SubscribeAll_def NewService_def newSubscriber_def targets_def Let_def)

text \<open>
  C8. No interleaving of producers, channel readers, unsubscribes and a shutdown makes a
  producer send on a closed channel (a Go panic that would take the whole agent down).
\<close>

theorem bus_never_panics: "bus_reach bus_init b \<Longrightarrow> \<not> panicked b"
  using bus_inv_reach [OF _ bus_inv_init] by (auto simp: bus_inv_def)

theorem bus_never_panics_witness: "bus_reach bus_init demo_bus \<and> \<not> panicked demo_bus"
  using demo_bus_reach bus_never_panics [OF demo_bus_reach] by simp

text \<open>
  C7. Delivery does not drop: when a producer has worked through all subscribers of an accepted
  event, the event is on (or was read from) the channel of every subscriber of the event that
  has not unsubscribed, unless the service is shut down; and whatever is put on a channel stays
  there in order until its reader takes it.
\<close>

theorem deliver_no_drop:
  assumes "bus_reach bus_init b" "prods b p = Delivering e ds [] sl"
    "i \<in> set (targets (svc b) e)" "\<not> sub_done (subs (svc b) i)" "\<not> svc_closed (svc b)"
  shows "e \<in> set (log_of b i) \<and> (\<forall>b'. bus_reach b b' \<longrightarrow> prefix (log_of b i) (log_of b' i))"
proof -
  have b: "bus_inv b" using assms(1) bus_inv_init bus_inv_reach by blast
  show ?thesis using bus_inv_delivering [OF b assms(2)] assms(3-5) log_prefix [OF _ b] by auto
qed

theorem deliver_no_drop_witness: "\<not> svc_closed (svc demo_bus) \<and> demo_event \<in> set (log_of demo_bus 0)"
  using deliver_no_drop [OF demo_bus_reach demo_bus_simps] demo_bus_simps by simp



end
