(* ===== verification/Nats_Publisher.thy ===== *)
theory Nats_Publisher
  imports Cdc_Service
begin

text \<open>
  The JetStream publisher (\<^verbatim>\<open>internal/nats/publisher.go\<close>, \<^verbatim>\<open>connection.go\<close>). What the NATS client
  and the context do is a script: one \<open>round\<close> per publish attempt and one \<open>poll\<close> per look at the
  connection. A function that would still be waiting when the script ends returns \<open>Blocked\<close>.
  The publisher's record also holds its outputs: \<open>p_sent\<close> every message given to the client,
  \<open>p_stored\<close> the ones the stream stored, \<open>p_notified\<close> the calls of the observers,
  \<open>p_gaveUp\<close> the events passed over after an error that is final, \<open>p_waits\<close> the delays between attempts.
\<close>

subsection \<open>Errors and the connection\<close>

datatype pub_error = ErrMaxPayload | ApiError nat | ErrConnectionClosed | ErrContext | ErrStreamMissing | ErrOther

datatype wait = Blocked | Returned "pub_error option"

definition streamMessageTooLarge :: nat where
  "streamMessageTooLarge = 10054"

definition isTooLarge :: "pub_error option \<Rightarrow> bool" where
  "isTooLarge err \<longleftrightarrow> err = Some ErrMaxPayload \<or> err = Some (ApiError streamMessageTooLarge)"

record poll =
  po_connected :: bool
  po_closed :: bool
  po_done :: bool

fun waitConnected :: "poll list \<Rightarrow> wait" where
  "waitConnected [] = Blocked"
| "waitConnected (c # cs) =
     (if po_connected c then Returned None
      else if po_closed c then Returned (Some ErrConnectionClosed)
      else if po_done c then Returned (Some ErrContext)
      else waitConnected cs)"

subsection \<open>Backoff\<close>

record backoff =
  bo_base :: int
  bo_max :: int

definition milliseconds :: "int \<Rightarrow> int" where
  "milliseconds n = n * 1000000"

definition defaultBackoff :: backoff where
  "defaultBackoff = \<lparr>bo_base = milliseconds 500, bo_max = milliseconds 30000\<rparr>"

fun backoff_step :: "backoff \<Rightarrow> nat \<Rightarrow> int \<Rightarrow> int" where
  "backoff_step b 0 step = step"
| "backoff_step b (Suc n) step = (if step < bo_max b then backoff_step b n (step * 2) else step)"

text \<open>\<open>rnd\<close> is \<^verbatim>\<open>randInt63n\<close>; the attempt is one-based.\<close>

definition backoff_delay :: "(int \<Rightarrow> int) \<Rightarrow> backoff \<Rightarrow> nat \<Rightarrow> int" where
  "backoff_delay rnd b attempt =
     (let step = min (backoff_step b (attempt - 1) (bo_base b)) (bo_max b); half = step div 2
      in half + rnd (step - half + 1))"

subsection \<open>Publisher\<close>

record message =
  m_subject :: gostring
  m_data :: gostring
  m_id :: gostring

record Publisher =
  p_prefix :: gostring
  p_streamVerified :: bool
  p_stopping :: bool
  p_failed :: "pub_error option"
  p_lastAckedLSN :: gostring
  p_observers :: "nat list"
  p_sent :: "message list"
  p_stored :: "message list"
  p_notified :: "(nat \<times> Event) list"
  p_gaveUp :: "Event list"
  p_waits :: "int list"

definition defaultRetryBaseDelay :: int where
  "defaultRetryBaseDelay = milliseconds 500"

definition maxRetryDelay :: int where
  "maxRetryDelay = milliseconds 10000"

definition NewPublisher :: "gostring \<Rightarrow> Publisher" where
  "NewPublisher subjectPrefix = \<lparr>p_prefix = subjectPrefix, p_streamVerified = False, p_stopping = False, p_failed = None,
     p_lastAckedLSN = [], p_observers = [], p_sent = [], p_stored = [], p_notified = [], p_gaveUp = [], p_waits = []\<rparr>"

definition AddOnPublished :: "nat \<Rightarrow> Publisher \<Rightarrow> Publisher" where
  "AddOnPublished fn p = p\<lparr>p_observers := p_observers p @ [fn]\<rparr>"

text \<open>The channel holds one error; a later one is dropped.\<close>

definition fail :: "pub_error \<Rightarrow> Publisher \<Rightarrow> Publisher" where
  "fail err p = (case p_failed p of None \<Rightarrow> p\<lparr>p_failed := Some err\<rparr> | Some _ \<Rightarrow> p)"

definition onClosed :: "Publisher \<Rightarrow> Publisher" where
  "onClosed p = (if p_stopping p then p else fail ErrConnectionClosed p)"

definition Ready :: "bool \<Rightarrow> Publisher \<Rightarrow> bool" where
  "Ready connected p \<longleftrightarrow> connected \<and> p_streamVerified p"

subsection \<open>Subjects and ids\<close>

definition sanitizeSubjectToken :: "gostring \<Rightarrow> gostring" where
  "sanitizeSubjectToken s = map (\<lambda>c. if c \<in> set ''.*> '' then CHR ''_'' else c) s"

definition buildSubject :: "gostring \<Rightarrow> gostring \<Rightarrow> gostring \<Rightarrow> gostring" where
  "buildSubject subjectPrefix schema table =
     (let schema = (if schema = [] then ''default'' else schema);
          table = (if table = [] then ''_ddl'' else table)
      in subjectPrefix @ ''.'' @ sanitizeSubjectToken schema @ ''.'' @ sanitizeSubjectToken table)"

text \<open>\<open>nuid\<close> is the next value of the client library's unique id generator.\<close>

definition messageID :: "gostring \<Rightarrow> gostring \<Rightarrow> Event \<Rightarrow> gostring" where
  "messageID nuid subjectPrefix event = (if ev_SourceID event = [] then nuid else subjectPrefix @ ''/'' @ ev_SourceID event)"

subsection \<open>Publishing\<close>

text \<open>
  One attempt: the result of the client's publish call and whether the stream stored the
  message, whether the connection is then down, how the wait for it goes, and whether the
  context ends during the pause.
\<close>

record round =
  ro_result :: "pub_error option"
  ro_stored :: bool
  ro_lost :: bool
  ro_polls :: "poll list"
  ro_done :: bool

definition attempted :: "message \<Rightarrow> round \<Rightarrow> Publisher \<Rightarrow> Publisher" where
  "attempted m r p = p\<lparr>p_sent := p_sent p @ [m], p_stored := (if ro_stored r then p_stored p @ [m] else p_stored p)\<rparr>"

type_synonym 'r run = "'r \<times> round list \<times> Publisher"

fun publishWithRetry :: "message \<Rightarrow> int \<Rightarrow> round list \<Rightarrow> Publisher \<Rightarrow> wait run" where
  "publishWithRetry m delay [] p = (Blocked, [], p)"
| "publishWithRetry m delay (r # rs) p =
     (let p = attempted m r p; err = ro_result r in
      if err = None \<or> isTooLarge err then (Returned err, rs, p)
      else if ro_lost r
      then (case waitConnected (ro_polls r) of
              Blocked \<Rightarrow> (Blocked, rs, p)
            | Returned (Some e) \<Rightarrow> (Returned (Some e), rs, p)
            | Returned None \<Rightarrow> publishWithRetry m delay rs p)
      else if ro_done r then (Returned (Some ErrContext), rs, p)
      else publishWithRetry m (double_up_to maxRetryDelay delay) rs (p\<lparr>p_waits := p_waits p @ [delay]\<rparr>))"

text \<open>Marshalling an event cannot fail: its fields are strings, integers and a flag.\<close>

definition send :: "gostring \<Rightarrow> Event \<Rightarrow> gostring \<Rightarrow> round list \<Rightarrow> Publisher \<Rightarrow> wait run" where
  "send subject event msgID rs p =
     publishWithRetry \<lparr>m_subject = subject, m_data = marshal_event event, m_id = msgID\<rparr> defaultRetryBaseDelay rs p"

definition too_large :: "wait \<Rightarrow> bool" where
  "too_large w = (case w of Blocked \<Rightarrow> False | Returned err \<Rightarrow> isTooLarge err)"

definition sendTruncated :: "gostring \<Rightarrow> Event \<Rightarrow> gostring \<Rightarrow> round list \<Rightarrow> Publisher \<Rightarrow> wait run" where
  "sendTruncated subject event msgID rs p =
     (let (w, rs, p) = send subject (Truncated event) msgID rs p in
      if too_large w then send subject (Stripped event) msgID rs p else (w, rs, p))"

definition notify :: "Event \<Rightarrow> Publisher \<Rightarrow> Publisher" where
  "notify event p = p\<lparr>p_lastAckedLSN := (if ev_LSN event \<noteq> [] then ev_LSN event else p_lastAckedLSN p),
     p_notified := p_notified p @ map (\<lambda>f. (f, event)) (p_observers p)\<rparr>"

definition publish :: "gostring \<Rightarrow> Event \<Rightarrow> round list \<Rightarrow> Publisher \<Rightarrow> wait run" where
  "publish nuid event rs p =
     (let subject = buildSubject (p_prefix p) (ev_Schema event) (ev_Table event);
          msgID = messageID nuid (p_prefix p) event;
          (w, rs, p) = send subject event msgID rs p;
          (w, rs, p) = (if too_large w then sendTruncated subject event msgID rs p else (w, rs, p))
      in (w, rs, if w = Returned None then notify event p else p))"

definition shouldPublish :: "EventType \<Rightarrow> bool" where
  "shouldPublish t = IsPublishable t"

text \<open>
  \<open>deliver\<close> returns whether the loop may continue, or \<open>None\<close> while it is blocked. The context
  has ended when the error is the context's.
\<close>

definition deliver :: "gostring \<Rightarrow> Event \<Rightarrow> round list \<Rightarrow> Publisher \<Rightarrow> bool option run" where
  "deliver nuid event rs p =
     (if \<not> shouldPublish (ev_Type event) then (Some True, rs, p)
      else let (w, rs, p) = publish nuid event rs p in
        case w of
          Blocked \<Rightarrow> (None, rs, p)
        | Returned err \<Rightarrow>
            if err = Some ErrConnectionClosed then (Some False, rs, p)
            else if err \<noteq> None \<and> err \<noteq> Some ErrContext then (Some True, rs, p\<lparr>p_gaveUp := p_gaveUp p @ [event]\<rparr>)
            else (Some True, rs, p))"

datatype loop_input = Received Event | ChannelClosed | ContextDone

fun publishLoop :: "(nat \<Rightarrow> gostring) \<Rightarrow> loop_input list \<Rightarrow> round list \<Rightarrow> Publisher \<Rightarrow> round list \<times> Publisher" where
  "publishLoop nuid [] rs p = (rs, p)"
| "publishLoop nuid (Received e # is) rs p =
     (case deliver (nuid (length is)) e rs p of
        (Some True, rs, p) \<Rightarrow> publishLoop nuid is rs p
      | (_, rs, p) \<Rightarrow> (rs, p))"
| "publishLoop nuid (ChannelClosed # is) rs p = (rs, p)"
| "publishLoop nuid (ContextDone # is) rs p = (rs, p)"

subsection \<open>Starting and stopping\<close>

text \<open>The result of the stream lookup, as \<^verbatim>\<open>ensureStream\<close> maps it.\<close>

datatype lookup = StreamFound | StreamNotFound | LookupFailed

definition ensureStream :: "lookup \<Rightarrow> pub_error option" where
  "ensureStream l = (case l of StreamFound \<Rightarrow> None | StreamNotFound \<Rightarrow> Some ErrStreamMissing | LookupFailed \<Rightarrow> Some ErrOther)"

definition verifyStreamIfConnected :: "bool \<Rightarrow> lookup \<Rightarrow> Publisher \<Rightarrow> pub_error option \<times> Publisher" where
  "verifyStreamIfConnected connected l p =
     (if \<not> connected then (None, p)
      else let err = ensureStream l; p = (if err = None then p\<lparr>p_streamVerified := True\<rparr> else p)
           in (if err = Some ErrStreamMissing then err else None, p))"

text \<open>
  One turn of \<^verbatim>\<open>awaitStream\<close>: the wait for the connection, the lookup, whether the context has ended
  after it, and whether it ends during the pause.
\<close>

record turn =
  tu_polls :: "poll list"
  tu_lookup :: lookup
  tu_done :: bool
  tu_done_asleep :: bool

fun awaitStream :: "(int \<Rightarrow> int) \<Rightarrow> nat \<Rightarrow> turn list \<Rightarrow> Publisher \<Rightarrow> wait \<times> int list \<times> Publisher" where
  "awaitStream rnd attempt [] p = (Blocked, [], p)"
| "awaitStream rnd attempt (t # ts) p =
     (case waitConnected (tu_polls t) of
        Blocked \<Rightarrow> (Blocked, [], p)
      | Returned (Some e) \<Rightarrow> (Returned (Some e), [], p)
      | Returned None \<Rightarrow>
          let err = ensureStream (tu_lookup t) in
          if err = None then (Returned None, [], p\<lparr>p_streamVerified := True\<rparr>)
          else if err = Some ErrStreamMissing \<or> tu_done t then (Returned err, [], p)
          else let delay = backoff_delay rnd defaultBackoff attempt in
               if tu_done_asleep t then (Returned (Some ErrContext), [delay], p)
               else let (w, ds, p) = awaitStream rnd (attempt + 1) ts p in (w, delay # ds, p))"

text \<open>
  \<^verbatim>\<open>Start\<close>: \<open>None\<close> with the subscription taken, or the error that fails the start. Then the
  publishing goroutine: the context has ended when \<open>ctx_done\<close>.
\<close>

datatype start_error = ConnectFailed | JetStreamFailed | StreamError pub_error

definition Start :: "bool \<Rightarrow> bool \<Rightarrow> bool \<Rightarrow> lookup \<Rightarrow> Service \<Rightarrow> Publisher \<Rightarrow>
    start_error option \<times> Service \<times> Publisher" where
  "Start connect_ok js_ok connected l service p =
     (if \<not> connect_ok then (Some ConnectFailed, service, p)
      else if \<not> js_ok then (Some JetStreamFailed, service, p)
      else case verifyStreamIfConnected connected l p of
             (Some e, p) \<Rightarrow> (Some (StreamError e), service, p)
           | (None, p) \<Rightarrow> (None, snd (SubscribeAll service), p))"

definition publisher_goroutine ::
    "(nat \<Rightarrow> gostring) \<Rightarrow> (int \<Rightarrow> int) \<Rightarrow> turn list \<Rightarrow> bool \<Rightarrow> loop_input list \<Rightarrow> round list \<Rightarrow> Publisher \<Rightarrow> Publisher" where
  "publisher_goroutine nuid rnd ts ctx_done is rs p =
     (if p_streamVerified p then snd (publishLoop nuid is rs p)
      else case awaitStream rnd 1 ts p of
             (Blocked, ds, p) \<Rightarrow> p
           | (Returned (Some e), ds, p) \<Rightarrow> if ctx_done then p else fail e p
           | (Returned None, ds, p) \<Rightarrow> snd (publishLoop nuid is rs p))"

definition Stop :: "Publisher \<Rightarrow> Publisher" where
  "Stop p = p\<lparr>p_stopping := True\<rparr>"

section \<open>Properties\<close>

subsection \<open>Attempts\<close>

text \<open>
  What the code relies on in the NATS client: an acknowledged message is stored by the stream, and
  once the context has ended no publish call succeeds.
\<close>

definition round_done :: "round \<Rightarrow> bool" where
  "round_done r \<longleftrightarrow> ro_done r \<or> (\<exists>c \<in> set (ro_polls r). po_done c)"

definition dead :: "round list \<Rightarrow> bool" where
  "dead rs \<longleftrightarrow> (\<forall>r \<in> set rs. ro_result r \<noteq> None)"

fun script_ok :: "round list \<Rightarrow> bool" where
  "script_ok [] = True"
| "script_ok (r # rs) = ((ro_result r = None \<longrightarrow> ro_stored r) \<and> (round_done r \<longrightarrow> dead rs) \<and> script_ok rs)"

text \<open>From \<open>p\<close> to \<open>p'\<close> the publisher only made attempts, all with messages in \<open>M\<close>.\<close>

definition attempts :: "message set \<Rightarrow> Publisher \<Rightarrow> Publisher \<Rightarrow> bool" where
  "attempts M p p' \<longleftrightarrow> (\<exists>ms ss ws. set ms \<subseteq> M \<and> set ss \<subseteq> set ms \<and>
     p' = p\<lparr>p_sent := p_sent p @ ms, p_stored := p_stored p @ ss, p_waits := p_waits p @ ws\<rparr>)"

lemma attempts_refl: "attempts M p p"
  unfolding attempts_def by (intro exI [of _ "[]"]) simp

lemma attempts_trans: "attempts M p q \<Longrightarrow> attempts M q r \<Longrightarrow> attempts M p r"
  unfolding attempts_def
proof (elim exE conjE)
  fix ms ss ws ms' ss' ws'
  assume "set ms \<subseteq> M" "set ss \<subseteq> set ms" "set ms' \<subseteq> M" "set ss' \<subseteq> set ms'"
    "q = p\<lparr>p_sent := p_sent p @ ms, p_stored := p_stored p @ ss, p_waits := p_waits p @ ws\<rparr>"
    "r = q\<lparr>p_sent := p_sent q @ ms', p_stored := p_stored q @ ss', p_waits := p_waits q @ ws'\<rparr>"
  then show "\<exists>ms ss ws. set ms \<subseteq> M \<and> set ss \<subseteq> set ms \<and>
      r = p\<lparr>p_sent := p_sent p @ ms, p_stored := p_stored p @ ss, p_waits := p_waits p @ ws\<rparr>"
    by (intro exI [of _ "ms @ ms'"] exI [of _ "ss @ ss'"] exI [of _ "ws @ ws'"]) auto
qed

lemma attempts_mono: "attempts M p q \<Longrightarrow> M \<subseteq> N \<Longrightarrow> attempts N p q"
  unfolding attempts_def by blast

lemma attempted_attempts: "attempts {m} p (attempted m r p)"
  unfolding attempts_def attempted_def
  by (intro exI [of _ "[m]"] exI [of _ "if ro_stored r then [m] else []"] exI [of _ "[]"]) auto

lemma waits_attempts: "attempts M p (p\<lparr>p_waits := p_waits p @ [d]\<rparr>)"
  unfolding attempts_def by (intro exI [of _ "[]"] exI [of _ "[]"] exI [of _ "[d]"]) auto

lemma attempts_frame:
  assumes "attempts M p q"
  shows "p_prefix q = p_prefix p" "p_observers q = p_observers p" "p_notified q = p_notified p" "p_gaveUp q = p_gaveUp p"
    "p_lastAckedLSN q = p_lastAckedLSN p" "p_streamVerified q = p_streamVerified p" "set (p_stored p) \<subseteq> set (p_stored q)"
  using assms by (auto simp: attempts_def)

lemma waitConnected_context: "waitConnected cs = Returned (Some ErrContext) \<Longrightarrow> \<exists>c \<in> set cs. po_done c"
  by (induction cs) (auto split: if_splits)

text \<open>The outcome of one call: what was attempted, how it ended, and that the rest of the script is well-formed.\<close>

definition call_ok :: "message set \<Rightarrow> round list \<Rightarrow> Publisher \<Rightarrow> wait run \<Rightarrow> bool" where
  "call_ok M rs p res = (case res of (w, rs', p') \<Rightarrow>
     attempts M p p' \<and> script_ok rs' \<and> (w = Returned None \<longrightarrow> (\<exists>m \<in> M. m \<in> set (p_stored p'))) \<and>
     (w = Returned (Some ErrContext) \<longrightarrow> dead rs') \<and> (dead rs \<longrightarrow> dead rs' \<and> w \<noteq> Returned None))"

lemma call_ok_prepend:
  assumes "call_ok M rs q res" "attempts M p q" "dead rs0 \<longrightarrow> dead rs"
  shows "call_ok M rs0 p res"
  using assms by (auto simp: call_ok_def intro: attempts_trans split: prod.splits)

lemma call_ok_mono: "call_ok M rs p res \<Longrightarrow> M \<subseteq> N \<Longrightarrow> call_ok N rs p res"
  by (auto simp: call_ok_def intro: attempts_mono split: prod.splits)

lemma publishWithRetry_ok: "script_ok rs \<Longrightarrow> call_ok {m} rs p (publishWithRetry m delay rs p)"
proof (induction m delay rs p rule: publishWithRetry.induct)
  case (1 m delay p)
  then show ?case by (simp add: call_ok_def attempts_refl)
next
  case (2 m delay r rs p)
  let ?p = "attempted m r p" and ?err = "ro_result r"
  have a: "attempts {m} p ?p" by (rule attempted_attempts)
  have st: "ro_stored r \<Longrightarrow> m \<in> set (p_stored ?p)" by (simp add: attempted_def)
  have d: "dead (r # rs) \<longrightarrow> dead rs" by (simp add: dead_def)
  have ret: "call_ok {m} (r # rs) p (w, rs, ?p)"
    if "w = Returned None \<longrightarrow> ?err = None" "w = Returned (Some ErrContext) \<longrightarrow> round_done r" for w
    using that 2(3) a st by (auto simp: call_ok_def dead_def)
  consider "?err = None \<or> isTooLarge ?err" | "?err \<noteq> None" "\<not> isTooLarge ?err" "ro_lost r"
    | "?err \<noteq> None" "\<not> isTooLarge ?err" "\<not> ro_lost r" by blast
  then show ?case
  proof cases
    case 1
    then have "call_ok {m} (r # rs) p (Returned ?err, rs, ?p)" by (intro ret) (auto simp: isTooLarge_def)
    then show ?thesis using 1 by (simp add: Let_def)
  next
    case lost: 2
    show ?thesis
    proof (cases "waitConnected (ro_polls r) = Returned None")
      case True
      then show ?thesis
        using lost call_ok_prepend [OF 2(1) a d, of ?err] 2(3) by (auto simp: Let_def)
    next
      case False
      then show ?thesis
        using lost ret [of "waitConnected (ro_polls r)"] waitConnected_context [of "ro_polls r"]
        by (auto simp: Let_def round_done_def split: wait.split option.split)
    qed
  next
    case slept: 3
    let ?q = "?p\<lparr>p_waits := p_waits ?p @ [delay]\<rparr>"
    have "call_ok {m} (r # rs) p (publishWithRetry m (double_up_to maxRetryDelay delay) rs ?q)" if "\<not> ro_done r"
      using that slept 2(3) call_ok_prepend [OF 2(2) attempts_trans [OF a waits_attempts] d, of ?err] by simp
    then show ?thesis
      using slept ret [of "Returned (Some ErrContext)"] by (auto simp: Let_def round_done_def)
  qed
qed

definition message_of :: "gostring \<Rightarrow> gostring \<Rightarrow> Event \<Rightarrow> message" where
  "message_of subject msgID e = \<lparr>m_subject = subject, m_data = marshal_event e, m_id = msgID\<rparr>"

definition carries :: "gostring \<Rightarrow> gostring \<Rightarrow> Event \<Rightarrow> message set" where
  "carries nuid subjectPrefix e =
     message_of (buildSubject subjectPrefix (ev_Schema e) (ev_Table e)) (messageID nuid subjectPrefix e) ` {e, Truncated e, Stripped e}"

lemma send_ok:
  assumes "script_ok rs"
  shows "call_ok {message_of subject i e} rs p (send subject e i rs p)"
  unfolding send_def message_of_def by (rule publishWithRetry_ok [OF assms])

lemma call_ok_bind:
  assumes "call_ok M rs p res" "\<And>w rs' p'. res = (w, rs', p') \<Longrightarrow> too_large w \<Longrightarrow> call_ok N rs' p' (f rs' p')"
  shows "call_ok (M \<union> N) rs p (case res of (w, rs', p') \<Rightarrow> if too_large w then f rs' p' else (w, rs', p'))"
proof -
  obtain w rs' p' where res: "res = (w, rs', p')" by (rule prod_cases3)
  have 1: "call_ok (M \<union> N) rs p res" using assms(1) by (rule call_ok_mono) simp
  show ?thesis
  proof (cases "too_large w")
    case True
    have "call_ok (M \<union> N) rs' p' (f rs' p')" using assms(2) [OF res True] by (rule call_ok_mono) simp
    then have "call_ok (M \<union> N) rs p (f rs' p')"
      by (rule call_ok_prepend) (use 1 in \<open>auto simp: call_ok_def res\<close>)
    then show ?thesis using True res by simp
  qed (use 1 res in simp)
qed

lemma call_ok_script: "call_ok M rs p (w, rs', p') \<Longrightarrow> script_ok rs'"
  by (simp add: call_ok_def)

lemma sendTruncated_ok:
  assumes "script_ok rs"
  shows "call_ok (message_of subject i ` {Truncated e, Stripped e}) rs p (sendTruncated subject e i rs p)"
proof -
  have "call_ok ({message_of subject i (Truncated e)} \<union> {message_of subject i (Stripped e)}) rs p (sendTruncated subject e i rs p)"
    unfolding sendTruncated_def Let_def
    using send_ok [OF assms, of subject i "Truncated e" p] by (intro call_ok_bind) (auto intro: send_ok call_ok_script)
  then show ?thesis by (rule call_ok_mono) auto
qed

lemma publish_sends:
  assumes "script_ok rs"
  obtains w rs' q where "publish nuid e rs p = (w, rs', if w = Returned None then notify e q else q)"
    "call_ok (carries nuid (p_prefix p) e) rs p (w, rs', q)"
proof -
  let ?s = "buildSubject (p_prefix p) (ev_Schema e) (ev_Table e)" and ?i = "messageID nuid (p_prefix p) e"
  let ?r = "case send ?s e ?i rs p of (w, rs', p') \<Rightarrow> if too_large w then sendTruncated ?s e ?i rs' p' else (w, rs', p')"
  obtain w rs' q where r: "?r = (w, rs', q)" by (rule prod_cases3)
  have "call_ok ({message_of ?s ?i e} \<union> message_of ?s ?i ` {Truncated e, Stripped e}) rs p ?r"
  proof (rule call_ok_bind [OF send_ok [OF assms]])
    fix w rs' p'
    assume "send ?s e ?i rs p = (w, rs', p')"
    then have "script_ok rs'" using send_ok [OF assms, of ?s ?i e p] call_ok_script by metis
    then show "call_ok (message_of ?s ?i ` {Truncated e, Stripped e}) rs' p' (sendTruncated ?s e ?i rs' p')"
      by (rule sendTruncated_ok)
  qed
  then have "call_ok (carries nuid (p_prefix p) e) rs p (w, rs', q)"
    unfolding r by (rule call_ok_mono) (auto simp: carries_def)
  moreover have "publish nuid e rs p = (w, rs', if w = Returned None then notify e q else q)"
  proof -
    obtain w1 rs1 p1 where 1: "send ?s e ?i rs p = (w1, rs1, p1)" by (rule prod_cases3)
    then show ?thesis using r unfolding publish_def Let_def 1 by (simp only: prod.case)
  qed
  ultimately show thesis by (rule that [rotated])
qed

subsection \<open>The loop\<close>

fun publishables :: "loop_input list \<Rightarrow> Event list" where
  "publishables [] = []"
| "publishables (Received e # is) = (if shouldPublish (ev_Type e) then e # publishables is else publishables is)"
| "publishables (ChannelClosed # is) = []"
| "publishables (ContextDone # is) = []"

definition calls :: "nat list \<Rightarrow> Event list \<Rightarrow> (nat \<times> Event) list" where
  "calls obs es = concat (map (\<lambda>e. map (\<lambda>f. (f, e)) obs) es)"

lemma calls_simps [simp]: "calls obs [] = []" "calls obs (e # es) = map (\<lambda>f. (f, e)) obs @ calls obs es"
  by (simp_all add: calls_def)

lemma notify_simps [simp]:
  "p_prefix (notify e p) = p_prefix p" "p_observers (notify e p) = p_observers p" "p_gaveUp (notify e p) = p_gaveUp p"
  "p_stored (notify e p) = p_stored p" "p_notified (notify e p) = p_notified p @ map (\<lambda>f. (f, e)) (p_observers p)"
  by (simp_all add: notify_def)

text \<open>The ways an event can leave \<open>deliver\<close>.\<close>

lemma deliver_cases:
  assumes "script_ok rs" "shouldPublish (ev_Type e)"
  obtains (acked) rs' q where "deliver nuid e rs p = (Some True, rs', notify e q)"
      "call_ok (carries nuid (p_prefix p) e) rs p (Returned None, rs', q)"
    | (ended) rs' q where "deliver nuid e rs p = (Some True, rs', q)"
      "call_ok (carries nuid (p_prefix p) e) rs p (Returned (Some ErrContext), rs', q)"
    | (passed) rs' q err where "deliver nuid e rs p = (Some True, rs', q\<lparr>p_gaveUp := p_gaveUp q @ [e]\<rparr>)"
      "call_ok (carries nuid (p_prefix p) e) rs p (Returned (Some err), rs', q)"
    | (stopped) c rs' q w where "deliver nuid e rs p = (c, rs', q)" "c \<noteq> Some True"
      "call_ok (carries nuid (p_prefix p) e) rs p (w, rs', q)"
proof -
  obtain w rs' q where p: "publish nuid e rs p = (w, rs', if w = Returned None then notify e q else q)"
    and ok: "call_ok (carries nuid (p_prefix p) e) rs p (w, rs', q)"
    using publish_sends [OF assms(1)] .
  consider "w = Blocked" | "w = Returned None" | "w = Returned (Some ErrConnectionClosed)" | "w = Returned (Some ErrContext)"
    | err where "w = Returned (Some err)" "err \<noteq> ErrConnectionClosed" "err \<noteq> ErrContext"
    by (cases w) auto
  then show thesis
    using assms(2) p ok that by cases (auto simp: deliver_def)
qed

lemma attempts_of: "call_ok M rs p (w, rs', q) \<Longrightarrow> attempts M p q"
  by (simp add: call_ok_def)

text \<open>A reflexive and transitive relation that holds along attempts, notifications and passed events holds along the loop.\<close>

lemma publishLoop_rel:
  assumes refl: "\<And>p. R p p" and trans: "\<And>p q r. R p q \<Longrightarrow> R q r \<Longrightarrow> R p r"
    and att: "\<And>M p q. attempts M p q \<Longrightarrow> R p q" and ntf: "\<And>e q. R q (notify e q)"
    and pass: "\<And>e q. R q (q\<lparr>p_gaveUp := p_gaveUp q @ [e]\<rparr>)" and rs: "script_ok rs"
  shows "R p (snd (publishLoop nuid is rs p))"
  using rs
proof (induction "is" arbitrary: rs p)
  case (Cons i "is")
  show ?case
  proof (cases i)
    case i: (Received e)
    show ?thesis
    proof (cases "shouldPublish (ev_Type e)")
      case True
      show ?thesis
      proof (rule deliver_cases [OF Cons(2) True, of "nuid (length is)" p], goal_cases acked ended passed stopped)
        case (acked rs' q)
        then show ?case
          using trans [OF trans [OF att [OF attempts_of [OF acked(2)]] ntf] Cons(1) [OF call_ok_script [OF acked(2)]]]
          by (simp add: i)
      next
        case (ended rs' q)
        then show ?case
          using trans [OF att [OF attempts_of [OF ended(2)]] Cons(1) [OF call_ok_script [OF ended(2)]]] by (simp add: i)
      next
        case (passed rs' q err)
        then show ?case
          using trans [OF trans [OF att [OF attempts_of [OF passed(2)]] pass] Cons(1) [OF call_ok_script [OF passed(2)]]]
          by (simp add: i)
      next
        case (stopped c rs' q w)
        then show ?case using att [OF attempts_of [OF stopped(3)]] by (auto simp: i split: option.split bool.split)
      qed
    qed (use Cons i in \<open>simp add: deliver_def\<close>)
  qed (simp_all add: refl)
qed (simp add: refl)

lemma publishLoop_grows:
  assumes "script_ok rs"
  shows "length (p_gaveUp p) \<le> length (p_gaveUp (snd (publishLoop nuid is rs p)))"
    "set (p_stored p) \<subseteq> set (p_stored (snd (publishLoop nuid is rs p)))"
  using publishLoop_rel [of "\<lambda>p q. length (p_gaveUp p) \<le> length (p_gaveUp q)", OF _ _ _ _ _ assms]
    publishLoop_rel [of "\<lambda>p q. set (p_stored p) \<subseteq> set (p_stored q)", OF _ _ _ _ _ assms]
  by (fastforce simp: attempts_frame)+

lemma publishLoop_dead: "script_ok rs \<Longrightarrow> dead rs \<Longrightarrow> p_notified (snd (publishLoop nuid is rs p)) = p_notified p"
proof (induction "is" arbitrary: rs p)
  case (Cons i "is")
  show ?case
  proof (cases i)
    case i: (Received e)
    show ?thesis
    proof (cases "shouldPublish (ev_Type e)")
      case True
      show ?thesis
      proof (rule deliver_cases [OF Cons(2) True, of "nuid (length is)" p], goal_cases acked ended passed stopped)
        case (acked rs' q)
        then show ?thesis using Cons(3) by (simp add: call_ok_def)
      next
        case (ended rs' q)
        then show ?thesis
          using Cons(1) [OF call_ok_script [OF ended(2)], of q] attempts_frame [OF attempts_of [OF ended(2)]] Cons(3)
          by (simp add: i call_ok_def)
      next
        case (passed rs' q err)
        then show ?thesis
          using Cons(1) [OF call_ok_script [OF passed(2)], of "q\<lparr>p_gaveUp := p_gaveUp q @ [e]\<rparr>"]
            attempts_frame [OF attempts_of [OF passed(2)]] Cons(3) by (simp add: i call_ok_def)
      next
        case (stopped c rs' q w)
        then show ?thesis using attempts_frame [OF attempts_of [OF stopped(3)]]
          by (auto simp: i split: option.split bool.split)
      qed
    qed (use Cons i in \<open>simp add: deliver_def\<close>)
  qed simp_all
qed simp

text \<open>Acknowledged so far: the observers were called for \<open>es\<close>, in order, and each was stored.\<close>

definition acked_all :: "Event list \<Rightarrow> Publisher \<Rightarrow> Publisher \<Rightarrow> bool" where
  "acked_all es p p' \<longleftrightarrow> p_notified p' = p_notified p @ calls (p_observers p) es \<and>
     (\<forall>e \<in> set es. \<exists>nuid. set (p_stored p') \<inter> carries nuid (p_prefix p) e \<noteq> {})"

lemma acked_all_attempts: "attempts M p q \<Longrightarrow> acked_all es q r \<Longrightarrow> acked_all es p r"
  using attempts_frame [of M p q] by (simp add: acked_all_def)

lemma acked_all_notify:
  assumes "acked_all es (notify e q) r" "attempts M p q" "set (p_stored r) \<inter> carries nuid (p_prefix p) e \<noteq> {}"
  shows "acked_all (e # es) p r"
  using assms attempts_frame [OF assms(2)] by (auto simp: acked_all_def)

lemma acked_all_none: "p_notified p' = p_notified p \<Longrightarrow> acked_all [] p p'"
  by (simp add: acked_all_def)

lemma publishLoop_acks:
  assumes "script_ok rs" "p_gaveUp (snd (publishLoop nuid is rs p)) = p_gaveUp p"
  shows "\<exists>n. acked_all (take n (publishables is)) p (snd (publishLoop nuid is rs p))"
  using assms
proof (induction "is" arbitrary: rs p)
  case Nil
  then show ?case by (simp add: acked_all_none)
next
  case (Cons i "is")
  show ?case
  proof (cases i)
    case i: (Received e)
    show ?thesis
    proof (cases "shouldPublish (ev_Type e)")
      case True
      show ?thesis
      proof (rule deliver_cases [OF Cons(2) True, of "nuid (length is)" p], goal_cases acked ended passed stopped)
        case (acked rs' q)
        let ?r = "snd (publishLoop nuid is rs' (notify e q))"
        have a: "attempts (carries (nuid (length is)) (p_prefix p) e) p q" using acked(2) by (rule attempts_of)
        have r: "snd (publishLoop nuid (i # is) rs p) = ?r" by (simp add: i acked(1))
        have "p_gaveUp ?r = p_gaveUp (notify e q)" using Cons(3) attempts_frame [OF a] unfolding r by simp
        then obtain n where n: "acked_all (take n (publishables is)) (notify e q) ?r"
          using Cons(1) [OF call_ok_script [OF acked(2)]] by blast
        have "set (p_stored ?r) \<inter> carries (nuid (length is)) (p_prefix p) e \<noteq> {}"
          using publishLoop_grows [OF call_ok_script [OF acked(2)], of "notify e q" nuid "is"] acked(2)
          by (auto simp: call_ok_def)
        from acked_all_notify [OF n a this] show ?thesis
          by (intro exI [of _ "Suc n"]) (simp add: True i acked(1))
      next
        case (ended rs' q)
        then have "dead rs'" by (simp add: call_ok_def)
        then show ?thesis
          using publishLoop_dead [OF call_ok_script [OF ended(2)], of nuid "is" q] ended(1)
            attempts_frame [OF attempts_of [OF ended(2)]]
          by (intro exI [of _ 0]) (simp add: i acked_all_none)
      next
        case (passed rs' q err)
        then show ?thesis
          using publishLoop_grows [OF call_ok_script [OF passed(2)], of "q\<lparr>p_gaveUp := p_gaveUp q @ [e]\<rparr>" nuid "is"]
            attempts_frame [OF attempts_of [OF passed(2)]] Cons(3) by (simp add: i)
      next
        case (stopped c rs' q w)
        then show ?thesis using attempts_frame [OF attempts_of [OF stopped(3)]]
          by (intro exI [of _ 0]) (auto simp: i intro: acked_all_none split: option.split bool.split)
      qed
    next
      case False
      then show ?thesis using Cons i by (simp add: deliver_def)
    qed
  qed (auto intro: acked_all_none)
qed


definition ack_round :: round where
  "ack_round = \<lparr>ro_result = None, ro_stored = True, ro_lost = False, ro_polls = [], ro_done = False\<rparr>"

definition ack_lost_round :: round where
  "ack_lost_round = \<lparr>ro_result = Some ErrOther, ro_stored = True, ro_lost = True,
     ro_polls = [\<lparr>po_connected = False, po_closed = False, po_done = False\<rparr>, \<lparr>po_connected = True, po_closed = False, po_done = False\<rparr>],
     ro_done = False\<rparr>"

definition ddl_event :: "gostring \<Rightarrow> Event" where
  "ddl_event i = (NewEvent 0 DDL ''s'' [] [] [] [])\<lparr>ev_SourceID := i\<rparr>"


subsection \<open>Retrying ends with an acknowledgement\<close>

text \<open>A failure that is retried: the connection comes back, or the pause ends before the context does.\<close>

definition transient :: "round \<Rightarrow> bool" where
  "transient r \<longleftrightarrow> ro_result r \<noteq> None \<and> \<not> isTooLarge (ro_result r) \<and>
     (if ro_lost r then waitConnected (ro_polls r) = Returned None else \<not> ro_done r)"

lemma retry_until_ack:
  assumes "\<forall>r \<in> set rs. transient r" "ro_result a = None"
  shows "\<exists>q. publishWithRetry m delay (rs @ a # later) p = (Returned None, later, q) \<and>
     p_sent q = p_sent p @ replicate (Suc (length rs)) m \<and>
     p_waits q = p_waits p @ map (\<lambda>n. (double_up_to maxRetryDelay ^^ n) delay) [0..<length (filter (\<lambda>r. \<not> ro_lost r) rs)]"
  using assms(1)
proof (induction rs arbitrary: delay p)
  case Nil
  then show ?case using assms(2) by (simp add: attempted_def Let_def)
next
  case (Cons r rs)
  let ?p = "attempted m r p"
  have up: "map f [0..<Suc n] = f 0 # map (\<lambda>n. f (Suc n)) [0..<n]" for f :: "nat \<Rightarrow> int" and n
    using upt_conv_Cons [of 0 "Suc n"] by (simp del: upt_Suc add: map_Suc_upt [symmetric])
  show ?case
  proof (cases "ro_lost r")
    case True
    then show ?thesis
      using Cons.IH [of delay ?p] Cons.prems by (auto simp: transient_def Let_def attempted_def simp del: upt_Suc)
  next
    case False
    let ?q = "?p\<lparr>p_waits := p_waits ?p @ [delay]\<rparr>"
    obtain q where "publishWithRetry m (double_up_to maxRetryDelay delay) (rs @ a # later) ?q = (Returned None, later, q)"
      "p_sent q = p_sent ?q @ replicate (Suc (length rs)) m"
      "p_waits q = p_waits ?q @ map (\<lambda>n. (double_up_to maxRetryDelay ^^ n) (double_up_to maxRetryDelay delay))
         [0..<length (filter (\<lambda>r. \<not> ro_lost r) rs)]"
      using Cons.IH [of "double_up_to maxRetryDelay delay" ?q] Cons.prems by auto
    then show ?thesis
      using False Cons.prems by (auto simp: transient_def Let_def attempted_def up funpow_swap1 simp del: upt_Suc)
  qed
qed

text \<open>
  C15. An outage ends with the event delivered. However many attempts fail, as long as each failure is
  followed by the connection coming back or by the pause running out, the first attempt that is
  acknowledged ends the call with success; every attempt carried the same message, so the same id, and
  the pauses double from half a second up to ten seconds.
\<close>

theorem retry_delivers:
  assumes "\<forall>r \<in> set rs. transient r" "ro_result a = None"
  shows "\<exists>q. send subject e i (rs @ a # later) p = (Returned None, later, q) \<and>
     p_sent q = p_sent p @ replicate (Suc (length rs)) (message_of subject i e) \<and>
     p_waits q = p_waits p @ map (\<lambda>n. min (milliseconds 500 * 2 ^ n) (milliseconds 10000)) [0..<length (filter (\<lambda>r. \<not> ro_lost r) rs)]"
  using retry_until_ack [OF assms, of "message_of subject i e" defaultRetryBaseDelay later p]
  by (simp add: send_def message_of_def defaultRetryBaseDelay_def maxRetryDelay_def funpow_double_up_to milliseconds_def)

theorem retry_delivers_witness:
  "\<exists>q. send ''s'' (ddl_event ''a'') ''i'' [ack_lost_round, ack_round] (NewPublisher ''cdc'') = (Returned None, [], q) \<and>
     length (p_sent q) = 2"
  using retry_delivers [of "[ack_lost_round]" ack_round "''s''" "ddl_event ''a''" "''i''" "[]" "NewPublisher ''cdc''"]
  by (auto simp: transient_def ack_lost_round_def ack_round_def isTooLarge_def NewPublisher_def)

subsection \<open>Backoff\<close>

lemma backoff_step_min:
  assumes "0 < step" "0 < bo_max b"
  shows "min (backoff_step b n step) (bo_max b) = min (step * 2 ^ n) (bo_max b)"
  using assms
proof (induction n arbitrary: step)
  case (Suc n)
  have le: "step \<le> step * 2 ^ Suc n" using Suc.prems(1) one_le_power [of "2 :: int" "Suc n"] by simp
  show ?case
  proof (cases "step < bo_max b")
    case True
    then show ?thesis using Suc.IH [of "step * 2"] Suc.prems by (simp add: mult.assoc)
  next
    case False
    then have "bo_max b \<le> step * 2 ^ Suc n" using le by linarith
    then show ?thesis using False by simp
  qed
qed simp

text \<open>
  The pause before a reconnect attempt is between half of the step and the whole step, where the step doubles
  with every attempt from the base and is capped; so it is never longer than the cap and never zero. The
  only assumption is the contract of the random source: a value below its argument.
\<close>

theorem backoff_delay_bounds:
  assumes "0 < bo_base b" "bo_base b \<le> bo_max b" "\<And>n. 0 < n \<Longrightarrow> 0 \<le> rnd n \<and> rnd n < n" "0 < attempt"
  shows "min (bo_base b * 2 ^ (attempt - 1)) (bo_max b) div 2 \<le> backoff_delay rnd b attempt \<and>
    backoff_delay rnd b attempt \<le> min (bo_base b * 2 ^ (attempt - 1)) (bo_max b)"
proof -
  let ?s = "min (bo_base b * 2 ^ (attempt - 1)) (bo_max b)"
  have s: "min (backoff_step b (attempt - 1) (bo_base b)) (bo_max b) = ?s"
    using assms(1,2) by (intro backoff_step_min) auto
  have "0 < ?s" using assms(1,2) by simp
  then have "0 < ?s - ?s div 2 + 1" by linarith
  from assms(3) [OF this] show ?thesis unfolding backoff_delay_def Let_def s by linarith
qed

theorem backoff_delay_bounds_witness:
  "milliseconds 1000 \<le> backoff_delay (\<lambda>n. n - 1) defaultBackoff 3 \<and>
     backoff_delay (\<lambda>n. n - 1) defaultBackoff 3 \<le> milliseconds 2000"
  using backoff_delay_bounds [of defaultBackoff "\<lambda>n. n - 1" 3] by (simp add: defaultBackoff_def milliseconds_def)

subsection \<open>Subjects\<close>

lemma sanitize_clean: "set (sanitizeSubjectToken s) \<inter> set ''.*> '' = {}"
  by (auto simp: sanitizeSubjectToken_def)

lemma sanitize_nonempty [simp]: "sanitizeSubjectToken s = [] \<longleftrightarrow> s = []"
  by (simp add: sanitizeSubjectToken_def)

lemma sanitize_id: "set s \<inter> set ''.*> '' = {} \<Longrightarrow> sanitizeSubjectToken s = s"
  by (induction s) (auto simp: sanitizeSubjectToken_def)

lemma separated_unique:
  assumes "c \<notin> set a" "c \<notin> set a'" "a @ c # b = a' @ c # b'"
  shows "a = a' \<and> b = b'"
  using assms
proof (induction a arbitrary: a')
  case Nil
  then show ?case by (cases a') auto
next
  case (Cons x a)
  then show ?case by (cases a') auto
qed

text \<open>
  C40. Names from the database cannot inject subject tokens or wildcards: whatever the schema and the table are
  called, the subject is the prefix followed by exactly two non-empty tokens that are free of dots,
  wildcards and spaces. Names that contain none of these characters are kept as they are, so different tables
  get different subjects.
\<close>

theorem subject_tokens:
  "\<exists>s t. buildSubject subjectPrefix schema table = subjectPrefix @ ''.'' @ s @ ''.'' @ t \<and> s \<noteq> [] \<and> t \<noteq> [] \<and>
     set (s @ t) \<inter> set ''.*> '' = {} \<and>
     (set schema \<inter> set ''.*> '' = {} \<and> schema \<noteq> [] \<longrightarrow> s = schema) \<and> (set table \<inter> set ''.*> '' = {} \<and> table \<noteq> [] \<longrightarrow> t = table)"
proof -
  let ?s = "if schema = [] then ''default'' else schema" and ?t = "if table = [] then ''_ddl'' else table"
  have "set (sanitizeSubjectToken ?s @ sanitizeSubjectToken ?t) \<inter> set ''.*> '' = {}"
    using sanitize_clean [of ?s] sanitize_clean [of ?t] by (simp only: set_append) blast
  moreover have "buildSubject subjectPrefix schema table =
      subjectPrefix @ ''.'' @ sanitizeSubjectToken ?s @ ''.'' @ sanitizeSubjectToken ?t"
    by (simp only: buildSubject_def Let_def)
  moreover have "sanitizeSubjectToken ?s \<noteq> []" "sanitizeSubjectToken ?t \<noteq> []" by simp_all
  moreover have "set schema \<inter> set ''.*> '' = {} \<and> schema \<noteq> [] \<longrightarrow> sanitizeSubjectToken ?s = schema"
    "set table \<inter> set ''.*> '' = {} \<and> table \<noteq> [] \<longrightarrow> sanitizeSubjectToken ?t = table"
    by (auto intro!: sanitize_id)
  ultimately show ?thesis by blast
qed

theorem subject_tokens_witness:
  "\<exists>s t. buildSubject ''cdc.a'' ''public'' ''a.b>'' = ''cdc.a.'' @ s @ ''.'' @ t \<and> s = ''public'' \<and> t \<noteq> [] \<and> CHR ''>'' \<notin> set t"
  using subject_tokens [of "''cdc.a''" "''public''" "''a.b>''"] by fastforce

subsection \<open>Stream verification\<close>

lemma publishLoop_verified:
  assumes "script_ok rs"
  shows "p_streamVerified (snd (publishLoop nuid is rs p)) = p_streamVerified p"
  using publishLoop_rel [of "\<lambda>p q. p_streamVerified q = p_streamVerified p", OF _ _ _ _ _ assms]
  by (auto simp: attempts_frame notify_def)

lemma awaitStream_outcome:
  "awaitStream rnd n ts p = (w, ds, q) \<Longrightarrow>
     (w = Returned None \<longrightarrow> q = p\<lparr>p_streamVerified := True\<rparr> \<and> StreamFound \<in> tu_lookup ` set ts) \<and> (w \<noteq> Returned None \<longrightarrow> q = p)"
proof (induction rnd n ts p arbitrary: w ds q rule: awaitStream.induct)
  case (2 rnd n t ts p)
  show ?case
  proof (cases "waitConnected (tu_polls t) = Returned None \<and> tu_lookup t = LookupFailed \<and> \<not> tu_done t \<and> \<not> tu_done_asleep t")
    case True
    obtain w' ds' q' where a: "awaitStream rnd (n + 1) ts p = (w', ds', q')" by (rule prod_cases3)
    then have "w = w'" "q = q'" using True 2(2) by (auto simp: ensureStream_def Let_def)
    then show ?thesis using 2(1) [OF _ refl refl _ _ refl _ a] True by (auto simp: ensureStream_def)
  next
    case False
    then show ?thesis
      using 2(2) by (auto simp: ensureStream_def Let_def split: wait.splits option.splits lookup.splits if_splits)
  qed
qed simp



subsection \<open>An event that fits in no form\<close>

text \<open>
  When the stream refuses even the stripped form of an event, the event is passed over and the loop goes on:
  the next event is stored and reported.
\<close>

definition too_large_round :: round where
  "too_large_round = \<lparr>ro_result = Some ErrMaxPayload, ro_stored = False, ro_lost = False, ro_polls = [], ro_done = False\<rparr>"

theorem refused_stripped_is_passed_over:
  "\<exists>p. snd (publishLoop (\<lambda>_. []) [Received (ddl_event ''a''), Received (ddl_event ''b'')]
       [too_large_round, too_large_round, too_large_round, ack_round] (AddOnPublished 7 (NewPublisher ''cdc''))) = p \<and>
     p_gaveUp p = [ddl_event ''a''] \<and> p_notified p = [(7, ddl_event ''b'')]"
  by (simp add: too_large_round_def ack_round_def deliver_def publish_def send_def sendTruncated_def shouldPublish_def ddl_event_def
      NewEvent_def IsPublishable_def attempted_def isTooLarge_def too_large_def notify_def AddOnPublished_def NewPublisher_def Let_def)

end
