(* ===== verification/Delivery.thy ===== *)
theory Delivery
  imports Nats_Publisher
begin

text \<open>
  The path of a change from a listener to the stream, as one system: a source of events (a listener with its database), the bus as
  the queue of the events it accepted, and the publisher of \<open>Nats_Publisher\<close>, which takes the events from the queue and calls the source's
  observer after each acknowledgement. The wiring is that of \<^verbatim>\<open>main.go\<close>: observers are added before a listener starts, other
  sources may put events on the same bus, and a restart of the process replaces listener, queue and publisher while the stream keeps what it
  stored.

  The record \<open>source\<close> holds the operations of a listener the system uses; the locale \<open>event_source\<close> the laws they obey, from which
  it follows that whatever the source counts as acknowledged is in the stream. Both listeners are interpretations (\<open>Pg_Delivery\<close>,
  \<open>Mysql_Delivery\<close>).
\<close>

section \<open>The system\<close>

abbreviation publishable :: "Event \<Rightarrow> bool" where
  "publishable e \<equiv> IsPublishable (ev_Type e)"

text \<open>
  Of a source with states \<open>'s\<close> and changes \<open>'c\<close>: the events the bus accepted since the process started and the changes they stand for; which events its
  observer counts; how many acknowledgements it has counted and which changes are acknowledged; its own steps, the effect of an observer
  call, and the state after a restart.
\<close>

record ('s, 'c) source =
  src_out :: "'s \<Rightarrow> Event list"
  src_changes :: "'s \<Rightarrow> 'c list"
  src_own :: "Event \<Rightarrow> bool"
  src_acked :: "'s \<Rightarrow> nat"
  src_stored :: "'s \<Rightarrow> 'c set"
  src_runs :: "'s \<Rightarrow> 's \<Rightarrow> bool"
  src_ack :: "Event \<Rightarrow> 's \<Rightarrow> 's"
  src_restarts :: "'s \<Rightarrow> 's \<Rightarrow> bool"

text \<open>
  \<open>c_queue\<close> holds the events the bus accepted and the publisher has not taken, \<open>c_rounds\<close> the outcomes of the publish calls
  to come, \<open>p_stored\<close> of \<open>c_pub\<close> the content of the stream. \<open>c_history\<close> records which event was handed over for which change,
  over all runs of the process.
\<close>

record ('s, 'c) cdcsys =
  c_src :: 's
  c_queue :: "Event list"
  c_rounds :: "round list"
  c_pub :: Publisher
  c_history :: "('c \<times> Event) list"

text \<open>The publisher as \<^verbatim>\<open>main.go\<close> wires it: the observers of the listeners are added to a new publisher.\<close>

definition wired :: "gostring \<Rightarrow> nat list \<Rightarrow> Publisher" where
  "wired subjectPrefix obs = fold AddOnPublished obs (NewPublisher subjectPrefix)"

text \<open>The calls of the observers since \<open>p\<close>, of which those of the source's observer change its state.\<close>

definition observer_calls :: "(Event \<Rightarrow> 's \<Rightarrow> 's) \<Rightarrow> nat \<Rightarrow> Publisher \<Rightarrow> Publisher \<Rightarrow> 's \<Rightarrow> 's" where
  "observer_calls ack me p p' s = fold (\<lambda>(f, e) s. if f = me then ack e s else s) (drop (length (p_notified p)) (p_notified p')) s"

inductive cdc_step :: "('s, 'c) source \<Rightarrow> nat \<Rightarrow> ('s, 'c) cdcsys \<Rightarrow> ('s, 'c) cdcsys \<Rightarrow> bool" for S me where
  listening: "src_runs S (c_src C) s' \<Longrightarrow> src_out S s' = src_out S (c_src C) @ new \<Longrightarrow> src_changes S s' = src_changes S (c_src C) @ xs \<Longrightarrow>
     cdc_step S me C (C\<lparr>c_src := s', c_queue := c_queue C @ new, c_history := c_history C @ zip xs (filter (src_own S) new)\<rparr>)"
| other_source: "\<not> src_own S e \<Longrightarrow> cdc_step S me C (C\<lparr>c_queue := c_queue C @ [e]\<rparr>)"
| publishing: "c_queue C = e # q \<Longrightarrow> deliver nuid e (c_rounds C) (c_pub C) = (Some True, rs, p) \<Longrightarrow> p_gaveUp p = p_gaveUp (c_pub C) \<Longrightarrow>
     cdc_step S me C (C\<lparr>c_src := observer_calls (src_ack S) me (c_pub C) p (c_src C), c_queue := q, c_rounds := rs, c_pub := p\<rparr>)"
| connection_closed: "c_queue C = e # q \<Longrightarrow> deliver nuid e (c_rounds C) (c_pub C) = (Some False, rs, p) \<Longrightarrow>
     cdc_step S me C (C\<lparr>c_queue := q, c_rounds := [], c_pub := p\<rparr>)"
| process_restart: "src_restarts S (c_src C) s' \<Longrightarrow> script_ok rs \<Longrightarrow> distinct obs \<Longrightarrow> me \<in> set obs \<Longrightarrow>
     cdc_step S me C (C\<lparr>c_src := s', c_queue := [], c_rounds := rs, c_pub := (wired (p_prefix (c_pub C)) obs)\<lparr>p_stored := p_stored (c_pub C)\<rparr>\<rparr>)"

abbreviation cdc_reach :: "('s, 'c) source \<Rightarrow> nat \<Rightarrow> ('s, 'c) cdcsys \<Rightarrow> ('s, 'c) cdcsys \<Rightarrow> bool" where
  "cdc_reach S me \<equiv> (cdc_step S me)\<^sup>*\<^sup>*"

definition cdc_init :: "'s \<Rightarrow> gostring \<Rightarrow> nat list \<Rightarrow> round list \<Rightarrow> ('s, 'c) cdcsys" where
  "cdc_init s subjectPrefix obs rs = \<lparr>c_src = s, c_queue = [], c_rounds = rs, c_pub = wired subjectPrefix obs, c_history = []\<rparr>"

text \<open>The stream holds a message that carries an event handed over for the change.\<close>

definition in_stream :: "gostring \<Rightarrow> ('s, 'c) cdcsys \<Rightarrow> 'c \<Rightarrow> bool" where
  "in_stream pre C x \<longleftrightarrow> (\<exists>e nuid. (x, e) \<in> set (c_history C) \<and> set (p_stored (c_pub C)) \<inter> carries nuid pre e \<noteq> {})"

lemma in_stream_all:
  assumes "\<forall>x \<in> X. in_stream pre C x" "set (c_history C) \<subseteq> set (c_history C')" "set (p_stored (c_pub C)) \<subseteq> set (p_stored (c_pub C'))"
  shows "\<forall>x \<in> X. in_stream pre C' x"
  using assms by (fastforce simp: in_stream_def)

lemma wired_simps [simp]:
  "p_prefix (wired pre obs) = pre" "p_observers (wired pre obs) = obs" "p_stored (wired pre obs) = []" "p_notified (wired pre obs) = []"
proof -
  have "p_observers (fold AddOnPublished obs p) = p_observers p @ obs \<and> p_prefix (fold AddOnPublished obs p) = p_prefix p \<and>
      p_stored (fold AddOnPublished obs p) = p_stored p \<and> p_notified (fold AddOnPublished obs p) = p_notified p" for p
    by (induction obs arbitrary: p) (simp_all add: AddOnPublished_def)
  then show "p_prefix (wired pre obs) = pre" "p_observers (wired pre obs) = obs" "p_stored (wired pre obs) = []" "p_notified (wired pre obs) = []"
    by (simp_all add: wired_def NewPublisher_def)
qed

lemma observer_calls_none: "p_notified p' = p_notified p \<Longrightarrow> observer_calls ack me p p' s = s"
  by (simp add: observer_calls_def)

lemma observer_calls_notify:
  assumes "p_notified q = p_notified p" "p_observers q = p_observers p" "distinct (p_observers p)" "me \<in> set (p_observers p)"
  shows "observer_calls ack me p (notify e q) s = ack e s"
proof -
  have "fold (\<lambda>(f, e) s. if f = me then ack e s else s) (map (\<lambda>f. (f, e)) obs) s = (if me \<in> set obs then ack e s else s)"
    if "distinct obs" for obs
    using that by (induction obs arbitrary: s) auto
  then show ?thesis using assms by (simp add: observer_calls_def notify_def)
qed

section \<open>The contract of a source\<close>

text \<open>
  A source in a valid state only appends to the bus, one own event per change; it counts the acknowledgement of the next own event as that of the next
  change and ignores the events of others; a restart forgets what was handed over but not what is stored.
\<close>

locale event_source =
  fixes S :: "('s, 'c) source" and valid :: "'s \<Rightarrow> bool"
  assumes own_publishable: "src_own S e \<Longrightarrow> publishable e"
    and counted: "valid s \<Longrightarrow> src_acked S s \<le> length (src_changes S s) \<and> length (filter (src_own S) (src_out S s)) = length (src_changes S s)"
    and runs_appends: "valid s \<Longrightarrow> src_runs S s s' \<Longrightarrow> valid s' \<and> src_acked S s' = src_acked S s \<and> src_stored S s' = src_stored S s \<and>
      (\<exists>new. src_out S s' = src_out S s @ new) \<and> (\<exists>xs. src_changes S s' = src_changes S s @ xs)"
    and ack_next: "valid s \<Longrightarrow> src_acked S s < length (src_changes S s) \<Longrightarrow> e = filter (src_own S) (src_out S s) ! src_acked S s \<Longrightarrow>
      valid (src_ack S e s) \<and> src_out S (src_ack S e s) = src_out S s \<and> src_changes S (src_ack S e s) = src_changes S s \<and>
      src_acked S (src_ack S e s) = Suc (src_acked S s) \<and> src_stored S (src_ack S e s) = insert (src_changes S s ! src_acked S s) (src_stored S s)"
    and ack_other: "publishable e \<Longrightarrow> \<not> src_own S e \<Longrightarrow> src_ack S e s = s"
    and restarts_afresh: "valid s \<Longrightarrow> src_restarts S s s' \<Longrightarrow>
      valid s' \<and> src_out S s' = [] \<and> src_changes S s' = [] \<and> src_acked S s' = 0 \<and> src_stored S s' = src_stored S s"
begin

text \<open>Each step of the source is a step of the system.\<close>

lemma listening_enabled:
  assumes "valid (c_src C)" "src_runs S (c_src C) s'"
  shows "\<exists>C'. cdc_step S me C C' \<and> c_src C' = s'"
  using runs_appends [OF assms] cdc_step.listening [OF assms(2)] by fastforce

text \<open>
  While a publish call may still succeed, the own events in the queue are exactly those not yet counted as acknowledged, in
  order: nothing is missing in front of them.
\<close>

definition cdc_inv :: "nat \<Rightarrow> gostring \<Rightarrow> ('s, 'c) cdcsys \<Rightarrow> bool" where
  "cdc_inv me pre C \<longleftrightarrow> valid (c_src C) \<and> script_ok (c_rounds C) \<and>
     (dead (c_rounds C) \<or> filter (src_own S) (c_queue C) = drop (src_acked S (c_src C)) (filter (src_own S) (src_out S (c_src C)))) \<and>
     set (zip (src_changes S (c_src C)) (filter (src_own S) (src_out S (c_src C)))) \<subseteq> set (c_history C) \<and>
     (\<forall>x \<in> src_stored S (c_src C). in_stream pre C x) \<and>
     p_prefix (c_pub C) = pre \<and> distinct (p_observers (c_pub C)) \<and> me \<in> set (p_observers (c_pub C))"

lemma listening_inv:
  assumes inv: "cdc_inv me pre C" and run: "src_runs S (c_src C) s'"
    and new: "src_out S s' = src_out S (c_src C) @ new" "src_changes S s' = src_changes S (c_src C) @ xs"
  shows "cdc_inv me pre (C\<lparr>c_src := s', c_queue := c_queue C @ new, c_history := c_history C @ zip xs (filter (src_own S) new)\<rparr>)"
    (is "cdc_inv _ _ ?C")
proof -
  have v: "valid (c_src C)" "\<forall>x \<in> src_stored S (c_src C). in_stream pre C x" using inv by (simp_all add: cdc_inv_def)
  note r = runs_appends [OF v(1) run]
  note c = counted [OF v(1)]
  have "\<forall>x \<in> src_stored S s'. in_stream pre ?C x" using r in_stream_all [OF v(2), of ?C] by simp
  moreover have "zip (src_changes S s') (filter (src_own S) (src_out S s')) =
      zip (src_changes S (c_src C)) (filter (src_own S) (src_out S (c_src C))) @ zip xs (filter (src_own S) new)"
    using c by (simp add: new)
  ultimately show ?thesis using inv r c new by (auto simp: cdc_inv_def)
qed

lemma publishing_inv:
  assumes inv: "cdc_inv me pre C" and q: "c_queue C = e # q"
    and deliver: "deliver nuid e (c_rounds C) (c_pub C) = (Some True, rs, p)" and kept: "p_gaveUp p = p_gaveUp (c_pub C)"
  shows "cdc_inv me pre (C\<lparr>c_src := observer_calls (src_ack S) me (c_pub C) p (c_src C), c_queue := q, c_rounds := rs, c_pub := p\<rparr>)"
    (is "cdc_inv _ _ ?C")
proof -
  let ?s = "c_src C" and ?own = "filter (src_own S)"
  have i: "valid ?s" "script_ok (c_rounds C)" "dead (c_rounds C) \<or> ?own (c_queue C) = drop (src_acked S ?s) (?own (src_out S ?s))"
      "set (zip (src_changes S ?s) (?own (src_out S ?s))) \<subseteq> set (c_history C)" "\<forall>x \<in> src_stored S ?s. in_stream pre C x"
      "p_prefix (c_pub C) = pre" "distinct (p_observers (c_pub C))" "me \<in> set (p_observers (c_pub C))"
    using inv by (auto simp: cdc_inv_def)
  have silent: ?thesis
    if "observer_calls (src_ack S) me (c_pub C) p ?s = ?s" "dead rs \<or> \<not> src_own S e \<and> \<not> dead (c_rounds C)" "script_ok rs" "p_prefix p = pre"
      "p_observers p = p_observers (c_pub C)" "set (p_stored (c_pub C)) \<subseteq> set (p_stored p)"
  proof -
    have "\<forall>x \<in> src_stored S ?s. in_stream pre ?C x" by (rule in_stream_all [OF i(5)]) (use that(6) in simp_all)
    then show ?thesis using i that q by (auto simp: cdc_inv_def)
  qed
  show ?thesis
  proof (cases "shouldPublish (ev_Type e)")
    case False
    then have "rs = c_rounds C" "p = c_pub C" using deliver by (auto simp: deliver_def)
    moreover have "\<not> src_own S e" using False own_publishable by (auto simp: shouldPublish_def)
    ultimately show ?thesis using silent i(2,6) by (cases "dead rs") (auto simp: observer_calls_none)
  next
    case pub: True
    from i(2) pub show ?thesis
    proof (cases rule: deliver_cases [of "c_rounds C" e nuid "c_pub C"])
      case (acked rs' r)
      then have p: "rs = rs'" "p = notify e r" using deliver by auto
      note f = attempts_frame [OF attempts_of [OF acked(2)]]
      have ok: "script_ok rs" "\<not> dead (c_rounds C)" "set (p_stored r) \<inter> carries nuid pre e \<noteq> {}" using acked(2) p(1) i(6) by (auto simp: call_ok_def)
      have calls: "observer_calls (src_ack S) me (c_pub C) p ?s = src_ack S e ?s"
        unfolding p(2) by (rule observer_calls_notify [OF f(3,2) i(7,8)])
      have stored: "p_stored p = p_stored r" "p_prefix p = pre" "p_observers p = p_observers (c_pub C)" using f i(6) by (simp_all add: p(2) notify_def)
      show ?thesis
      proof (cases "src_own S e")
        case True
        let ?a = "src_acked S ?s"
        have d: "drop ?a (?own (src_out S ?s)) = e # ?own q" using i(3) ok(2) q True by auto
        then have a: "?a < length (?own (src_out S ?s))" by (cases "?a < length (?own (src_out S ?s))") auto
        then have e: "e = ?own (src_out S ?s) ! ?a" "?a < length (src_changes S ?s)" using d counted [OF i(1)] by (auto dest: nth_via_drop)
        note n = ack_next [OF i(1) e(2,1)]
        have "(src_changes S ?s ! ?a, e) \<in> set (zip (src_changes S ?s) (?own (src_out S ?s)))" using a e by (auto simp: in_set_zip)
        then have "in_stream pre ?C (src_changes S ?s ! ?a)" using i(4) ok(3) stored(1) by (auto simp: in_stream_def)
        moreover have "\<forall>x \<in> src_stored S ?s. in_stream pre ?C x" by (rule in_stream_all [OF i(5)]) (use f(7) stored in simp_all)
        moreover have "?own q = drop (Suc ?a) (?own (src_out S ?s))" using d by (metis drop_Suc list.sel(3) tl_drop)
        ultimately show ?thesis using n ok(1) i stored unfolding cdc_inv_def by (simp add: calls)
      next
        case False
        then have "src_ack S e ?s = ?s" using pub ack_other by (simp add: shouldPublish_def)
        then show ?thesis using silent ok(1,2) False f(7) stored by (simp add: calls)
      qed
    next
      case (ended rs' r)
      then have "rs = rs'" "p = r" using deliver by auto
      then show ?thesis
        using silent attempts_frame [OF attempts_of [OF ended(2)]] ended(2) i(6) by (simp add: call_ok_def observer_calls_none)
    next
      case (passed rs' r err)
      then show ?thesis using deliver kept attempts_frame [OF attempts_of [OF passed(2)]] by auto
    next
      case (stopped c rs' r w)
      then show ?thesis using deliver by auto
    qed
  qed
qed

lemma connection_closed_inv:
  assumes inv: "cdc_inv me pre C" and deliver: "deliver nuid e (c_rounds C) (c_pub C) = (Some False, rs, p)"
  shows "cdc_inv me pre (C\<lparr>c_queue := q, c_rounds := [], c_pub := p\<rparr>)" (is "cdc_inv _ _ ?C")
proof -
  have i: "script_ok (c_rounds C)" "\<forall>x \<in> src_stored S (c_src C). in_stream pre C x" using inv by (auto simp: cdc_inv_def)
  have "shouldPublish (ev_Type e)" using deliver by (auto simp: deliver_def split: if_splits)
  with i(1) have "\<exists>M. attempts M (c_pub C) p"
    by (cases rule: deliver_cases [of "c_rounds C" e nuid "c_pub C"]) (use deliver in \<open>auto dest: attempts_of\<close>)
  then obtain M where f: "attempts M (c_pub C) p" by blast
  have "\<forall>x \<in> src_stored S (c_src C). in_stream pre ?C x" by (rule in_stream_all [OF i(2)]) (use attempts_frame(7) [OF f] in simp_all)
  then show ?thesis using inv attempts_frame [OF f] by (auto simp: cdc_inv_def dead_def)
qed

lemma process_restart_inv:
  assumes inv: "cdc_inv me pre C" and "src_restarts S (c_src C) s'" "script_ok rs" "distinct obs" "me \<in> set obs"
  shows "cdc_inv me pre (C\<lparr>c_src := s', c_queue := [], c_rounds := rs, c_pub := (wired (p_prefix (c_pub C)) obs)\<lparr>p_stored := p_stored (c_pub C)\<rparr>\<rparr>)"
    (is "cdc_inv _ _ ?C")
proof -
  have v: "valid (c_src C)" "\<forall>x \<in> src_stored S (c_src C). in_stream pre C x" using inv by (simp_all add: cdc_inv_def)
  note r = restarts_afresh [OF v(1) assms(2)]
  have "\<forall>x \<in> src_stored S s'. in_stream pre ?C x" using r in_stream_all [OF v(2), of ?C] by simp
  then show ?thesis using inv r assms(3-5) by (simp add: cdc_inv_def)
qed

lemma cdc_step_inv:
  assumes "cdc_step S me C C'" "cdc_inv me pre C"
  shows "cdc_inv me pre C'"
  using assms(1)
proof cases
  case (listening s' new xs)
  then show ?thesis using listening_inv [OF assms(2)] by blast
next
  case (other_source e)
  have "\<forall>x \<in> src_stored S (c_src C). in_stream pre C' x"
    by (rule in_stream_all [of _ pre C]) (use assms(2) other_source in \<open>auto simp: cdc_inv_def\<close>)
  then show ?thesis using assms(2) other_source by (auto simp: cdc_inv_def)
next
  case publishing
  then show ?thesis using publishing_inv [OF assms(2)] by blast
next
  case connection_closed
  then show ?thesis using connection_closed_inv [OF assms(2)] by blast
next
  case process_restart
  then show ?thesis using process_restart_inv [OF assms(2)] by blast
qed

lemma cdc_reach_inv: "cdc_reach S me C C' \<Longrightarrow> cdc_inv me pre C \<Longrightarrow> cdc_inv me pre C'"
  by (induction rule: rtranclp_induct) (auto intro: cdc_step_inv)

lemma cdc_inv_init:
  assumes "valid s" "src_out S s = []" "src_changes S s = []" "src_stored S s = {}" "script_ok rs" "distinct obs" "me \<in> set obs"
  shows "cdc_inv me pre (cdc_init s pre obs rs)"
  using assms by (simp add: cdc_inv_def cdc_init_def)

theorem stored_in_stream:
  assumes "cdc_reach S me (cdc_init s pre obs rs) C"
    "valid s" "src_out S s = []" "src_changes S s = []" "src_stored S s = {}" "script_ok rs" "distinct obs" "me \<in> set obs"
  shows "valid (c_src C)" and "\<forall>x \<in> src_stored S (c_src C). in_stream pre C x"
  using cdc_reach_inv [OF assms(1) cdc_inv_init [OF assms(2-8)]] by (simp_all add: cdc_inv_def)

end

end
