(* ===== verification/Pg_Reader.thy ===== *)
theory Pg_Reader
  imports Go_Prelude
begin

text \<open>
  The bounds-checked big-endian reader of \<^verbatim>\<open>internal/postgres/parser.go\<close> (type
  \<^verbatim>\<open>reader\<close>). Every method takes the reader and returns the value read with the advanced
  reader. The laws at the end say what a read returns on a buffer that starts with an encoded
  value; they carry the proofs about whole messages.
\<close>

record reader =
  rd_data :: gostring
  rd_pos :: nat
  rd_err :: bool

definition remaining :: "reader \<Rightarrow> int" where
  "remaining r = int (length (rd_data r)) - int (rd_pos r)"

definition canRead :: "nat \<Rightarrow> reader \<Rightarrow> bool \<times> reader" where
  "canRead n r =
     (if rd_err r then (False, r)
      else if rd_pos r + n > length (rd_data r) then (False, r\<lparr>rd_err := True\<rparr>)
      else (True, r))"

definition readByte :: "reader \<Rightarrow> char \<times> reader" where
  "readByte r = (case canRead 1 r of
      (False, r') \<Rightarrow> (CHR 0x00, r')
    | (True, r') \<Rightarrow> (rd_data r' ! rd_pos r', r'\<lparr>rd_pos := rd_pos r' + 1\<rparr>))"

definition readBytes :: "nat \<Rightarrow> reader \<Rightarrow> gostring \<times> reader" where
  "readBytes n r = (case canRead n r of
      (False, r') \<Rightarrow> ([], r')
    | (True, r') \<Rightarrow> (take n (drop (rd_pos r') (rd_data r')), r'\<lparr>rd_pos := rd_pos r' + n\<rparr>))"

text \<open>\<^verbatim>\<open>binary.BigEndian\<close>: the value of a byte sequence, most significant byte first.\<close>

definition be_nat :: "gostring \<Rightarrow> nat" where
  "be_nat s = foldl (\<lambda>acc c. acc * 256 + byte c) 0 s"

definition readUint16 :: "reader \<Rightarrow> u16 \<times> reader" where
  "readUint16 r = (case canRead 2 r of
      (False, r') \<Rightarrow> (0, r')
    | (True, r') \<Rightarrow> (of_nat (be_nat (take 2 (drop (rd_pos r') (rd_data r')))), r'\<lparr>rd_pos := rd_pos r' + 2\<rparr>))"

definition readUint32 :: "reader \<Rightarrow> u32 \<times> reader" where
  "readUint32 r = (case canRead 4 r of
      (False, r') \<Rightarrow> (0, r')
    | (True, r') \<Rightarrow> (of_nat (be_nat (take 4 (drop (rd_pos r') (rd_data r')))), r'\<lparr>rd_pos := rd_pos r' + 4\<rparr>))"

definition readUint64 :: "reader \<Rightarrow> u64 \<times> reader" where
  "readUint64 r = (case canRead 8 r of
      (False, r') \<Rightarrow> (0, r')
    | (True, r') \<Rightarrow> (of_nat (be_nat (take 8 (drop (rd_pos r') (rd_data r')))), r'\<lparr>rd_pos := rd_pos r' + 8\<rparr>))"

text \<open>\<^verbatim>\<open>readCString\<close> does not look at \<^verbatim>\<open>err\<close>.\<close>

definition readCString :: "reader \<Rightarrow> gostring \<times> reader" where
  "readCString r =
     (let s = takeWhile (\<lambda>c. c \<noteq> CHR 0x00) (drop (rd_pos r) (rd_data r));
          e = rd_pos r + length s
      in (s, r\<lparr>rd_pos := (if e < length (rd_data r) then e + 1 else e)\<rparr>))"

lemmas reader_defs = canRead_def readByte_def readBytes_def readUint16_def readUint32_def readUint64_def
  readCString_def

subsection \<open>Bounds\<close>

text \<open>
  The position never passes the end of the buffer, so no slice expression of the reader can
  be out of range.
\<close>

definition reader_ok :: "reader \<Rightarrow> bool" where
  "reader_ok r \<longleftrightarrow> rd_pos r \<le> length (rd_data r)"

named_theorems reader_intros \<open>every read keeps the position inside the buffer\<close>

lemma reader_ok_readByte [reader_intros]: "reader_ok r \<Longrightarrow> reader_ok (snd (readByte r))"
  by (auto simp: reader_ok_def readByte_def canRead_def)

lemma reader_ok_readBytes [reader_intros]: "reader_ok r \<Longrightarrow> reader_ok (snd (readBytes n r))"
  by (auto simp: reader_ok_def readBytes_def canRead_def)

lemma reader_ok_readUint16 [reader_intros]: "reader_ok r \<Longrightarrow> reader_ok (snd (readUint16 r))"
  by (auto simp: reader_ok_def readUint16_def canRead_def)

lemma reader_ok_readUint32 [reader_intros]: "reader_ok r \<Longrightarrow> reader_ok (snd (readUint32 r))"
  by (auto simp: reader_ok_def readUint32_def canRead_def)

lemma reader_ok_readUint64 [reader_intros]: "reader_ok r \<Longrightarrow> reader_ok (snd (readUint64 r))"
  by (auto simp: reader_ok_def readUint64_def canRead_def)

lemma reader_ok_readCString [reader_intros]: "reader_ok r \<Longrightarrow> reader_ok (snd (readCString r))"
proof -
  assume "reader_ok r"
  then have "length (takeWhile (\<lambda>c. c \<noteq> CHR 0x00) (drop (rd_pos r) (rd_data r))) \<le> length (rd_data r) - rd_pos r"
    by (metis length_drop length_takeWhile_le)
  then show ?thesis using \<open>reader_ok r\<close> by (auto simp: reader_ok_def readCString_def Let_def)
qed

subsection \<open>Reading what was encoded\<close>

text \<open>The bytes of a number, most significant first, and the buffers the server writes.\<close>

primrec be_bytes :: "nat \<Rightarrow> nat \<Rightarrow> gostring" where
  "be_bytes 0 n = []"
| "be_bytes (Suc k) n = be_bytes k (n div 256) @ [char_of n]"

lemma length_be_bytes [simp]: "length (be_bytes k n) = k"
  by (induction k arbitrary: n) auto

lemma be_nat_snoc: "be_nat (s @ [c]) = be_nat s * 256 + byte c"
  by (simp add: be_nat_def)

lemma be_nat_be_bytes: "be_nat (be_bytes k n) = n mod 256 ^ k"
proof (induction k arbitrary: n)
  case 0
  show ?case by (simp add: be_nat_def)
next
  case (Suc k)
  have "n mod 256 ^ Suc k = (n div 256 mod 256 ^ k) * 256 + n mod 256"
    by (simp add: mod_mult2_eq mult.commute)
  then show ?case by (simp add: be_nat_snoc Suc)
qed

abbreviation enc16 :: "u16 \<Rightarrow> gostring" where "enc16 w \<equiv> be_bytes 2 (unat w)"
abbreviation enc32 :: "u32 \<Rightarrow> gostring" where "enc32 w \<equiv> be_bytes 4 (unat w)"
abbreviation enc64 :: "u64 \<Rightarrow> gostring" where "enc64 w \<equiv> be_bytes 8 (unat w)"

text \<open>\<open>at s r\<close>: the unread part of a reader that has not failed starts with \<open>s\<close>.\<close>

definition at :: "gostring \<Rightarrow> reader \<Rightarrow> bool" where
  "at s r \<longleftrightarrow> \<not> rd_err r \<and> rd_pos r \<le> length (rd_data r) \<and> drop (rd_pos r) (rd_data r) = s"

definition advance :: "nat \<Rightarrow> reader \<Rightarrow> reader" where
  "advance n r = r\<lparr>rd_pos := rd_pos r + n\<rparr>"

lemma at_advance: "at (s @ t) r \<Longrightarrow> length s = n \<Longrightarrow> at t (advance n r)"
  by (auto simp: at_def advance_def drop_drop [symmetric] add.commute simp del: drop_drop)
    (metis add_le_imp_le_diff diff_le_mono2 le_add1 le_diff_conv2 length_append length_drop nat_add_left_cancel_le)

lemma at_canRead: "at (s @ t) r \<Longrightarrow> length s = n \<Longrightarrow> canRead n r = (True, r)"
  by (auto simp: at_def canRead_def) (metis add.commute le_add1 le_diff_conv2 length_append length_drop not_less)

lemma at_remaining: "at s r \<Longrightarrow> remaining r = int (length s)"
  by (auto simp: at_def remaining_def)

lemma at_reader_ok: "at s r \<Longrightarrow> reader_ok r"
  by (simp add: at_def reader_ok_def)

lemma at_take: "at (s @ t) r \<Longrightarrow> length s = n \<Longrightarrow> take n (drop (rd_pos r) (rd_data r)) = s"
  by (auto simp: at_def)

lemma read_byte: "at (c # t) r \<Longrightarrow> readByte r = (c, advance 1 r)"
proof -
  assume a: "at (c # t) r"
  then have "rd_data r ! rd_pos r = c"
    by (metis at_def list.distinct(1) drop_all hd_drop_conv_nth list.sel(1) not_le)
  then show ?thesis using at_canRead [of "[c]" t r 1] a by (simp add: readByte_def advance_def)
qed

lemma read_bytes: "at (s @ t) r \<Longrightarrow> length s = n \<Longrightarrow> readBytes n r = (s, advance n r)"
  by (simp add: readBytes_def at_canRead at_take advance_def)

lemma unat_bounds: "unat (w :: u16) < 65536" "unat (v :: u32) < 4294967296" "unat (x :: u64) < 18446744073709551616"
  by (rule order.strict_trans2 [OF unsigned_less], simp)+

lemma read_u16: "at (enc16 w @ t) r \<Longrightarrow> readUint16 r = (w, advance 2 r)"
  using at_canRead [of "enc16 w" t r 2] at_take [of "enc16 w" t r 2] unat_bounds
  by (simp add: readUint16_def advance_def be_nat_be_bytes)

lemma read_u32: "at (enc32 w @ t) r \<Longrightarrow> readUint32 r = (w, advance 4 r)"
  using at_canRead [of "enc32 w" t r 4] at_take [of "enc32 w" t r 4] unat_bounds
  by (simp add: readUint32_def advance_def be_nat_be_bytes)

lemma read_u64: "at (enc64 w @ t) r \<Longrightarrow> readUint64 r = (w, advance 8 r)"
  using at_canRead [of "enc64 w" t r 8] at_take [of "enc64 w" t r 8] unat_bounds
  by (simp add: readUint64_def advance_def be_nat_be_bytes)

lemma takeWhile_to_zero: "CHR 0x00 \<notin> set s \<Longrightarrow> takeWhile (\<lambda>c. c \<noteq> CHR 0x00) (s @ CHR 0x00 # t) = s"
  by (induction s) auto

lemma read_cstring:
  assumes "at (s @ CHR 0x00 # t) r" "CHR 0x00 \<notin> set s"
  shows "readCString r = (s, advance (length s + 1) r)"
proof -
  have d: "drop (rd_pos r) (rd_data r) = s @ CHR 0x00 # t" using assms(1) by (simp add: at_def)
  have "rd_pos r + length s < length (rd_data r)"
    using arg_cong [OF d, of length] assms(1) by (simp add: at_def)
  then show ?thesis
    using assms(2) unfolding readCString_def d by (simp add: takeWhile_to_zero advance_def)
qed

text \<open>The same, with the state of the buffer afterwards.\<close>

lemma at_byte: "at (c # t) r \<Longrightarrow> at t (advance 1 r)"
  using at_advance [of "[c]" t r 1] by simp

lemma at_enc: "at (enc16 w @ t) r \<Longrightarrow> at t (advance 2 r)" "at (enc32 v @ t) r \<Longrightarrow> at t (advance 4 r)"
  "at (enc64 x @ t) r \<Longrightarrow> at t (advance 8 r)"
  by (erule at_advance, simp)+

lemma at_cstring: "at (s @ CHR 0x00 # t) r \<Longrightarrow> at t (advance (length s + 1) r)"
  using at_advance [of "s @ [CHR 0x00]" t r "length s + 1"] by simp

lemma advance_advance [simp]: "advance m (advance n r) = advance (n + m) r"
  by (simp add: advance_def add.assoc)

end
