(* ===== verification/Schema_History.thy ===== *)
theory Schema_History
  imports Go_Prelude
begin

text \<open>
  The schema history store (\<^verbatim>\<open>internal/schema/history.go\<close>). The store's directory is part
  of its state: \<open>hs_disk\<close> maps a file path to its content, which is represented by the entries it
  encodes (\<open>Unreadable\<close> for a file that is not the JSON of a list of entries). A write to disk may
  fail; whether it does is an argument of the operations that write.

  The interface \<^verbatim>\<open>HistoryStore\<close> is the locale \<open>history_store\<close>: it is what the parser relies
  on, and the file store is shown to provide it.
\<close>

record ColumnDef =
  cd_Name :: gostring
  cd_TypeName :: gostring
  cd_TypeOID :: int

record HistoryEntry =
  he_Position :: gostring
  he_Schema :: gostring
  he_Table :: gostring
  he_Columns :: "ColumnDef list"
  he_Timestamp :: int

datatype history_file = Entries "HistoryEntry list" | Unreadable

record FileHistoryStore =
  hs_dir :: gostring
  hs_cache :: "gostring \<rightharpoonup> HistoryEntry list"
  hs_disk :: "gostring \<rightharpoonup> history_file"

definition NewFileHistoryStore :: "gostring \<Rightarrow> (gostring \<rightharpoonup> history_file) \<Rightarrow> FileHistoryStore" where
  "NewFileHistoryStore dir disk = \<lparr>hs_dir = dir, hs_cache = Map.empty, hs_disk = disk\<rparr>"

definition history_key :: "gostring \<Rightarrow> gostring \<Rightarrow> gostring" where
  "history_key schema table = schema @ ''.'' @ table"

definition history_path :: "FileHistoryStore \<Rightarrow> gostring \<Rightarrow> gostring" where
  "history_path s key = hs_dir s @ ''/'' @ key @ ''.json''"

text \<open>\<^verbatim>\<open>writeFile\<close> writes a temporary file and renames it: it happens whole or not at all.\<close>

definition writeFile :: "bool \<Rightarrow> gostring \<Rightarrow> FileHistoryStore \<Rightarrow> bool \<times> FileHistoryStore" where
  "writeFile io_ok key s =
     (if io_ok
      then (True, s\<lparr>hs_disk := (hs_disk s)(history_path s key \<mapsto>
              Entries (case hs_cache s key of None \<Rightarrow> [] | Some es \<Rightarrow> es))\<rparr>)
      else (False, s))"

definition History_Save :: "int \<Rightarrow> bool \<Rightarrow> HistoryEntry \<Rightarrow> FileHistoryStore \<Rightarrow> bool \<times> FileHistoryStore" where
  "History_Save now io_ok entry s =
     (let entry = (if he_Timestamp entry = 0 then entry\<lparr>he_Timestamp := now\<rparr> else entry);
          key = history_key (he_Schema entry) (he_Table entry);
          es = (case hs_cache s key of None \<Rightarrow> [] | Some es \<Rightarrow> es)
      in writeFile io_ok key (s\<lparr>hs_cache := (hs_cache s)(key \<mapsto> es @ [entry])\<rparr>))"

definition loadEntries :: "gostring \<Rightarrow> FileHistoryStore \<Rightarrow> HistoryEntry list option \<times> FileHistoryStore" where
  "loadEntries key s = (case hs_cache s key of
      Some cached \<Rightarrow> (Some cached, s)
    | None \<Rightarrow>
        (case hs_disk s (history_path s key) of
           None \<Rightarrow> (Some [], s)
         | Some Unreadable \<Rightarrow> (None, s)
         | Some (Entries es) \<Rightarrow> (Some es, s\<lparr>hs_cache := (hs_cache s)(key \<mapsto> es)\<rparr>)))"

text \<open>The result is \<open>None\<close> for an error; the inner option is the nil pointer.\<close>

definition GetLatest :: "gostring \<Rightarrow> gostring \<Rightarrow> FileHistoryStore \<Rightarrow> HistoryEntry option option" where
  "GetLatest schemaName table s = (case fst (loadEntries (history_key schemaName table) s) of
      None \<Rightarrow> None
    | Some es \<Rightarrow> Some (if es = [] then None else Some (last es)))"

definition GetHistory :: "gostring \<Rightarrow> gostring \<Rightarrow> FileHistoryStore \<Rightarrow> HistoryEntry list option" where
  "GetHistory schemaName table s = fst (loadEntries (history_key schemaName table) s)"

subsection \<open>The interface\<close>

locale history_store =
  fixes save :: "HistoryEntry \<Rightarrow> 's \<Rightarrow> 's"
    and latest :: "gostring \<Rightarrow> gostring \<Rightarrow> 's \<Rightarrow> HistoryEntry option option"
    and key_of :: "gostring \<Rightarrow> gostring \<Rightarrow> 'k"
  assumes latest_save: "\<exists>t. latest (he_Schema e) (he_Table e) (save e s) = Some (Some (e\<lparr>he_Timestamp := t\<rparr>))"
    and latest_save_other: "key_of a b \<noteq> key_of (he_Schema e) (he_Table e) \<Longrightarrow> latest a b (save e s) = latest a b s"
begin

lemma latest_columns:
  "\<exists>e'. latest (he_Schema e) (he_Table e) (save e s) = Some (Some e') \<and> he_Columns e' = he_Columns e"
  using latest_save [of e s] by (metis HistoryEntry.select_convs(4) HistoryEntry.surjective HistoryEntry.update_convs(5))

lemma latest_after_saves:
  assumes "\<forall>e' \<in> set es. key_of (he_Schema e') (he_Table e') \<noteq> key_of (he_Schema e) (he_Table e)"
  shows "\<exists>e'. latest (he_Schema e) (he_Table e) (fold save es (save e s)) = Some (Some e') \<and> he_Columns e' = he_Columns e"
  using assms
proof (induction es rule: rev_induct)
  case (snoc x xs)
  then show ?case using latest_save_other [of "he_Schema e" "he_Table e" x] by (auto dest: not_sym)
qed (simp add: latest_columns)

end

lemma Save_other:
  assumes "k \<noteq> history_key (he_Schema e) (he_Table e)"
  shows "hs_cache (snd (History_Save now io_ok e s)) k = hs_cache s k"
    and "hs_disk (snd (History_Save now io_ok e s)) (history_path (snd (History_Save now io_ok e s)) k) =
         hs_disk s (history_path s k)"
  using assms by (simp_all add: History_Save_def writeFile_def Let_def history_path_def)

lemma loadEntries_cong:
  assumes "hs_cache s k = hs_cache s' k" "hs_disk s (history_path s k) = hs_disk s' (history_path s' k)"
  shows "fst (loadEntries k s) = fst (loadEntries k s')"
  using assms by (auto simp: loadEntries_def split: option.splits history_file.splits)

lemma history_path_inject: "history_path s k = history_path s k' \<longleftrightarrow> k = k'"
  by (simp add: history_path_def)

interpretation file_history: history_store "\<lambda>e s. snd (History_Save now io_ok e s)" GetLatest history_key for now io_ok
proof
  fix e :: HistoryEntry and s
  show "\<exists>t. GetLatest (he_Schema e) (he_Table e) (snd (History_Save now io_ok e s)) = Some (Some (e\<lparr>he_Timestamp := t\<rparr>))"
    by (cases "he_Timestamp e = 0"; cases io_ok)
      (auto simp: GetLatest_def History_Save_def writeFile_def loadEntries_def Let_def intro: exI [of _ "he_Timestamp e"])
next
  fix a b s and e :: HistoryEntry
  assume k: "history_key a b \<noteq> history_key (he_Schema e) (he_Table e)"
  show "GetLatest a b (snd (History_Save now io_ok e s)) = GetLatest a b s"
    unfolding GetLatest_def loadEntries_cong [OF Save_other [OF k]] ..
qed

text \<open>
  A restarted process has an empty cache. \<^verbatim>\<open>Save\<close> does not load the file first, so it replaces
  the history written by earlier processes with a single entry.
\<close>

theorem Save_after_restart_forgets:
  "hs_disk (snd (History_Save now True e (NewFileHistoryStore dir disk)))
     (dir @ ''/'' @ history_key (he_Schema e) (he_Table e) @ ''.json'') =
   Some (Entries [if he_Timestamp e = 0 then e\<lparr>he_Timestamp := now\<rparr> else e])"
  by (simp add: History_Save_def writeFile_def NewFileHistoryStore_def history_path_def Let_def)


definition demo_entry :: "gostring \<Rightarrow> HistoryEntry" where
  "demo_entry table = \<lparr>he_Position = ''0/16B3748'', he_Schema = ''public'', he_Table = table,
     he_Columns = [\<lparr>cd_Name = ''id'', cd_TypeName = [], cd_TypeOID = 23\<rparr>], he_Timestamp = 0\<rparr>"


end
