(* ===== verification/Json_Row.thy ===== *)
theory Json_Row
  imports Cdc_Event
begin

text \<open>
  Rows as JSON objects, the way the PostgreSQL parser, the MySQL handler and the chunked
  snapshot all write them: member names go through \<^verbatim>\<open>jsonutil.EscapeString\<close>, members are
  separated by a comma and a space, and each value is rendered by the component. The locale
  \<open>value_renderer\<close> is the contract of such a rendering; from it follow that a row is valid JSON
  and that a consumer who decodes it gets the columns and their rendered values back.
\<close>

definition row_object :: "('v \<Rightarrow> gostring) \<Rightarrow> (gostring \<times> 'v) list \<Rightarrow> gostring" where
  "row_object render row = json_object (map (\<lambda>(k, v). (EscapeString k, render v)) row)"

text \<open>What a decoder makes of a name: malformed bytes are replaced.\<close>

definition decoded_name :: "gostring \<Rightarrow> gostring" where
  "decoded_name k = concat (map encode_rune (runes k))"

lemma decoded_name_valid: "utf8_valid k \<Longrightarrow> decoded_name k = k"
  by (simp add: decoded_name_def encode_runes_valid)

locale value_renderer =
  fixes render :: "'v \<Rightarrow> gostring"
    and fits :: "nat \<Rightarrow> 'v \<Rightarrow> bool"
  assumes render_embeds: "fits n v \<Longrightarrow> embeds n (render v)"
    and render_strip: "fits n v \<Longrightarrow> strip (render v) = render v"
begin

lemma row_embeds: "\<forall>(k, v) \<in> set row. fits n v \<Longrightarrow> embeds (Suc n) (row_object render row)"
  unfolding row_object_def
  by (rule embeds_object) (auto simp: EscapeString_body render_embeds)

lemma row_valid:
  "\<forall>(k, v) \<in> set row. fits n v \<Longrightarrow> Suc n \<le> max_nesting_depth \<Longrightarrow> json_valid (row_object render row)"
  unfolding json_valid_def by (rule embeds_valid [OF row_embeds])

lemma row_decodes:
  assumes "\<forall>(k, v) \<in> set row. fits n v" "Suc n \<le> max_nesting_depth"
  shows "unmarshal_map (row_object render row) = Some (map (\<lambda>(k, v). (decoded_name k, render v)) row)"
proof -
  let ?ms = "map (\<lambda>(k, v). (EscapeString k, render v)) row"
  have "unmarshal_map (json_object ?ms) = Some (map (\<lambda>(k, v). (the (unquote k), v)) ?ms)"
  proof (rule unmarshal_json_object [OF _ assms(2)])
    fix k v
    assume "(k, v) \<in> set ?ms"
    then show "string_body k \<and> unquote k = Some (the (unquote k)) \<and> embeds n v \<and> strip v = v"
      using assms(1) by (auto simp: EscapeString_body unquote_EscapeString render_embeds render_strip)
  qed simp
  then show ?thesis by (simp add: row_object_def unquote_EscapeString decoded_name_def comp_def case_prod_unfold)
qed

lemma row_strip: "strip (row_object render row) = row_object render row"
  by (simp add: row_object_def strip_def json_object_sep_def is_space_def)

text \<open>An update holds two rows.\<close>

definition update_object :: "(gostring \<times> (gostring \<times> 'v) list) list \<Rightarrow> gostring" where
  "update_object images = json_object (map (\<lambda>(k, row). (k, row_object render row)) images)"

lemma update_decodes:
  assumes "set (map fst images) \<subseteq> {''old'', ''new''}" "\<forall>(i, row) \<in> set images. \<forall>(k, v) \<in> set row. fits n v"
    "Suc (Suc n) \<le> max_nesting_depth"
  shows "unmarshal_map (update_object images) = Some (map (\<lambda>(k, row). (k, row_object render row)) images)"
proof -
  let ?ms = "map (\<lambda>(k, row). (k, row_object render row)) images"
  have "unmarshal_map (json_object ?ms) = Some (map (\<lambda>(k, v). (id k, v)) ?ms)"
  proof (rule unmarshal_json_object [OF _ assms(3)])
    fix k v
    assume "(k, v) \<in> set ?ms"
    then obtain row where r: "(k, row) \<in> set images" "v = row_object render row" by auto
    have "k \<in> {''old'', ''new''}" using assms(1) r(1) by force
    then have "string_body k \<and> unquote k = Some (id k)" using field_name [of k] by auto
    moreover have "embeds (Suc n) v" using row_embeds [of row n] assms(2) r by auto
    ultimately show "string_body k \<and> unquote k = Some (id k) \<and> embeds (Suc n) v \<and> strip v = v"
      using r(2) row_strip by simp
  qed simp
  then show ?thesis by (simp add: update_object_def)
qed

lemma update_valid:
  assumes "set (map fst images) \<subseteq> {''old'', ''new''}" "\<forall>(i, row) \<in> set images. \<forall>(k, v) \<in> set row. fits n v"
    "Suc (Suc n) \<le> max_nesting_depth"
  shows "json_valid (update_object images)"
  using update_decodes [OF assms] by (auto simp: unmarshal_map_def split: if_splits)

end

text \<open>A quoted text column is read back by the consumer as the database's text.\<close>

lemma unmarshal_quoted:
  "unmarshal_string (CHR 0x22 # EscapeString v @ [CHR 0x22]) = Some (decoded_name v)"
proof -
  have "json_valid (CHR 0x22 # EscapeString v @ [CHR 0x22])"
    unfolding json_valid_def by (rule embeds_valid [OF embeds_string [OF EscapeString_body, of 0]]) simp
  moreover have "strip (CHR 0x22 # EscapeString v @ [CHR 0x22]) = CHR 0x22 # EscapeString v @ [CHR 0x22]"
    by (rule strip_no_space) (auto simp: is_space_def)
  ultimately show ?thesis
    by (simp add: unmarshal_string_def butlast_append unquote_EscapeString decoded_name_def)
qed

end
