(* ===== verification/Pg_Parser.thy ===== *)
theory Pg_Parser
  imports Pg_Reader Cdc_Service Schema_History Json_Row
begin

text \<open>
  The decoder of the pgoutput protocol (\<^verbatim>\<open>internal/postgres/parser.go\<close>). \<open>Parse\<close> returns the
  event, the events passed to \<^verbatim>\<open>eventHandler\<close> before it (a TRUNCATE of several tables), and the
  parser with its updated relation map. The clock and the outcome of a write of the schema history
  are arguments. Logging has no effect on the state.
\<close>

definition pgEpochOffsetMillis :: int where
  "pgEpochOffsetMillis = 946684800000"

definition ddlLogTable :: gostring where
  "ddlLogTable = ''_cdc_ddl_log''"

definition slotOwnersTable :: gostring where
  "slotOwnersTable = ''excalibase_cdc_slot_owners''"

definition isNumericOID :: "nat \<Rightarrow> bool" where
  "isNumericOID oid \<longleftrightarrow> oid \<in> {20, 21, 23, 26, 700, 701, 1700}"

definition boolOID :: nat where
  "boolOID = 16"

definition isJSONOID :: "nat \<Rightarrow> bool" where
  "isJSONOID oid \<longleftrightarrow> oid \<in> {114, 3802}"

record RelationInfo =
  ri_Namespace :: gostring
  ri_Name :: gostring
  ri_Columns :: "gostring list"
  ri_TypeOIDs :: "nat list"
  ri_KeyColumns :: "gostring list"

record Parser =
  tableFilter :: "gostring list"
  captureDDL :: bool
  schemaStore :: "FileHistoryStore option"
  relationMap :: "u32 \<rightharpoonup> RelationInfo"
  lsnProvider :: "gostring option"
  txnFinalLSN :: u64
  txnEndLSN :: u64

definition NewParser :: "gostring list \<Rightarrow> bool \<Rightarrow> FileHistoryStore option \<Rightarrow> Parser" where
  "NewParser tf ddl store = \<lparr>tableFilter = tf, captureDDL = ddl, schemaStore = store, relationMap = Map.empty,
     lsnProvider = None, txnFinalLSN = 0, txnEndLSN = 0\<rparr>"

definition TransactionLSN :: "Parser \<Rightarrow> u64" where
  "TransactionLSN p = txnFinalLSN p"

definition CommitEndLSN :: "Parser \<Rightarrow> u64" where
  "CommitEndLSN p = txnEndLSN p"

definition passesFilter :: "Parser \<Rightarrow> gostring \<Rightarrow> bool" where
  "passesFilter p tableName =
     (if tableName = slotOwnersTable then False
      else if tableFilter p = [] then True
      else tableName \<in> set (tableFilter p))"

subsection \<open>Row images\<close>

definition text_json :: "nat \<Rightarrow> gostring \<Rightarrow> gostring" where
  "text_json typeOID value =
     (if isNumericOID typeOID then value
      else if typeOID = boolOID then (if value = ''t'' then ''true'' else ''false'')
      else if isJSONOID typeOID \<and> json_valid value then value
      else CHR 0x22 # EscapeString value @ [CHR 0x22])"

definition writeTextValue :: "reader \<Rightarrow> nat \<Rightarrow> gostring \<times> reader" where
  "writeTextValue buf typeOID =
     (let (len, buf) = readUint32 buf; (value, buf) = readBytes (unat len) buf in
      (text_json typeOID value, buf))"

definition writeTupleValue :: "reader \<Rightarrow> char \<Rightarrow> nat \<Rightarrow> gostring \<times> reader" where
  "writeTupleValue buf colType typeOID =
     (if colType = CHR ''n'' then (''null'', buf)
      else if colType = CHR ''t'' then writeTextValue buf typeOID
      else (CHR 0x22 # ''unknown'' @ [CHR 0x22], buf))"

definition skipTupleValue :: "reader \<Rightarrow> char \<Rightarrow> reader" where
  "skipTupleValue buf colType =
     (if colType = CHR ''t'' then let (len, buf) = readUint32 buf in snd (readBytes (unat len) buf) else buf)"

definition col_name :: "RelationInfo \<Rightarrow> nat \<Rightarrow> gostring" where
  "col_name rel i = (if i < length (ri_Columns rel) then ri_Columns rel ! i else ''col_'' @ itoa i)"

definition col_oid :: "RelationInfo \<Rightarrow> nat \<Rightarrow> nat" where
  "col_oid rel i = (if i < length (ri_TypeOIDs rel) then ri_TypeOIDs rel ! i else 0)"

text \<open>The loop of \<^verbatim>\<open>parseTupleData\<close>: \<open>k\<close> columns are left, \<open>i\<close> is the index of the next.\<close>

fun tuple_loop :: "RelationInfo \<Rightarrow> bool \<Rightarrow> nat \<Rightarrow> nat \<Rightarrow> reader \<Rightarrow> gostring \<Rightarrow> nat \<Rightarrow> gostring \<times> reader" where
  "tuple_loop rel keysOnly 0 i buf sb written = (sb, buf)"
| "tuple_loop rel keysOnly (Suc k) i buf sb written =
     (let (colType, buf) = readByte buf; colName = col_name rel i in
      if colType = CHR ''u'' \<or> keysOnly \<and> colName \<notin> set (ri_KeyColumns rel)
      then tuple_loop rel keysOnly k (Suc i) (skipTupleValue buf colType) sb written
      else
        let typeOID = col_oid rel i;
            sb = (if written > 0 then sb @ '', '' else sb);
            (value, buf) = writeTupleValue buf colType typeOID
        in tuple_loop rel keysOnly k (Suc i) buf
             (sb @ [CHR 0x22] @ EscapeString colName @ [CHR 0x22, CHR '':''] @ value) (Suc written))"

definition parseTupleData :: "reader \<Rightarrow> RelationInfo \<Rightarrow> bool \<Rightarrow> gostring \<times> reader" where
  "parseTupleData buf rel keysOnly =
     (if remaining buf < 2 then (''{}'', buf)
      else let (numCols, buf) = readUint16 buf;
               (sb, buf) = tuple_loop rel keysOnly (unat numCols) 0 buf ''{'' 0
           in (sb @ ''}'', buf))"

subsection \<open>Messages\<close>

definition source_ts :: "u64 \<Rightarrow> int" where
  "source_ts pgMicros = pgEpochOffsetMillis + int (unat (pgMicros div 1000))"

definition parseBegin :: "int \<Rightarrow> reader \<Rightarrow> gostring \<Rightarrow> Parser \<Rightarrow> Event \<times> Parser" where
  "parseBegin now buf lsn p =
     (if remaining buf \<ge> 20
      then let (final, buf) = readUint64 buf; (micros, buf) = readUint64 buf
           in (NewEventWithSourceTS now Begin [] [] [] ''BEGIN'' lsn (source_ts micros), p\<lparr>txnFinalLSN := final\<rparr>)
      else (NewEvent now Begin [] [] [] ''BEGIN'' lsn, p))"

definition parseCommit :: "int \<Rightarrow> reader \<Rightarrow> gostring \<Rightarrow> Parser \<Rightarrow> Event \<times> Parser" where
  "parseCommit now buf lsn p =
     (if remaining buf \<ge> 25
      then let (flags, buf) = readByte buf; (commit, buf) = readUint64 buf;
               (end_lsn, buf) = readUint64 buf; (micros, buf) = readUint64 buf
           in (NewEventWithSourceTS now Commit [] [] [] ''COMMIT'' lsn (source_ts micros), p\<lparr>txnEndLSN := end_lsn\<rparr>)
      else (NewEvent now Commit [] [] [] ''COMMIT'' lsn, p\<lparr>txnEndLSN := 0\<rparr>))"

text \<open>The column loop of a RELATION message: names, type OIDs and key columns, in order.\<close>

fun relation_loop :: "nat \<Rightarrow> reader \<Rightarrow> (gostring list \<times> nat list \<times> gostring list) \<times> reader" where
  "relation_loop 0 buf = (([], [], []), buf)"
| "relation_loop (Suc k) buf =
     (let (flags, buf) = readByte buf;
          (column, buf) = readCString buf;
          (oid, buf) = readUint32 buf;
          (modifier, buf) = readUint32 buf;
          ((columns, oids, keys), buf) = relation_loop k buf
      in ((column # columns, unat oid # oids, (if byte flags mod 2 = 1 then column # keys else keys)), buf))"

definition history_entry :: "RelationInfo \<Rightarrow> gostring option \<Rightarrow> HistoryEntry" where
  "history_entry rel provider =
     \<lparr>he_Position = (case provider of None \<Rightarrow> ''unknown'' | Some l \<Rightarrow> l),
      he_Schema = ri_Namespace rel, he_Table = ri_Name rel,
      he_Columns = map2 (\<lambda>c oid. \<lparr>cd_Name = c, cd_TypeName = [], cd_TypeOID = int oid\<rparr>) (ri_Columns rel) (ri_TypeOIDs rel),
      he_Timestamp = 0\<rparr>"

definition parseRelation :: "int \<Rightarrow> bool \<Rightarrow> reader \<Rightarrow> Parser \<Rightarrow> Parser" where
  "parseRelation now io_ok buf p =
     (let (relID, buf) = readUint32 buf;
          (namespace, buf) = readCString buf;
          (name, buf) = readCString buf;
          (ident, buf) = readByte buf;
          (numCols, buf) = readUint16 buf;
          ((columns, oids, keys), buf) = relation_loop (unat numCols) buf;
          rel = \<lparr>ri_Namespace = namespace, ri_Name = name, ri_Columns = columns, ri_TypeOIDs = oids, ri_KeyColumns = keys\<rparr>
      in p\<lparr>relationMap := (relationMap p)(relID \<mapsto> rel),
           schemaStore := map_option (\<lambda>st. snd (History_Save now io_ok (history_entry rel (lsnProvider p)) st)) (schemaStore p)\<rparr>)"

definition parseInsert :: "int \<Rightarrow> reader \<Rightarrow> gostring \<Rightarrow> Parser \<Rightarrow> Event option" where
  "parseInsert now buf lsn p =
     (let (relID, buf) = readUint32 buf in
      case relationMap p relID of
        None \<Rightarrow> None
      | Some rel \<Rightarrow>
          if captureDDL p \<and> ri_Name rel = ddlLogTable
          then let (t, buf) = readByte buf; (data, buf) = parseTupleData buf rel False
               in Some (NewEvent now DDL (ri_Namespace rel) [] data ''DDL'' lsn)
          else if \<not> passesFilter p (ri_Name rel) then None
          else let (t, buf) = readByte buf; (data, buf) = parseTupleData buf rel False
               in Some ((NewEvent now Insert (ri_Namespace rel) (ri_Name rel) data ''INSERT'' lsn)
                          \<lparr>ev_KeyColumns := ri_KeyColumns rel\<rparr>))"

text \<open>
  \<^verbatim>\<open>parseUpdate\<close> builds its JSON in two steps; the tuple type of the first is put back when it
  is not an old image.
\<close>

definition update_old :: "reader \<Rightarrow> RelationInfo \<Rightarrow> gostring \<times> reader" where
  "update_old buf rel =
     (if remaining buf > 0
      then let (tupleType, buf) = readByte buf in
           if tupleType = CHR ''K'' \<or> tupleType = CHR ''O''
           then let (oldData, buf) = parseTupleData buf rel (tupleType = CHR ''K'')
                in (''{'' @ [CHR 0x22] @ ''old'' @ [CHR 0x22, CHR '':''] @ oldData, buf)
           else (''{'', buf\<lparr>rd_pos := rd_pos buf - 1\<rparr>)
      else (''{'', buf))"

definition update_new :: "gostring \<Rightarrow> reader \<Rightarrow> RelationInfo \<Rightarrow> gostring" where
  "update_new sb buf rel =
     (if remaining buf > 0
      then let (tupleType, buf) = readByte buf in
           if tupleType = CHR ''N''
           then let (newData, buf) = parseTupleData buf rel False;
                    sb = (if length sb > 1 then sb @ '', '' else sb)
                in sb @ [CHR 0x22] @ ''new'' @ [CHR 0x22, CHR '':''] @ newData @ ''}''
           else sb @ ''}''
      else sb @ ''}'')"

definition parseUpdate :: "int \<Rightarrow> reader \<Rightarrow> gostring \<Rightarrow> Parser \<Rightarrow> Event option" where
  "parseUpdate now buf lsn p =
     (let (relID, buf) = readUint32 buf in
      case relationMap p relID of
        None \<Rightarrow> None
      | Some rel \<Rightarrow>
          if \<not> passesFilter p (ri_Name rel) then None
          else let (sb, buf) = update_old buf rel
               in Some ((NewEvent now Update (ri_Namespace rel) (ri_Name rel) (update_new sb buf rel) ''UPDATE'' lsn)
                          \<lparr>ev_KeyColumns := ri_KeyColumns rel\<rparr>))"

definition parseDelete :: "int \<Rightarrow> reader \<Rightarrow> gostring \<Rightarrow> Parser \<Rightarrow> Event option" where
  "parseDelete now buf lsn p =
     (let (relID, buf) = readUint32 buf in
      case relationMap p relID of
        None \<Rightarrow> None
      | Some rel \<Rightarrow>
          if \<not> passesFilter p (ri_Name rel) then None
          else if remaining buf > 0
          then let (tupleType, buf) = readByte buf;
                   (data, buf) = parseTupleData buf rel (tupleType = CHR ''K'')
               in Some ((NewEvent now Delete (ri_Namespace rel) (ri_Name rel) data ''DELETE'' lsn)
                          \<lparr>ev_KeyColumns := ri_KeyColumns rel\<rparr>)
          else Some (NewEvent now Delete (ri_Namespace rel) (ri_Name rel) ''{}'' ''DELETE'' lsn))"

text \<open>
  The loop of \<^verbatim>\<open>parseTruncate\<close>: the first event is kept back, the others go to the handler as
  they are built (the handler is always set by the listener).
\<close>

definition truncate_event :: "int \<Rightarrow> char \<Rightarrow> RelationInfo \<Rightarrow> gostring \<Rightarrow> Event" where
  "truncate_event now options rel lsn =
     NewEvent now Truncate (ri_Namespace rel) (ri_Name rel)
       (''{'' @ [CHR 0x22] @ ''options'' @ [CHR 0x22, CHR '':''] @ itoa (byte options) @ ''}'') ''TRUNCATE'' lsn"

fun truncate_loop :: "int \<Rightarrow> char \<Rightarrow> gostring \<Rightarrow> Parser \<Rightarrow> nat \<Rightarrow> reader \<Rightarrow> Event option \<Rightarrow> Event list \<Rightarrow> Event option \<times> Event list" where
  "truncate_loop now options lsn p 0 buf first handled = (first, handled)"
| "truncate_loop now options lsn p (Suc k) buf first handled =
     (let (relID, buf) = readUint32 buf in
      case relationMap p relID of
        None \<Rightarrow> truncate_loop now options lsn p k buf first handled
      | Some rel \<Rightarrow>
          if \<not> passesFilter p (ri_Name rel) then truncate_loop now options lsn p k buf first handled
          else let e = truncate_event now options rel lsn in
            (case first of
               None \<Rightarrow> truncate_loop now options lsn p k buf (Some e) handled
             | Some f \<Rightarrow> truncate_loop now options lsn p k buf (Some f) (handled @ [e])))"

definition parseTruncate :: "int \<Rightarrow> reader \<Rightarrow> gostring \<Rightarrow> Parser \<Rightarrow> Event option \<times> Event list" where
  "parseTruncate now buf lsn p =
     (let (numRelations, buf) = readUint32 buf; (options, buf) = readByte buf
      in truncate_loop now options lsn p (unat numRelations) buf None [])"

definition Parse :: "int \<Rightarrow> bool \<Rightarrow> gostring \<Rightarrow> gostring \<Rightarrow> Parser \<Rightarrow> Event option \<times> Event list \<times> Parser" where
  "Parse now io_ok data lsn p =
     (if data = [] then (None, [], p)
      else let msgType = data ! 0; buf = \<lparr>rd_data = data, rd_pos = 1, rd_err = False\<rparr> in
        if msgType = CHR ''B'' then let (e, p) = parseBegin now buf lsn p in (Some e, [], p)
        else if msgType = CHR ''C'' then let (e, p) = parseCommit now buf lsn p in (Some e, [], p)
        else if msgType = CHR ''R'' then (None, [], parseRelation now io_ok buf p)
        else if msgType = CHR ''I'' then (parseInsert now buf lsn p, [], p)
        else if msgType = CHR ''U'' then (parseUpdate now buf lsn p, [], p)
        else if msgType = CHR ''D'' then (parseDelete now buf lsn p, [], p)
        else if msgType = CHR ''T'' then let (e, es) = parseTruncate now buf lsn p in (e, es, p)
        else (None, [], p))"

subsection \<open>Bounds\<close>

lemma reader_ok_writeTupleValue [reader_intros]:
  "reader_ok buf \<Longrightarrow> reader_ok (snd (writeTupleValue buf c oid))"
  by (auto simp: writeTupleValue_def writeTextValue_def Let_def split: prod.split)
    (metis reader_ok_readBytes reader_ok_readUint32 snd_conv)

lemma reader_ok_skipTupleValue [reader_intros]: "reader_ok buf \<Longrightarrow> reader_ok (skipTupleValue buf c)"
  by (auto simp: skipTupleValue_def split: prod.split) (metis reader_ok_readBytes reader_ok_readUint32 snd_conv)

lemma reader_ok_tuple_loop [reader_intros]:
  "reader_ok buf \<Longrightarrow> reader_ok (snd (tuple_loop rel keysOnly k i buf sb w))"
proof (induction k arbitrary: i buf sb w)
  case (Suc k)
  obtain c buf1 where c: "readByte buf = (c, buf1)" by fastforce
  obtain v buf2 where v: "writeTupleValue buf1 c (col_oid rel i) = (v, buf2)" by fastforce
  have "reader_ok buf1" using reader_ok_readByte [OF Suc.prems] c by simp
  moreover from this have "reader_ok buf2" using reader_ok_writeTupleValue v by (metis snd_conv)
  ultimately show ?case using Suc.IH c v reader_ok_skipTupleValue by (simp add: Let_def)
qed simp

lemma reader_ok_parseTupleData [reader_intros]:
  assumes "reader_ok buf"
  shows "reader_ok (snd (parseTupleData buf rel keysOnly))"
proof -
  obtain n buf1 where n: "readUint16 buf = (n, buf1)" by fastforce
  have "reader_ok buf1" using reader_ok_readUint16 [OF assms] n by simp
  then have "reader_ok (snd (tuple_loop rel keysOnly (unat n) 0 buf1 ''{'' 0))" by (rule reader_ok_tuple_loop)
  then show ?thesis using assms n by (auto simp: parseTupleData_def split: prod.split)
qed

subsection \<open>What the server sends\<close>

text \<open>
  The TupleData part of a pgoutput message: a column is NULL, an unchanged TOAST value, or text.
\<close>

datatype colval = Null | Unchanged | Text gostring

fun enc_col :: "colval \<Rightarrow> gostring" where
  "enc_col Null = ''n''"
| "enc_col Unchanged = ''u''"
| "enc_col (Text v) = CHR ''t'' # enc32 (of_nat (length v)) @ v"

definition enc_tuple :: "colval list \<Rightarrow> gostring" where
  "enc_tuple vs = enc16 (of_nat (length vs)) @ concat (map enc_col vs)"

definition col_ok :: "colval \<Rightarrow> bool" where
  "col_ok v \<longleftrightarrow> (case v of Text s \<Rightarrow> length s < 2 ^ 32 | _ \<Rightarrow> True)"

definition tuple_ok :: "colval list \<Rightarrow> bool" where
  "tuple_ok vs \<longleftrightarrow> length vs < 2 ^ 16 \<and> list_all col_ok vs"

text \<open>The members of the JSON object for a row image.\<close>

fun col_json :: "nat \<times> colval \<Rightarrow> gostring" where
  "col_json (oid, Text s) = text_json oid s"
| "col_json (oid, v) = ''null''"

definition col_written :: "RelationInfo \<Rightarrow> bool \<Rightarrow> nat \<Rightarrow> colval \<Rightarrow> bool" where
  "col_written rel keysOnly i v \<longleftrightarrow> v \<noteq> Unchanged \<and> (keysOnly \<longrightarrow> col_name rel i \<in> set (ri_KeyColumns rel))"

fun tuple_members :: "RelationInfo \<Rightarrow> bool \<Rightarrow> nat \<Rightarrow> colval list \<Rightarrow> (gostring \<times> (nat \<times> colval)) list" where
  "tuple_members rel keysOnly i [] = []"
| "tuple_members rel keysOnly i (v # vs) =
     (if col_written rel keysOnly i v then [(col_name rel i, (col_oid rel i, v))] else [])
     @ tuple_members rel keysOnly (Suc i) vs"

abbreviation row_members :: "(gostring \<times> (nat \<times> colval)) list \<Rightarrow> (gostring \<times> gostring) list" where
  "row_members \<equiv> map (\<lambda>(k, v). (EscapeString k, col_json v))"

lemma unat_length32: "n < 2 ^ 32 \<Longrightarrow> unat (of_nat n :: u32) = n"
  by (simp add: unat_of_nat)

lemma unat_length16: "n < 2 ^ 16 \<Longrightarrow> unat (of_nat n :: u16) = n"
  by (simp add: unat_of_nat)

lemma read_text:
  assumes "at (enc32 (of_nat (length v)) @ v @ t) r" "length v < 2 ^ 32"
  shows "writeTextValue r oid = (text_json oid v, advance (4 + length v) r)"
    and "snd (readBytes (unat (fst (readUint32 r))) (snd (readUint32 r))) = advance (4 + length v) r"
  using read_u32 [OF assms(1)] read_bytes [OF at_enc(2) [OF assms(1)] refl] assms(2)
  by (simp_all add: writeTextValue_def unat_length32)

lemma skip_value:
  assumes "at (tl (enc_col v) @ t) r" "col_ok v"
  shows "skipTupleValue r (hd (enc_col v)) = advance (length (enc_col v) - 1) r"
  using assms read_text(2) [of _ t r]
  by (cases v) (auto simp: skipTupleValue_def col_ok_def advance_def split: prod.split)

lemma write_value:
  assumes "at (tl (enc_col v) @ t) r" "col_ok v" "v \<noteq> Unchanged"
  shows "writeTupleValue r (hd (enc_col v)) oid = (col_json (oid, v), advance (length (enc_col v) - 1) r)"
  using assms read_text(1) [of _ t r oid]
  by (cases v) (auto simp: writeTupleValue_def col_ok_def advance_def)

definition joined :: "nat \<Rightarrow> (gostring \<times> gostring) list \<Rightarrow> gostring" where
  "joined w ms = (if ms = [] then [] else (if w > 0 then '', '' else []) @ intercalate '', '' (map json_member ms))"

lemma joined_Cons:
  "joined w (m # ms) = (if w > 0 then '', '' else []) @ json_member m @ joined (Suc w) ms"
  by (cases ms) (auto simp: joined_def)

lemma enc_col_split: "enc_col v = hd (enc_col v) # tl (enc_col v)"
  by (cases v) auto

lemma enc_col_unchanged: "hd (enc_col v) = CHR ''u'' \<longleftrightarrow> v = Unchanged"
  by (cases v) auto

lemma tuple_loop_enc:
  assumes "at (concat (map enc_col vs) @ t) r" "list_all col_ok vs"
  shows "tuple_loop rel keysOnly (length vs) i r sb w =
    (sb @ joined w (row_members (tuple_members rel keysOnly i vs)), advance (length (concat (map enc_col vs))) r)"
  using assms
proof (induction vs arbitrary: i r sb w)
  case Nil
  show ?case by (simp add: joined_def advance_def)
next
  case (Cons v vs)
  let ?c = "hd (enc_col v)" and ?rest = "concat (map enc_col vs) @ t" and ?n = "length (enc_col v)"
  have "at (enc_col v @ ?rest) r" using Cons.prems(1) by simp
  then have a: "at (?c # tl (enc_col v) @ ?rest) r" by (metis append_Cons enc_col_split)
  have b: "readByte r = (?c, advance 1 r)" using a by (rule read_byte)
  have a1: "at (tl (enc_col v) @ ?rest) (advance 1 r)" using a by (rule at_byte)
  have n: "0 < ?n" by (cases v) auto
  have a2: "at ?rest (advance ?n r)"
    using at_advance [OF a1, of "?n - 1"] n by simp
  have ok: "col_ok v" "list_all col_ok vs" using Cons.prems(2) by simp_all
  note IH = Cons.IH [OF a2 ok(2)]
  show ?case
  proof (cases "col_written rel keysOnly i v")
    case True
    have w: "writeTupleValue (advance 1 r) ?c (col_oid rel i) = (col_json (col_oid rel i, v), advance ?n r)"
      using write_value [OF a1 ok(1)] True n by (simp add: col_written_def)
    have "?c \<noteq> CHR ''u''" "\<not> (keysOnly \<and> col_name rel i \<notin> set (ri_KeyColumns rel))"
      using True by (auto simp: col_written_def enc_col_unchanged)
    then show ?thesis
      using b w IH True by (auto simp: Let_def joined_Cons json_member_def)
  next
    case False
    have "?c = CHR ''u'' \<or> keysOnly \<and> col_name rel i \<notin> set (ri_KeyColumns rel)"
      using False by (auto simp: col_written_def enc_col_unchanged)
    moreover have "skipTupleValue (advance 1 r) ?c = advance ?n r"
      using skip_value [OF a1 ok(1)] n by simp
    ultimately show ?thesis using b IH False by (simp add: Let_def)
  qed
qed

lemma parseTupleData_enc:
  assumes "at (enc_tuple vs @ t) r" "tuple_ok vs"
  shows "parseTupleData r rel keysOnly =
    (row_object col_json (tuple_members rel keysOnly 0 vs), advance (length (enc_tuple vs)) r)"
proof -
  have a: "at (enc16 (of_nat (length vs)) @ concat (map enc_col vs) @ t) r" using assms(1) by (simp add: enc_tuple_def)
  have n: "unat (of_nat (length vs) :: u16) = length vs"
    using assms(2) by (intro unat_length16) (simp add: tuple_ok_def)
  have l: "tuple_loop rel keysOnly (length vs) 0 (advance 2 r) ''{'' 0 =
      (''{'' @ joined 0 (row_members (tuple_members rel keysOnly 0 vs)), advance (length (concat (map enc_col vs))) (advance 2 r))"
    using assms(2) by (intro tuple_loop_enc [OF at_enc(1) [OF a]]) (simp add: tuple_ok_def)
  have "\<not> remaining r < 2" using at_remaining [OF a] by simp
  then show ?thesis
    using read_u16 [OF a] l n by (simp add: parseTupleData_def row_object_def json_object_sep_def joined_def enc_tuple_def)
qed

subsection \<open>Rows are valid JSON\<close>

text \<open>
  What a consumer-visible row needs: the text of a numeric column is a number in JSON's grammar
  (PostgreSQL writes finite numbers so), and a JSON column is nested at most \<open>n\<close> deep and carries no
  white space around the value (\<^verbatim>\<open>jsonb\<close> is normalised by the server).
\<close>

fun pg_fits :: "nat \<Rightarrow> nat \<times> colval \<Rightarrow> bool" where
  "pg_fits n (oid, Text s) \<longleftrightarrow>
     (if isNumericOID oid then json_valid_upto 0 s \<and> strip s = s
      else if isJSONOID oid \<and> json_valid s then json_valid_upto n s \<and> strip s = s
      else True)"
| "pg_fits n (oid, v) \<longleftrightarrow> True"

lemma strip_literals: "strip ''null'' = ''null''" "strip ''true'' = ''true''" "strip ''false'' = ''false''"
  by (simp_all add: strip_def is_space_def)

lemma strip_quoted_value: "strip (CHR 0x22 # v @ [CHR 0x22]) = CHR 0x22 # v @ [CHR 0x22]"
  by (rule strip_no_space) (auto simp: is_space_def)

lemma numeric_not_bool: "\<not> isNumericOID boolOID" "\<not> isJSONOID boolOID"
  by (simp_all add: isNumericOID_def isJSONOID_def boolOID_def)

interpretation pg_row: value_renderer col_json pg_fits
proof
  fix n v
  assume v: "pg_fits n v"
  obtain oid c where vc: "v = (oid, c)" by fastforce
  have "embeds n (col_json v) \<and> strip (col_json v) = col_json v"
  proof (cases c)
    case (Text s)
    have "json_valid_upto 0 s \<Longrightarrow> embeds n s" using valid_embeds embeds_mono by blast
    with Text v vc show ?thesis
      by (auto simp: text_json_def embeds_true embeds_false strip_literals strip_quoted_value
          embeds_string EscapeString_body valid_embeds numeric_not_bool split: if_splits)
  qed (use vc in \<open>simp_all add: embeds_null strip_literals\<close>)
  then show "embeds n (col_json v)" "strip (col_json v) = col_json v" by simp_all
qed

subsection \<open>Messages, encoded and parsed\<close>

definition enc_insert :: "u32 \<Rightarrow> colval list \<Rightarrow> gostring" where
  "enc_insert relID vs = CHR ''I'' # enc32 relID @ CHR ''N'' # enc_tuple vs"

definition image_tag :: "bool \<Rightarrow> char" where
  "image_tag keysOnly = (if keysOnly then CHR ''K'' else CHR ''O'')"

definition enc_delete :: "u32 \<Rightarrow> bool \<Rightarrow> colval list \<Rightarrow> gostring" where
  "enc_delete relID keysOnly vs = CHR ''D'' # enc32 relID @ image_tag keysOnly # enc_tuple vs"

definition enc_old :: "(bool \<times> colval list) option \<Rightarrow> gostring" where
  "enc_old old = (case old of None \<Rightarrow> [] | Some (keysOnly, vs) \<Rightarrow> image_tag keysOnly # enc_tuple vs)"

definition enc_update :: "u32 \<Rightarrow> (bool \<times> colval list) option \<Rightarrow> colval list \<Rightarrow> gostring" where
  "enc_update relID old new = CHR ''U'' # enc32 relID @ enc_old old @ CHR ''N'' # enc_tuple new"

lemma at_start: "at s \<lparr>rd_data = c # s, rd_pos = 1, rd_err = False\<rparr>"
  by (simp add: at_def)

lemma Parse_insert:
  assumes "relationMap p relID = Some rel" "tuple_ok vs"
  shows "Parse now io (enc_insert relID vs) lsn p =
    (if captureDDL p \<and> ri_Name rel = ddlLogTable
     then Some (NewEvent now DDL (ri_Namespace rel) [] (row_object col_json (tuple_members rel False 0 vs)) ''DDL'' lsn)
     else if passesFilter p (ri_Name rel)
     then Some ((NewEvent now Insert (ri_Namespace rel) (ri_Name rel)
            (row_object col_json (tuple_members rel False 0 vs)) ''INSERT'' lsn)\<lparr>ev_KeyColumns := ri_KeyColumns rel\<rparr>)
     else None, [], p)"
proof -
  let ?buf = "\<lparr>rd_data = enc_insert relID vs, rd_pos = 1, rd_err = False\<rparr>"
  have a: "at (enc32 relID @ CHR ''N'' # enc_tuple vs) ?buf" unfolding enc_insert_def by (rule at_start)
  note a1 = at_enc(2) [OF a]
  have a2: "at (enc_tuple vs @ []) (advance 1 (advance 4 ?buf))" using at_byte [OF a1] by simp
  have "Parse now io (enc_insert relID vs) lsn p = (parseInsert now ?buf lsn p, [], p)"
    by (simp add: Parse_def enc_insert_def)
  then show ?thesis
    using read_u32 [OF a] read_byte [OF a1] parseTupleData_enc [OF a2 assms(2), of rel] assms(1)
    by (simp add: parseInsert_def)
qed

lemma Parse_delete:
  assumes "relationMap p relID = Some rel" "tuple_ok vs"
  shows "Parse now io (enc_delete relID keysOnly vs) lsn p =
    (if passesFilter p (ri_Name rel)
     then Some ((NewEvent now Delete (ri_Namespace rel) (ri_Name rel)
            (row_object col_json (tuple_members rel keysOnly 0 vs)) ''DELETE'' lsn)\<lparr>ev_KeyColumns := ri_KeyColumns rel\<rparr>)
     else None, [], p)"
proof -
  let ?buf = "\<lparr>rd_data = enc_delete relID keysOnly vs, rd_pos = 1, rd_err = False\<rparr>"
  have a: "at (enc32 relID @ image_tag keysOnly # enc_tuple vs) ?buf" unfolding enc_delete_def by (rule at_start)
  note a1 = at_enc(2) [OF a]
  have a2: "at (enc_tuple vs @ []) (advance 1 (advance 4 ?buf))" using at_byte [OF a1] by simp
  have "Parse now io (enc_delete relID keysOnly vs) lsn p = (parseDelete now ?buf lsn p, [], p)"
    by (simp add: Parse_def enc_delete_def)
  moreover have "(image_tag keysOnly = CHR ''K'') = keysOnly" by (simp add: image_tag_def)
  ultimately show ?thesis
    using read_u32 [OF a] read_byte [OF a1] parseTupleData_enc [OF a2 assms(2), of rel] assms(1) at_remaining [OF a1]
    by (simp add: parseDelete_def)
qed

text \<open>The images of an update, as the consumer sees them.\<close>

definition update_images :: "RelationInfo \<Rightarrow> (bool \<times> colval list) option \<Rightarrow> colval list \<Rightarrow> (gostring \<times> (gostring \<times> (nat \<times> colval)) list) list" where
  "update_images rel old new =
     (case old of None \<Rightarrow> [] | Some (keysOnly, vs) \<Rightarrow> [(''old'', tuple_members rel keysOnly 0 vs)])
     @ [(''new'', tuple_members rel False 0 new)]"

lemma advance_back: "(advance 1 r)\<lparr>rd_pos := rd_pos (advance 1 r) - 1\<rparr> = r"
  by (simp add: advance_def)

lemma update_old_enc:
  assumes "at (enc_old old @ CHR ''N'' # t) r" "\<forall>k vs. old = Some (k, vs) \<longrightarrow> tuple_ok vs"
  shows "update_old r rel =
    (''{'' @ (case old of None \<Rightarrow> [] | Some (k, vs) \<Rightarrow> json_member (''old'', row_object col_json (tuple_members rel k 0 vs))),
     advance (length (enc_old old)) r)"
proof (cases old)
  case None
  then have a: "at (CHR ''N'' # t) r" using assms(1) by (simp add: enc_old_def)
  then show ?thesis
    using read_byte [OF a] at_remaining [OF a] None advance_back [of r]
    by (simp add: update_old_def enc_old_def advance_def)
next
  case (Some x)
  obtain k vs where x: "x = (k, vs)" by fastforce
  have a: "at (image_tag k # enc_tuple vs @ CHR ''N'' # t) r" using assms(1) Some x by (simp add: enc_old_def)
  have "(image_tag k = CHR ''K'') = k" "image_tag k = CHR ''K'' \<or> image_tag k = CHR ''O''" by (simp_all add: image_tag_def)
  then show ?thesis
    using read_byte [OF a] at_remaining [OF a] parseTupleData_enc [OF at_byte [OF a], of rel k] assms(2) Some x
    by (simp add: update_old_def enc_old_def json_member_def)
qed

lemma Parse_update:
  assumes "relationMap p relID = Some rel" "tuple_ok new" "\<forall>k vs. old = Some (k, vs) \<longrightarrow> tuple_ok vs"
  shows "Parse now io (enc_update relID old new) lsn p =
    (if passesFilter p (ri_Name rel)
     then Some ((NewEvent now Update (ri_Namespace rel) (ri_Name rel)
            (pg_row.update_object (update_images rel old new)) ''UPDATE'' lsn)\<lparr>ev_KeyColumns := ri_KeyColumns rel\<rparr>)
     else None, [], p)"
proof -
  let ?buf = "\<lparr>rd_data = enc_update relID old new, rd_pos = 1, rd_err = False\<rparr>"
  let ?r = "advance (length (enc_old old)) (advance 4 ?buf)"
  have a: "at (enc32 relID @ enc_old old @ CHR ''N'' # enc_tuple new) ?buf" unfolding enc_update_def by (rule at_start)
  note a1 = at_enc(2) [OF a]
  have a2: "at (CHR ''N'' # enc_tuple new @ []) ?r" using at_advance [OF a1 refl] by simp
  have n: "parseTupleData (advance 1 ?r) rel False =
      (row_object col_json (tuple_members rel False 0 new), advance (length (enc_tuple new)) (advance 1 ?r))"
    by (rule parseTupleData_enc [OF at_byte [OF a2] assms(2)])
  have "update_new sb ?r rel = (if length sb > 1 then sb @ '', '' else sb) @
      json_member (''new'', row_object col_json (tuple_members rel False 0 new)) @ ''}''" for sb
    using read_byte [OF a2] at_remaining [OF a2] n by (simp add: update_new_def json_member_def)
  moreover have "Parse now io (enc_update relID old new) lsn p = (parseUpdate now ?buf lsn p, [], p)"
    by (simp add: Parse_def enc_update_def)
  ultimately show ?thesis
    using read_u32 [OF a] update_old_enc [OF a1 assms(3), of rel] assms(1)
    by (simp add: parseUpdate_def pg_row.update_object_def update_images_def json_object_sep_def json_member_def
        split: option.splits)
qed

subsection \<open>Which columns a row image has\<close>

lemma tuple_members_iff:
  "(k, oid, v) \<in> set (tuple_members rel keysOnly i vs) \<longleftrightarrow>
     (\<exists>j < length vs. k = col_name rel (i + j) \<and> oid = col_oid rel (i + j) \<and> v = vs ! j \<and> col_written rel keysOnly (i + j) v)"
proof (induction vs arbitrary: i)
  case (Cons x xs)
  show ?case
    using Cons [of "Suc i"]
    by (auto simp: less_Suc_eq_0_disj conj_disj_distribR ex_disj_distrib)
qed simp

lemma tuple_member_names:
  "fst ` set (tuple_members rel keysOnly 0 vs) =
     col_name rel ` {j. j < length vs \<and> vs ! j \<noteq> Unchanged \<and> (keysOnly \<longrightarrow> col_name rel j \<in> set (ri_KeyColumns rel))}"
proof -
  have "x \<in> fst ` set (tuple_members rel keysOnly 0 vs) \<longleftrightarrow> (\<exists>oid v. (x, oid, v) \<in> set (tuple_members rel keysOnly 0 vs))" for x
    by force
  then show ?thesis unfolding set_eq_iff tuple_members_iff by (auto simp: col_written_def image_iff)
qed

definition columns_fit :: "nat \<Rightarrow> RelationInfo \<Rightarrow> colval list \<Rightarrow> bool" where
  "columns_fit n rel vs \<longleftrightarrow> (\<forall>j < length vs. pg_fits n (col_oid rel j, vs ! j))"

lemma columns_fit_members:
  "columns_fit n rel vs \<Longrightarrow> \<forall>(k, v) \<in> set (tuple_members rel keysOnly 0 vs). pg_fits n v"
  by (auto simp: columns_fit_def tuple_members_iff)

definition text_column :: "nat \<Rightarrow> bool" where
  "text_column oid \<longleftrightarrow> \<not> isNumericOID oid \<and> oid \<noteq> boolOID \<and> \<not> isJSONOID oid"

lemma text_column_decodes:
  "text_column oid \<Longrightarrow> utf8_valid v \<Longrightarrow> unmarshal_string (col_json (oid, Text v)) = Some v"
  by (simp add: text_column_def text_json_def unmarshal_quoted decoded_name_valid)


definition demo_relation :: RelationInfo where
  "demo_relation = \<lparr>ri_Namespace = ''public'', ri_Name = ''users'', ri_Columns = [''id'', ''name'', ''bio''],
     ri_TypeOIDs = [23, 25, 25], ri_KeyColumns = [''id'']\<rparr>"

definition demo_parser :: Parser where
  "demo_parser = (NewParser [] True None)\<lparr>relationMap := [16385 \<mapsto> demo_relation]\<rparr>"

definition demo_tuple :: "colval list" where
  "demo_tuple = [Text ''7'', Text ''Ada'', Unchanged]"

lemma demo_tuple_fits: "tuple_ok demo_tuple" "columns_fit n demo_relation demo_tuple"
proof -
  show "tuple_ok demo_tuple" by (simp add: tuple_ok_def demo_tuple_def col_ok_def)
  have "json_valid_upto 0 ''7'' \<and> strip ''7'' = ''7''" by code_simp
  then show "columns_fit n demo_relation demo_tuple"
    by (auto simp: columns_fit_def demo_tuple_def demo_relation_def col_oid_def less_Suc_eq isNumericOID_def isJSONOID_def)
qed

lemma demo_parser_simps:
  "relationMap demo_parser 16385 = Some demo_relation" "passesFilter demo_parser (ri_Name demo_relation)"
  "ri_Name demo_relation \<noteq> ddlLogTable" "\<not> svc_closed NewService"
  by (simp_all add: demo_parser_def demo_relation_def passesFilter_def slotOwnersTable_def NewParser_def
      ddlLogTable_def NewService_def)




subsection \<open>Table filter\<close>

definition event_watched :: "Parser \<Rightarrow> Event \<Rightarrow> bool" where
  "event_watched p e \<longleftrightarrow>
     (isTableEvent (ev_Type e) \<longrightarrow> ev_Table e \<noteq> slotOwnersTable \<and>
        (tableFilter p \<noteq> [] \<longrightarrow> ev_Table e \<in> set (tableFilter p))) \<and>
     (ev_Type e = DDL \<longrightarrow> captureDDL p)"

lemma passesFilter_watched: "passesFilter p t \<Longrightarrow> t \<noteq> slotOwnersTable \<and> (tableFilter p \<noteq> [] \<longrightarrow> t \<in> set (tableFilter p))"
  by (auto simp: passesFilter_def split: if_splits)

lemma event_watched_simps [simp]:
  "event_watched p ((NewEvent now t sc tb d raw l)\<lparr>ev_KeyColumns := ks\<rparr>) = event_watched p (NewEvent now t sc tb d raw l)"
  "passesFilter p tb \<Longrightarrow> t \<noteq> DDL \<Longrightarrow> event_watched p (NewEvent now t sc tb d raw l)"
  using passesFilter_watched [of p tb] by (auto simp: event_watched_def NewEvent_def)

lemma event_watched_ddl: "captureDDL p \<Longrightarrow> event_watched p (NewEvent now DDL sc tb d raw l)"
  by (simp add: event_watched_def NewEvent_def isTableEvent_def)

lemma parseBegin_watched: "event_watched p (fst (parseBegin now buf lsn q))"
  by (simp add: parseBegin_def NewEventWithSourceTS_def NewEvent_def event_watched_def isTableEvent_def split: prod.split)

lemma parseCommit_watched: "event_watched p (fst (parseCommit now buf lsn q))"
  by (simp add: parseCommit_def NewEventWithSourceTS_def NewEvent_def event_watched_def isTableEvent_def split: prod.split)

lemma parseInsert_watched: "parseInsert now buf lsn p = Some e \<Longrightarrow> event_watched p e"
  by (auto simp: parseInsert_def event_watched_ddl split: prod.splits option.splits if_splits)

lemma parseUpdate_watched: "parseUpdate now buf lsn p = Some e \<Longrightarrow> event_watched p e"
  by (auto simp: parseUpdate_def split: prod.splits option.splits if_splits)

lemma parseDelete_watched: "parseDelete now buf lsn p = Some e \<Longrightarrow> event_watched p e"
  by (auto simp: parseDelete_def split: prod.splits option.splits if_splits)

lemma truncate_loop_watched:
  assumes "\<forall>e \<in> set_option first \<union> set handled. event_watched p e"
    "truncate_loop now options lsn p k buf first handled = (e', es)"
  shows "\<forall>e \<in> set_option e' \<union> set es. event_watched p e"
  using assms
proof (induction k arbitrary: buf first handled)
  case (Suc k)
  obtain relID buf1 where r: "readUint32 buf = (relID, buf1)" by fastforce
  show ?case
  proof (cases "relationMap p relID")
    case None
    then show ?thesis using Suc r by simp
  next
    case (Some rel)
    have w: "passesFilter p (ri_Name rel) \<Longrightarrow> event_watched p (truncate_event now options rel lsn)"
      by (simp add: truncate_event_def)
    show ?thesis
    proof (cases "passesFilter p (ri_Name rel)")
      case True
      show ?thesis
      proof (cases first)
        case None
        then show ?thesis
          using Suc.IH [of "Some (truncate_event now options rel lsn)" handled buf1] Suc.prems r Some True w by simp
      next
        case (Some f)
        then show ?thesis
          using Suc.IH [of "Some f" "handled @ [truncate_event now options rel lsn]" buf1] Suc.prems r
            \<open>relationMap p relID = Some rel\<close> True w by simp
      qed
    qed (use Suc r Some in simp)
  qed
qed simp

text \<open>
  C34. Whatever bytes arrive, no row or truncate event is ever produced for the watcher's own slot
  registry or, when a table filter is configured, for a table outside it, and DDL events appear
  only when DDL capture is on.
\<close>

theorem Parse_respects_filter:
  assumes "Parse now io data lsn p = (e', es, p')"
  shows "\<forall>e \<in> set_option e' \<union> set es.
    (isTableEvent (ev_Type e) \<longrightarrow> ev_Table e \<noteq> slotOwnersTable \<and>
       (tableFilter p \<noteq> [] \<longrightarrow> ev_Table e \<in> set (tableFilter p))) \<and>
    (ev_Type e = DDL \<longrightarrow> captureDDL p)"
proof -
  let ?buf = "\<lparr>rd_data = data, rd_pos = 1, rd_err = False\<rparr>"
  consider "e' = None" "es = []"
    | "e' = Some (fst (parseBegin now ?buf lsn p))" "es = []"
    | "e' = Some (fst (parseCommit now ?buf lsn p))" "es = []"
    | "e' = parseInsert now ?buf lsn p" "es = []" | "e' = parseUpdate now ?buf lsn p" "es = []"
    | "e' = parseDelete now ?buf lsn p" "es = []" | "(e', es) = parseTruncate now ?buf lsn p"
    using assms by (auto simp: Parse_def Let_def split: prod.splits if_splits)
  then have "\<forall>e \<in> set_option e' \<union> set es. event_watched p e"
  proof cases
    case 4
    then show ?thesis using parseInsert_watched by (metis Un_iff elem_set empty_iff empty_set)
  next
    case 5
    then show ?thesis using parseUpdate_watched by (metis Un_iff elem_set empty_iff empty_set)
  next
    case 6
    then show ?thesis using parseDelete_watched by (metis Un_iff elem_set empty_iff empty_set)
  next
    case 7
    obtain n buf1 where n: "readUint32 ?buf = (n, buf1)" by fastforce
    obtain opt buf2 where o: "readByte buf1 = (opt, buf2)" by fastforce
    have "truncate_loop now opt lsn p (unat n) buf2 None [] = (e', es)"
      using 7 n o by (simp add: parseTruncate_def)
    then show ?thesis using truncate_loop_watched [of None "[]" p now opt lsn "unat n" buf2 e' es] by simp
  qed (simp_all add: parseBegin_watched parseCommit_watched)
  then show ?thesis by (simp add: event_watched_def)
qed

theorem Parse_respects_filter_witness:
  "\<exists>e. Parse 0 True (enc_insert 16385 demo_tuple) ''0/16B3748'' demo_parser = (Some e, [], demo_parser) \<and>
     isTableEvent (ev_Type e) \<and> ev_Table e \<noteq> slotOwnersTable"
proof -
  let ?e = "(NewEvent 0 Insert ''public'' ''users'' (row_object col_json (tuple_members demo_relation False 0 demo_tuple))
      ''INSERT'' ''0/16B3748'')\<lparr>ev_KeyColumns := [''id'']\<rparr>"
  have "Parse 0 True (enc_insert 16385 demo_tuple) ''0/16B3748'' demo_parser = (Some ?e, [], demo_parser)"
    using Parse_insert [OF demo_parser_simps(1) demo_tuple_fits(1), of 0 True "''0/16B3748''"] demo_parser_simps
    by (simp add: demo_relation_def)
  moreover have "isTableEvent (ev_Type ?e)" by (simp add: NewEvent_def isTableEvent_def)
  moreover from calculation Parse_respects_filter [OF calculation(1)] have "ev_Table ?e \<noteq> slotOwnersTable" by simp
  ultimately show ?thesis by blast
qed

subsection \<open>Relations\<close>

text \<open>A RELATION message: per column a flag byte, the name, the type OID and the type modifier.\<close>

type_synonym rcol = "char \<times> gostring \<times> u32 \<times> u32"

fun enc_rcol :: "rcol \<Rightarrow> gostring" where
  "enc_rcol (flags, name, oid, modifier) = flags # name @ CHR 0x00 # enc32 oid @ enc32 modifier"

definition enc_relation :: "u32 \<Rightarrow> gostring \<Rightarrow> gostring \<Rightarrow> char \<Rightarrow> rcol list \<Rightarrow> gostring" where
  "enc_relation relID namespace name ident cols =
     CHR ''R'' # enc32 relID @ namespace @ CHR 0x00 # name @ CHR 0x00 # ident # enc16 (of_nat (length cols))
     @ concat (map enc_rcol cols)"

definition relation_of :: "gostring \<Rightarrow> gostring \<Rightarrow> rcol list \<Rightarrow> RelationInfo" where
  "relation_of namespace name cols =
     \<lparr>ri_Namespace = namespace, ri_Name = name, ri_Columns = map (fst \<circ> snd) cols,
      ri_TypeOIDs = map (unat \<circ> fst \<circ> snd \<circ> snd) cols,
      ri_KeyColumns = map (fst \<circ> snd) (filter (\<lambda>(flags, c). byte flags mod 2 = 1) cols)\<rparr>"

lemma relation_loop_enc:
  assumes "at (concat (map enc_rcol cols) @ t) r" "\<forall>(f, name, c) \<in> set cols. CHR 0x00 \<notin> set name"
  shows "fst (relation_loop (length cols) r) =
    (map (fst \<circ> snd) cols, map (unat \<circ> fst \<circ> snd \<circ> snd) cols,
     map (fst \<circ> snd) (filter (\<lambda>(flags, c). byte flags mod 2 = 1) cols))"
  using assms
proof (induction cols arbitrary: r)
  case (Cons c cols)
  obtain f name oid m where c: "c = (f, name, oid, m)" by (cases c)
  have a: "at (f # name @ CHR 0x00 # enc32 oid @ enc32 m @ concat (map enc_rcol cols) @ t) r"
    using Cons.prems(1) c by simp
  note a1 = at_byte [OF a] note a2 = at_cstring [OF a1] note a3 = at_enc(2) [OF a2] note a4 = at_enc(2) [OF a3]
  have z: "CHR 0x00 \<notin> set name" using Cons.prems(2) c by auto
  have "fst (relation_loop (length cols) (advance 4 (advance 4 (advance (length name + 1) (advance 1 r))))) =
    (map (fst \<circ> snd) cols, map (unat \<circ> fst \<circ> snd \<circ> snd) cols,
     map (fst \<circ> snd) (filter (\<lambda>(flags, c). byte flags mod 2 = 1) cols))"
    by (rule Cons.IH [OF a4]) (use Cons.prems(2) in auto)
  then obtain r' where "relation_loop (length cols) (advance 4 (advance 4 (advance (length name + 1) (advance 1 r)))) =
    ((map (fst \<circ> snd) cols, map (unat \<circ> fst \<circ> snd \<circ> snd) cols,
     map (fst \<circ> snd) (filter (\<lambda>(flags, c). byte flags mod 2 = 1) cols)), r')"
    by (metis prod.collapse)
  then show ?case
    using read_byte [OF a] read_cstring [OF a1 z] read_u32 [OF a2] read_u32 [OF a3] c by simp
qed simp

lemma Parse_relation:
  assumes "CHR 0x00 \<notin> set namespace" "CHR 0x00 \<notin> set name" "length cols < 2 ^ 16"
    "\<forall>(f, cname, c) \<in> set cols. CHR 0x00 \<notin> set cname"
  shows "Parse now io (enc_relation relID namespace name ident cols) lsn p =
    (None, [], p\<lparr>relationMap := (relationMap p)(relID \<mapsto> relation_of namespace name cols),
       schemaStore := map_option (\<lambda>st. snd (History_Save now io
          (history_entry (relation_of namespace name cols) (lsnProvider p)) st)) (schemaStore p)\<rparr>)"
proof -
  let ?buf = "\<lparr>rd_data = enc_relation relID namespace name ident cols, rd_pos = 1, rd_err = False\<rparr>"
  let ?cols = "concat (map enc_rcol cols)"
  have a: "at (enc32 relID @ namespace @ CHR 0x00 # name @ CHR 0x00 # ident # enc16 (of_nat (length cols)) @ ?cols) ?buf"
    unfolding enc_relation_def by (rule at_start)
  note a1 = at_enc(2) [OF a] note a2 = at_cstring [OF a1] note a3 = at_cstring [OF a2] note a4 = at_byte [OF a3]
  have a5: "at (?cols @ []) (advance 2 (advance 1 (advance (length name + 1) (advance (length namespace + 1) (advance 4 ?buf)))))"
    using at_enc(1) [OF a4] by simp
  have n: "unat (of_nat (length cols) :: u16) = length cols" using assms(3) by (rule unat_length16)
  have "Parse now io (enc_relation relID namespace name ident cols) lsn p = (None, [], parseRelation now io ?buf p)"
    by (simp add: Parse_def enc_relation_def)
  moreover obtain r' where "relation_loop (length cols)
      (advance 2 (advance 1 (advance (length name + 1) (advance (length namespace + 1) (advance 4 ?buf))))) =
    ((map (fst \<circ> snd) cols, map (unat \<circ> fst \<circ> snd \<circ> snd) cols,
     map (fst \<circ> snd) (filter (\<lambda>(flags, c). byte flags mod 2 = 1) cols)), r')"
    using relation_loop_enc [OF a5 assms(4)] by (metis prod.collapse)
  ultimately show ?thesis
    using read_u32 [OF a] read_cstring [OF a1 assms(1)] read_cstring [OF a2 assms(2)] read_byte [OF a3]
      read_u16 [OF a4] n
    by (simp add: parseRelation_def relation_of_def Let_def)
qed

text \<open>
  A RELATION message is remembered as sent: the parser maps its id to the schema, the table,
  the columns with their type OIDs, and the columns flagged as replica identity, and forgets
  nothing else; with a history store, the latest entry of the table then has these columns.
\<close>

theorem relation_remembered:
  assumes "CHR 0x00 \<notin> set namespace" "CHR 0x00 \<notin> set name" "length cols < 2 ^ 16"
    "\<forall>(f, cname, c) \<in> set cols. CHR 0x00 \<notin> set cname"
    "Parse now io (enc_relation relID namespace name ident cols) lsn p = (e, es, p')"
  shows "e = None \<and> es = [] \<and> relationMap p' relID = Some (relation_of namespace name cols) \<and>
    (\<forall>r. r \<noteq> relID \<longrightarrow> relationMap p' r = relationMap p r) \<and>
    (\<forall>st. schemaStore p' = Some st \<longrightarrow> (\<exists>h. GetLatest namespace name st = Some (Some h) \<and>
       map cd_Name (he_Columns h) = map (fst \<circ> snd) cols \<and>
       map cd_TypeOID (he_Columns h) = map (int \<circ> unat \<circ> fst \<circ> snd \<circ> snd) cols))"
proof -
  let ?rel = "relation_of namespace name cols" and ?h = "history_entry (relation_of namespace name cols) (lsnProvider p)"
  have p': "e = None" "es = []"
    "p' = p\<lparr>relationMap := (relationMap p)(relID \<mapsto> ?rel),
       schemaStore := map_option (\<lambda>st. snd (History_Save now io ?h st)) (schemaStore p)\<rparr>"
    using Parse_relation [OF assms(1-4), of now io relID ident lsn p] assms(5) by simp_all
  have h: "he_Schema ?h = namespace" "he_Table ?h = name" by (simp_all add: history_entry_def relation_of_def)
  have "map cd_Name (he_Columns ?h) = map (fst \<circ> snd) cols"
    "map cd_TypeOID (he_Columns ?h) = map (int \<circ> unat \<circ> fst \<circ> snd \<circ> snd) cols"
    by (simp_all add: history_entry_def relation_of_def zip_map_map comp_def case_prod_unfold zip_same_conv_map)
  then have "\<exists>h. GetLatest namespace name st = Some (Some h) \<and> map cd_Name (he_Columns h) = map (fst \<circ> snd) cols \<and>
      map cd_TypeOID (he_Columns h) = map (int \<circ> unat \<circ> fst \<circ> snd \<circ> snd) cols"
    if "schemaStore p' = Some st" for st
    using that p'(3) file_history.latest_columns [of ?h now io] h by auto metis
  then show ?thesis using p' by simp
qed

definition demo_rcols :: "rcol list" where
  "demo_rcols = [(CHR 0x01, ''id'', 23, - 1), (CHR 0x00, ''name'', 25, - 1)]"

theorem relation_remembered_witness:
  "\<exists>p'. Parse 0 True (enc_relation 16385 ''public'' ''users'' CHR ''d'' demo_rcols) ''0/1'' (NewParser [] False None) =
      (None, [], p') \<and>
    relationMap p' 16385 = Some \<lparr>ri_Namespace = ''public'', ri_Name = ''users'', ri_Columns = [''id'', ''name''],
      ri_TypeOIDs = [23, 25], ri_KeyColumns = [''id'']\<rparr>"
proof -
  obtain e es p' where r: "Parse 0 True (enc_relation 16385 ''public'' ''users'' CHR ''d'' demo_rcols) ''0/1''
      (NewParser [] False None) = (e, es, p')" by (metis prod_cases3)
  have "e = None \<and> es = [] \<and> relationMap p' 16385 = Some (relation_of ''public'' ''users'' demo_rcols)"
    using relation_remembered [OF _ _ _ _ r] by (simp add: demo_rcols_def)
  then show ?thesis using r by (simp add: relation_of_def demo_rcols_def)
qed

subsection \<open>Bounds\<close>

text \<open>
  C33. Decoding a row image never reads outside the message, whatever the message holds: counts and
  lengths sent by the server are checked before use, so a truncated or corrupt message cannot
  make the decoder panic.
\<close>

theorem parseTupleData_in_bounds:
  assumes "rd_pos buf \<le> length (rd_data buf)"
  shows "rd_pos (snd (parseTupleData buf rel keysOnly)) \<le> length (rd_data (snd (parseTupleData buf rel keysOnly)))"
  using reader_ok_parseTupleData [of buf rel keysOnly] assms by (simp add: reader_ok_def)

theorem parseTupleData_in_bounds_witness:
  "rd_pos (snd (parseTupleData \<lparr>rd_data = [CHR 0xFF, CHR 0xFF, CHR ''t'', CHR 0xFF], rd_pos = 0, rd_err = False\<rparr> demo_relation True))
     \<le> length (rd_data (snd (parseTupleData \<lparr>rd_data = [CHR 0xFF, CHR 0xFF, CHR ''t'', CHR 0xFF], rd_pos = 0, rd_err = False\<rparr>
          demo_relation True)))"
  by (rule parseTupleData_in_bounds) simp

text \<open>
  The text of a numeric column is written unquoted. PostgreSQL's numeric and float types also have the
  values NaN and Infinity, which are not JSON: such a row is not accepted by the bus, and the gate
  does not wait for it.
\<close>

definition price_relation :: RelationInfo where
  "price_relation = \<lparr>ri_Namespace = ''public'', ri_Name = ''prices'', ri_Columns = [''amount''], ri_TypeOIDs = [1700],
     ri_KeyColumns = []\<rparr>"

theorem numeric_NaN_row_refused:
  assumes "relationMap p relID = Some price_relation" "Parse now io (enc_insert relID [Text ''NaN'']) lsn p = (Some e, es, p')"
  shows "\<not> fst (HandleEvent s e)"
proof -
  have t: "tuple_ok [Text ''NaN'']" by (simp add: tuple_ok_def col_ok_def)
  have "\<not> json_valid (row_object col_json (tuple_members price_relation False 0 [Text ''NaN'']))" by code_simp
  moreover have "e = (NewEvent now Insert ''public'' ''prices''
      (row_object col_json (tuple_members price_relation False 0 [Text ''NaN''])) ''INSERT'' lsn)\<lparr>ev_KeyColumns := []\<rparr>"
    using assms(2) Parse_insert [OF assms(1) t, of now io lsn]
    by (simp add: price_relation_def ddlLogTable_def split: if_splits)
  ultimately show ?thesis
    by (auto simp: HandleEvent_def accepts_def NewEvent_def isTableEvent_def row_object_def json_object_sep_def)
qed

end
