(* ===== verification/Commit_Gate.thy ===== *)
theory Commit_Gate
  imports Go_Prelude
begin

text \<open>
  What the two acknowledgement gates of the agent have in common: \<^verbatim>\<open>ackGate\<close> of the
  PostgreSQL listener and \<^verbatim>\<open>commitGate\<close> of the MySQL listener. Events are numbered as they are
  handed to the bus; a transaction boundary waits for the number of the last event handed before
  it; settling releases the boundaries whose number is acknowledged. The locale states the
  contract on the queue of waiting boundaries and derives what both listeners rely on, above all
  that a stalled publisher cannot make the queue grow beyond one entry per handed event.
\<close>

locale boundary_queue =
  fixes handed_of :: "'g \<Rightarrow> nat"
    and acked_of :: "'g \<Rightarrow> nat"
    and waiting :: "'g \<Rightarrow> nat list"
    and hand :: "'e \<Rightarrow> 'g \<Rightarrow> 'g"
    and commit :: "'p \<Rightarrow> 'g \<Rightarrow> 'g"
    and settle_of :: "'g \<Rightarrow> 'g"
  assumes hand_handed: "handed_of (hand e g) = Suc (handed_of g)"
    and hand_waiting: "waiting (hand e g) = waiting g"
    and commit_handed: "handed_of (commit p g) = handed_of g"
    and commit_waiting: "waiting (commit p g) = waiting g \<or>
          waiting (commit p g) = waiting g @ [handed_of g] \<and>
          (waiting g = [] \<or> last (waiting g) \<noteq> handed_of g)"
    and settle_handed: "handed_of (settle_of g) = handed_of g"
    and settle_acked: "acked_of (settle_of g) = acked_of g"
    and settle_waiting: "waiting (settle_of g) = dropWhile (\<lambda>n. n \<le> acked_of g) (waiting g)"
begin

definition queue_wf :: "'g \<Rightarrow> bool" where
  "queue_wf g \<longleftrightarrow> sorted_wrt (<) (waiting g) \<and> (\<forall>n \<in> set (waiting g). n \<le> handed_of g)"

lemma wf_hand: "queue_wf g \<Longrightarrow> queue_wf (hand e g)"
  by (auto simp: queue_wf_def hand_handed hand_waiting le_SucI)

lemma wf_settle: "queue_wf g \<Longrightarrow> queue_wf (settle_of g)"
  unfolding queue_wf_def settle_handed settle_waiting
  by (metis set_dropWhileD sorted_wrt_append takeWhile_dropWhile_id)

lemma wf_commit:
  assumes "queue_wf g"
  shows "queue_wf (commit p g)"
proof -
  have "n < handed_of g" if "n \<in> set (waiting g)" "last (waiting g) \<noteq> handed_of g" for n
  proof -
    have "n \<le> last (waiting g)"
      using assms that(1) unfolding queue_wf_def
      by (cases "waiting g" rule: rev_cases) (auto simp: sorted_wrt_append)
    moreover have "last (waiting g) < handed_of g"
      using assms that by (metis empty_iff empty_set last_in_set le_neq_implies_less queue_wf_def)
    ultimately show ?thesis by simp
  qed
  then show ?thesis
    using commit_waiting [of p g] assms
    by (auto simp: queue_wf_def commit_handed sorted_wrt_append)
qed

lemma sorted_bounded_length:
  assumes "sorted_wrt (<) (xs :: nat list)" "\<forall>n \<in> set xs. a < n \<and> n \<le> b"
  shows "length xs \<le> b - a"
proof -
  have "distinct xs" using assms(1) by (simp add: strict_sorted_iff)
  then have "length xs = card (set xs)" by (simp add: distinct_card)
  also have "\<dots> \<le> card {a <.. b}" by (rule card_mono) (use assms(2) in auto)
  finally show ?thesis by simp
qed

lemma settled_unacked:
  assumes "queue_wf g" "n \<in> set (waiting (settle_of g))"
  shows "acked_of g < n \<and> n \<le> handed_of g"
proof -
  have w: "sorted_wrt (<) (waiting g)" and h: "\<forall>n \<in> set (waiting g). n \<le> handed_of g"
    using assms(1) by (simp_all add: queue_wf_def)
  have "acked_of g < n" if "sorted_wrt (<) xs" "n \<in> set (dropWhile (\<lambda>n. n \<le> acked_of g) xs)" for xs
    using that by (induction xs) (auto split: if_splits)
  with w assms(2) h show ?thesis
    by (metis set_dropWhileD settle_waiting)
qed

lemma settled_bound: "queue_wf g \<Longrightarrow> length (waiting (settle_of g)) \<le> handed_of g - acked_of g"
  using settled_unacked wf_settle by (intro sorted_bounded_length) (auto simp: queue_wf_def)

lemma waiting_bound: "queue_wf g \<Longrightarrow> length (waiting g) \<le> Suc (handed_of g)"
proof -
  assume g: "queue_wf g"
  then have "distinct (waiting g)" "set (waiting g) \<subseteq> {0 .. handed_of g}"
    by (auto simp: queue_wf_def strict_sorted_iff)
  then show ?thesis
    using card_mono [of "{0 .. handed_of g}" "set (waiting g)"] by (simp add: distinct_card)
qed

lemma settled_empty: "queue_wf g \<Longrightarrow> handed_of g \<le> acked_of g \<Longrightarrow> waiting (settle_of g) = []"
  using settled_bound [of g] by simp

lemma settle_waiting_idem: "waiting (settle_of (settle_of g)) = waiting (settle_of g)"
proof -
  have "dropWhile P (dropWhile P xs) = dropWhile P xs" for P and xs :: "nat list"
    by (induction xs) auto
  then show ?thesis by (simp add: settle_waiting settle_acked)
qed

end

end
