(* ===== verification/Pg_AckGate.thy ===== *)
theory Pg_AckGate
  imports Commit_Gate Cdc_Event
begin

text \<open>
  The PostgreSQL acknowledgement gate (\<^verbatim>\<open>internal/postgres/ackgate.go\<close>): which LSN may be
  confirmed to the primary. The first part holds the gate's methods. The second part puts the
  gate into its environment, a primary that streams committed transactions in commit order, a
  bus that may refuse an event, a publisher that acknowledges in hand-off order, lost connections
  and process crashes, and shows that no position is ever confirmed before every event of every
  transaction that ends at or below it is delivered.

  LSNs are 64-bit words, compared as in Go. The counters \<^verbatim>\<open>handed\<close> and \<^verbatim>\<open>acked\<close> are
  natural numbers: they count the events of one process, far below the width of \<^verbatim>\<open>uint64\<close>.
\<close>

type_synonym LSN = u64

record pendingCommit =
  lastSequence :: nat
  commit_end :: LSN

record ackGate =
  ag_gated :: bool
  ag_acked :: nat
  ag_handed :: nat
  ag_inTxn :: bool
  ag_commits :: "pendingCommit list"
  ag_confirmable :: LSN

definition newAckGate :: ackGate where
  "newAckGate = \<lparr>ag_gated = False, ag_acked = 0, ag_handed = 0, ag_inTxn = False, ag_commits = [],
     ag_confirmable = 0\<rparr>"

definition ackGate_Enable :: "ackGate \<Rightarrow> ackGate" where
  "ackGate_Enable g = g\<lparr>ag_gated := True\<rparr>"

definition ackGate_Begin :: "ackGate \<Rightarrow> ackGate" where
  "ackGate_Begin g = g\<lparr>ag_inTxn := True\<rparr>"

definition ackGate_Hand :: "Event \<Rightarrow> ackGate \<Rightarrow> Event \<times> ackGate" where
  "ackGate_Hand event g =
     (let n = ag_handed g + 1 in (event\<lparr>ev_Sequence := n\<rparr>, g\<lparr>ag_handed := n\<rparr>))"

definition ackGate_Unhand :: "ackGate \<Rightarrow> ackGate" where
  "ackGate_Unhand g = g\<lparr>ag_handed := ag_handed g - 1\<rparr>"

definition ackGate_Committed :: "LSN \<Rightarrow> ackGate \<Rightarrow> ackGate" where
  "ackGate_Committed e g =
     (let cs = ag_commits g in
      if cs \<noteq> [] \<and> lastSequence (last cs) = ag_handed g
      then g\<lparr>ag_inTxn := False,
             ag_commits := butlast cs @ [(last cs)\<lparr>commit_end := max (commit_end (last cs)) e\<rparr>]\<rparr>
      else g\<lparr>ag_inTxn := False,
             ag_commits := cs @ [\<lparr>lastSequence = ag_handed g, commit_end = e\<rparr>]\<rparr>)"

definition ackGate_NewSession :: "ackGate \<Rightarrow> ackGate" where
  "ackGate_NewSession g = g\<lparr>ag_inTxn := False\<rparr>"

definition ackedSequence :: "ackGate \<Rightarrow> nat" where
  "ackedSequence g = (if \<not> ag_gated g then ag_handed g else ag_acked g)"

fun settle_loop :: "nat \<Rightarrow> pendingCommit list \<Rightarrow> LSN \<Rightarrow> LSN \<times> pendingCommit list" where
  "settle_loop n [] conf = (conf, [])"
| "settle_loop n (c # cs) conf =
     (if lastSequence c > n then (conf, c # cs) else settle_loop n cs (max conf (commit_end c)))"

definition settle :: "ackGate \<Rightarrow> ackGate" where
  "settle g =
     (let (conf, cs) = settle_loop (ackedSequence g) (ag_commits g) (ag_confirmable g)
      in g\<lparr>ag_confirmable := conf, ag_commits := cs\<rparr>)"

definition ackGate_Pending :: "ackGate \<Rightarrow> bool" where
  "ackGate_Pending g \<longleftrightarrow> ag_handed g > ackedSequence g"

definition ackGate_Idle :: "LSN \<Rightarrow> ackGate \<Rightarrow> ackGate" where
  "ackGate_Idle position g =
     (let g' = settle g in
      if ag_inTxn g' \<or> ag_commits g' \<noteq> [] \<or> ackGate_Pending g' then g'
      else g'\<lparr>ag_confirmable := max (ag_confirmable g') position\<rparr>)"

text \<open>The compare-and-swap loop of \<^verbatim>\<open>storeMax\<close> is one atomic update.\<close>

definition storeMax :: "nat \<Rightarrow> nat \<Rightarrow> nat" where
  "storeMax current value = (if value \<le> current then current else value)"

definition ackGate_ObservePublished :: "Event \<Rightarrow> ackGate \<Rightarrow> ackGate" where
  "ackGate_ObservePublished event g =
     (if ev_Sequence event = 0 then g else g\<lparr>ag_acked := storeMax (ag_acked g) (ev_Sequence event)\<rparr>)"

definition ackGate_Flush :: "ackGate \<Rightarrow> LSN \<times> ackGate" where
  "ackGate_Flush g = (let g' = settle g in (ag_confirmable g', g'))"

lemma ackGate_Committed_ag_confirmable [simp]: "ag_confirmable (ackGate_Committed p g) = ag_confirmable g"
  by (simp add: ackGate_Committed_def Let_def)

lemmas ackGate_defs = newAckGate_def ackGate_Enable_def ackGate_Begin_def ackGate_Hand_def
  ackGate_Unhand_def ackGate_Committed_def ackGate_NewSession_def ackGate_Idle_def
  ackGate_ObservePublished_def ackGate_Flush_def ackGate_Pending_def storeMax_def

subsection \<open>Settling\<close>

lemma settle_loop_eq:
  "settle_loop n cs conf =
     (fold max (map commit_end (takeWhile (\<lambda>c. lastSequence c \<le> n) cs)) conf,
      dropWhile (\<lambda>c. lastSequence c \<le> n) cs)"
  by (induction n cs conf rule: settle_loop.induct) (auto simp: max.commute)

lemma settle_simps [simp]:
  "ag_gated (settle g) = ag_gated g" "ag_acked (settle g) = ag_acked g"
  "ag_handed (settle g) = ag_handed g" "ag_inTxn (settle g) = ag_inTxn g"
  "ackedSequence (settle g) = ackedSequence g"
  "ag_commits (settle g) = dropWhile (\<lambda>c. lastSequence c \<le> ackedSequence g) (ag_commits g)"
  "ag_confirmable (settle g) =
     fold max (map commit_end (takeWhile (\<lambda>c. lastSequence c \<le> ackedSequence g) (ag_commits g))) (ag_confirmable g)"
  by (simp_all add: settle_def settle_loop_eq ackedSequence_def)

lemma fold_max_ge_iff: "(e :: 'a :: linorder) \<le> fold max xs x \<longleftrightarrow> e \<le> x \<or> (\<exists>y \<in> set xs. e \<le> y)"
  by (induction xs arbitrary: x) (auto simp: le_max_iff_disj)

lemma fold_max_cases: "fold max xs (x :: 'a :: linorder) = x \<or> fold max xs x \<in> set xs"
proof (induction xs arbitrary: x)
  case (Cons a xs)
  show ?case using Cons [of "max a x"] by (cases "a \<le> x") (auto simp: max_def)
qed simp

interpretation pg_queue: boundary_queue ag_handed ackedSequence "\<lambda>g. map lastSequence (ag_commits g)"
  "\<lambda>e g. snd (ackGate_Hand e g)" ackGate_Committed settle
proof unfold_locales
  fix p :: LSN and g :: ackGate
  show "map lastSequence (ag_commits (ackGate_Committed p g)) = map lastSequence (ag_commits g) \<or>
     map lastSequence (ag_commits (ackGate_Committed p g)) = map lastSequence (ag_commits g) @ [ag_handed g] \<and>
     (map lastSequence (ag_commits g) = [] \<or> last (map lastSequence (ag_commits g)) \<noteq> ag_handed g)"
    by (cases "ag_commits g" rule: rev_cases) (auto simp: ackGate_Committed_def Let_def)
next
  fix g
  show "map lastSequence (ag_commits (settle g)) =
      dropWhile (\<lambda>n. n \<le> ackedSequence g) (map lastSequence (ag_commits g))"
    by (simp add: dropWhile_map comp_def)
qed (auto simp: ackGate_defs Let_def)

subsection \<open>The gate in its environment\<close>

text \<open>
  A write-ahead log is the list of committed transactions in commit order; of each it matters
  where its commit ends and how many publishable events it has. Event \<open>(j, k)\<close> is the
  \<open>k\<close>-th event of transaction \<open>j\<close>. Ghost state of a system: \<open>next_txn\<close>, \<open>inside\<close> and
  \<open>sent\<close> say where the primary is in the stream; \<open>log\<close> is the events the bus accepted in
  this process, in sequence order; \<open>delivered\<close> is the events stored by JetStream, in any process;
  \<open>refused\<close> is the events the bus rejected as invalid; \<open>confirmed\<close> is the highest position
  the primary was told.
\<close>

record txn =
  t_end :: LSN
  t_count :: nat

definition wal_ok :: "txn list \<Rightarrow> bool" where
  "wal_ok W \<longleftrightarrow> sorted_wrt (<) (map t_end W) \<and> (\<forall>t \<in> set W. 0 < t_end t)"

record pgsys =
  gate :: ackGate
  next_txn :: nat
  inside :: bool
  sent :: nat
  log :: "(nat \<times> nat) list"
  delivered :: "(nat \<times> nat) set"
  refused :: "(nat \<times> nat) set"
  confirmed :: LSN

definition pgsys_init :: pgsys where
  "pgsys_init = \<lparr>gate = ackGate_Enable newAckGate, next_txn = 0, inside = False, sent = 0, log = [],
     delivered = {}, refused = {}, confirmed = 0\<rparr>"

text \<open>
  The primary's side of the protocol. A keepalive carries a position below the end of every
  transaction that has not been streamed; while a transaction is being streamed its own commit may
  lie below the position. A session starts at a transaction before which everything ends at or
  below the confirmed position.
\<close>

definition keepalive_ok :: "txn list \<Rightarrow> pgsys \<Rightarrow> LSN \<Rightarrow> bool" where
  "keepalive_ok W s p \<longleftrightarrow>
     (\<forall>j < length W. next_txn s + (if inside s then 1 else 0) \<le> j \<longrightarrow> p < t_end (W ! j))"

definition resume_ok :: "txn list \<Rightarrow> pgsys \<Rightarrow> nat \<Rightarrow> bool" where
  "resume_ok W s k \<longleftrightarrow> k \<le> length W \<and> (\<forall>j < k. t_end (W ! j) \<le> confirmed s)"

inductive pg_step :: "txn list \<Rightarrow> pgsys \<Rightarrow> pgsys \<Rightarrow> bool" for W where
  txn_begin: "\<not> inside s \<Longrightarrow> next_txn s < length W \<Longrightarrow>
     pg_step W s (s\<lparr>gate := ackGate_Begin (gate s), inside := True, sent := 0\<rparr>)"
| change: "inside s \<Longrightarrow> sent s < t_count (W ! next_txn s) \<Longrightarrow>
     pg_step W s (s\<lparr>gate := snd (ackGate_Hand e (gate s)), log := log s @ [(next_txn s, sent s)],
                    sent := Suc (sent s)\<rparr>)"
| refuse: "inside s \<Longrightarrow> sent s < t_count (W ! next_txn s) \<Longrightarrow>
     pg_step W s (s\<lparr>gate := ackGate_Unhand (snd (ackGate_Hand e (gate s))),
                    refused := insert (next_txn s, sent s) (refused s), sent := Suc (sent s)\<rparr>)"
| commit: "inside s \<Longrightarrow> sent s = t_count (W ! next_txn s) \<Longrightarrow>
     pg_step W s (s\<lparr>gate := ackGate_Committed (t_end (W ! next_txn s)) (gate s), inside := False,
                    next_txn := Suc (next_txn s)\<rparr>)"
| keepalive: "keepalive_ok W s p \<Longrightarrow> pg_step W s (s\<lparr>gate := ackGate_Idle p (gate s)\<rparr>)"
| ack: "ag_acked (gate s) < length (log s) \<Longrightarrow> ev_Sequence e = Suc (ag_acked (gate s)) \<Longrightarrow>
     pg_step W s (s\<lparr>gate := ackGate_ObservePublished e (gate s),
                    delivered := insert (log s ! ag_acked (gate s)) (delivered s)\<rparr>)"
| ack_again: "ev_Sequence e \<le> ag_acked (gate s) \<Longrightarrow>
     pg_step W s (s\<lparr>gate := ackGate_ObservePublished e (gate s)\<rparr>)"
| status: "ackGate_Flush (gate s) = (f, g') \<Longrightarrow>
     pg_step W s (s\<lparr>gate := g', confirmed := max (confirmed s) f\<rparr>)"
| flush_unsent: "pg_step W s (s\<lparr>gate := snd (ackGate_Flush (gate s))\<rparr>)"
| reconnect: "resume_ok W s k \<Longrightarrow>
     pg_step W s (s\<lparr>gate := ackGate_NewSession (gate s), next_txn := k, inside := False, sent := 0\<rparr>)"
| crash: "resume_ok W s k \<Longrightarrow>
     pg_step W s (s\<lparr>gate := ackGate_Enable newAckGate, next_txn := k, inside := False, sent := 0, log := []\<rparr>)"

abbreviation pg_reach :: "txn list \<Rightarrow> pgsys \<Rightarrow> pgsys \<Rightarrow> bool" where
  "pg_reach W \<equiv> (pg_step W)\<^sup>*\<^sup>*"

text \<open>Every event of every transaction that ends at or below \<open>p\<close> is in \<open>X\<close>.\<close>

definition covers :: "txn list \<Rightarrow> LSN \<Rightarrow> (nat \<times> nat) set \<Rightarrow> bool" where
  "covers W p X \<longleftrightarrow> (\<forall>j < length W. t_end (W ! j) \<le> p \<longrightarrow> (\<forall>k < t_count (W ! j). (j, k) \<in> X))"

definition settled_set :: "pgsys \<Rightarrow> (nat \<times> nat) set" where
  "settled_set s = delivered s \<union> refused s"

definition pg_inv :: "txn list \<Rightarrow> pgsys \<Rightarrow> bool" where
  "pg_inv W s \<longleftrightarrow>
     ag_gated (gate s) \<and> ag_handed (gate s) = length (log s) \<and> ag_acked (gate s) \<le> length (log s) \<and>
     ag_inTxn (gate s) = inside s \<and> set (take (ag_acked (gate s)) (log s)) \<subseteq> delivered s \<and>
     (\<forall>c \<in> set (ag_commits (gate s)). lastSequence c \<le> length (log s) \<and>
        covers W (commit_end c) (set (take (lastSequence c) (log s)) \<union> settled_set s)) \<and>
     covers W (ag_confirmable (gate s)) (settled_set s) \<and> covers W (confirmed s) (settled_set s) \<and>
     (\<forall>j < next_txn s. \<forall>k < t_count (W ! j). (j, k) \<in> set (log s) \<union> settled_set s) \<and>
     (inside s \<longrightarrow> next_txn s < length W \<and> (\<forall>k < sent s. (next_txn s, k) \<in> set (log s) \<union> settled_set s))"

lemma covers_mono: "covers W p X \<Longrightarrow> X \<subseteq> Y \<Longrightarrow> covers W p Y"
  by (auto simp: covers_def)

lemma covers_max: "covers W p X \<Longrightarrow> covers W q X \<Longrightarrow> covers W (max p q) X"
  by (auto simp: covers_def max_def)

lemma covers_fold_max: "covers W p X \<Longrightarrow> \<forall>q \<in> set qs. covers W q X \<Longrightarrow> covers W (fold max qs p) X"
  using fold_max_cases [of qs p] by auto

lemma covers_zero: "wal_ok W \<Longrightarrow> covers W 0 X"
  by (auto simp: covers_def wal_ok_def dest!: nth_mem)

lemma wal_before:
  assumes "wal_ok W" "j < length W" "i < length W" "t_end (W ! j) \<le> t_end (W ! i)"
  shows "j \<le> i"
proof (rule ccontr)
  assume "\<not> j \<le> i"
  then have "t_end (W ! i) < t_end (W ! j)"
    using assms(1-3) by (auto simp: wal_ok_def sorted_wrt_iff_nth_less)
  then show False using assms(4) by simp
qed

lemma pg_inv_init: "wal_ok W \<Longrightarrow> pg_inv W pgsys_init"
  by (simp add: pg_inv_def pgsys_init_def ackGate_defs covers_zero)

text \<open>Settling releases only commits whose events are all delivered or refused.\<close>

lemma settle_covers:
  assumes "pg_inv W s"
  shows "covers W (ag_confirmable (settle (gate s))) (settled_set s)"
  unfolding settle_simps
proof (rule covers_fold_max)
  let ?n = "ag_acked (gate s)"
  have a: "ackedSequence (gate s) = ?n" using assms by (simp add: pg_inv_def ackedSequence_def)
  show "covers W (ag_confirmable (gate s)) (settled_set s)" using assms by (simp add: pg_inv_def)
  have "covers W (commit_end c) (settled_set s)" if "c \<in> set (ag_commits (gate s))" "lastSequence c \<le> ?n" for c
  proof (rule covers_mono)
    show "covers W (commit_end c) (set (take (lastSequence c) (log s)) \<union> settled_set s)"
      using assms that(1) by (simp add: pg_inv_def)
    have "set (take (lastSequence c) (log s)) \<subseteq> set (take ?n (log s))"
      using that(2) by (rule set_take_subset_set_take)
    then show "set (take (lastSequence c) (log s)) \<union> settled_set s \<subseteq> settled_set s"
      using assms by (auto simp: pg_inv_def settled_set_def)
  qed
  then show "\<forall>q \<in> set (map commit_end (takeWhile (\<lambda>c. lastSequence c \<le> ackedSequence (gate s)) (ag_commits (gate s)))).
      covers W q (settled_set s)"
    unfolding a by (auto dest: set_takeWhileD)
qed

lemma pg_inv_settle: "pg_inv W s \<Longrightarrow> pg_inv W (s\<lparr>gate := settle (gate s)\<rparr>)"
  using settle_covers [of W s]
  by (auto simp: pg_inv_def settled_set_def dest: set_dropWhileD)

lemma pg_inv_idle:
  assumes s: "pg_inv W s" and p: "keepalive_ok W s p"
  shows "pg_inv W (s\<lparr>gate := ackGate_Idle p (gate s)\<rparr>)"
proof (cases "ag_inTxn (settle (gate s)) \<or> ag_commits (settle (gate s)) \<noteq> [] \<or> ackGate_Pending (settle (gate s))")
  case True
  then show ?thesis using pg_inv_settle [OF s] by (simp only: ackGate_Idle_def Let_def if_True)
next
  case False
  let ?g = "settle (gate s)"
  let ?s = "s\<lparr>gate := ?g\<rparr>"
  have out: "\<not> inside s" using s False by (simp add: pg_inv_def)
  have "ag_acked (gate s) = length (log s)"
    using s False by (simp add: pg_inv_def ackGate_Pending_def ackedSequence_def)
  then have del: "set (log s) \<subseteq> delivered s" using s by (simp add: pg_inv_def)
  have "(j, k) \<in> settled_set s" if "j < length W" "t_end (W ! j) \<le> p" "k < t_count (W ! j)" for j k
  proof -
    have "j < next_txn s" using p that(1,2) out by (force simp: keepalive_ok_def)
    then have "(j, k) \<in> set (log s) \<union> settled_set s" using s that(3) unfolding pg_inv_def by blast
    then show ?thesis using del by (auto simp: settled_set_def)
  qed
  then have "covers W p (settled_set s)" by (simp add: covers_def)
  then have "covers W (max (ag_confirmable ?g) p) (settled_set s)"
    using settle_covers [OF s] by (rule covers_max [rotated])
  moreover have "pg_inv W (?s\<lparr>gate := (gate ?s)\<lparr>ag_confirmable := c\<rparr>\<rparr>)" if "covers W c (settled_set s)" for c
    using pg_inv_settle [OF s] that unfolding pg_inv_def by (simp add: settled_set_def)
  ultimately show ?thesis using False by (simp add: ackGate_Idle_def Let_def)
qed

lemma pg_inv_change:
  assumes s: "pg_inv W s" and i: "inside s" "sent s < t_count (W ! next_txn s)"
  shows "pg_inv W (s\<lparr>gate := snd (ackGate_Hand e (gate s)), log := log s @ [(next_txn s, sent s)],
                     sent := Suc (sent s)\<rparr>)"
proof -
  have "covers W (commit_end c) (set (take (lastSequence c) (log s @ [x])) \<union> settled_set s)"
    if "c \<in> set (ag_commits (gate s))" for c x
    using s that by (simp add: pg_inv_def)
  then show ?thesis
    using s i by (auto simp: pg_inv_def ackGate_Hand_def Let_def settled_set_def less_Suc_eq le_SucI)
qed

lemma Unhand_Hand: "ackGate_Unhand (snd (ackGate_Hand e g)) = g"
  by (simp add: ackGate_Unhand_def ackGate_Hand_def Let_def)

lemma pg_inv_refuse:
  assumes s: "pg_inv W s" and i: "inside s" "sent s < t_count (W ! next_txn s)"
  shows "pg_inv W (s\<lparr>gate := ackGate_Unhand (snd (ackGate_Hand e (gate s))),
                     refused := insert (next_txn s, sent s) (refused s), sent := Suc (sent s)\<rparr>)"
proof -
  let ?X = "settled_set s" and ?Y = "settled_set (s\<lparr>refused := insert (next_txn s, sent s) (refused s)\<rparr>)"
  have "X \<union> ?X \<subseteq> X \<union> ?Y" "?X \<subseteq> ?Y" for X by (auto simp: settled_set_def)
  note covers_mono [OF _ this(1)] covers_mono [OF _ this(2)]
  then show ?thesis
    using s i unfolding pg_inv_def Unhand_Hand by (auto simp: settled_set_def less_Suc_eq)
qed

lemma pg_inv_streamed:
  assumes "pg_inv W s"
  shows "j < next_txn s \<Longrightarrow> k < t_count (W ! j) \<Longrightarrow> (j, k) \<in> set (log s) \<union> settled_set s"
    and "inside s \<Longrightarrow> k < sent s \<Longrightarrow> (next_txn s, k) \<in> set (log s) \<union> settled_set s"
  using assms unfolding pg_inv_def by blast+

lemma pg_inv_commit:
  assumes W: "wal_ok W" and s: "pg_inv W s" and i: "inside s" "sent s = t_count (W ! next_txn s)"
  shows "pg_inv W (s\<lparr>gate := ackGate_Committed (t_end (W ! next_txn s)) (gate s), inside := False,
                     next_txn := Suc (next_txn s)\<rparr>)"
proof -
  let ?e = "t_end (W ! next_txn s)" and ?n = "length (log s)" and ?cs = "ag_commits (gate s)"
  let ?g = "ackGate_Committed ?e (gate s)"
  have n: "next_txn s < length W" using s i(1) by (simp add: pg_inv_def)
  have streamed: "(j, k) \<in> set (log s) \<union> settled_set s" if "j \<le> next_txn s" "k < t_count (W ! j)" for j k
    using pg_inv_streamed [OF s] i that by (cases "j = next_txn s") auto
  have e: "covers W ?e (set (take ?n (log s)) \<union> settled_set s)"
    unfolding covers_def using streamed wal_before [OF W _ n] by simp
  have "lastSequence c \<le> ?n \<and> covers W (commit_end c) (set (take (lastSequence c) (log s)) \<union> settled_set s)"
    if c: "c \<in> set (ag_commits ?g)" for c
  proof -
    have h: "ag_handed (gate s) = ?n" using s by (simp add: pg_inv_def)
    have old: "lastSequence c' \<le> ?n \<and> covers W (commit_end c') (set (take (lastSequence c') (log s)) \<union> settled_set s)"
      if "c' \<in> set ?cs" for c'
      using s that by (simp add: pg_inv_def)
    consider "c \<in> set ?cs" | "c = \<lparr>lastSequence = ?n, commit_end = ?e\<rparr>"
      | "?cs \<noteq> []" "lastSequence (last ?cs) = ?n" "c = (last ?cs)\<lparr>commit_end := max (commit_end (last ?cs)) ?e\<rparr>"
      using c h by (auto simp: ackGate_Committed_def Let_def dest: in_set_butlastD split: if_splits)
    then show ?thesis
    proof cases
      case 3
      have "covers W (commit_end (last ?cs)) (set (take ?n (log s)) \<union> settled_set s)"
        using old [OF last_in_set [OF 3(1)]] 3(2) by simp
      then show ?thesis using covers_max [OF _ e] 3(2,3) by simp
    qed (use old e in simp_all)
  qed
  then show ?thesis
    using s streamed unfolding pg_inv_def
    by (auto simp: ackGate_Committed_def Let_def settled_set_def less_Suc_eq_le)
qed

lemma pg_inv_ack:
  assumes s: "pg_inv W s" and a: "ag_acked (gate s) < length (log s)" "ev_Sequence e = Suc (ag_acked (gate s))"
  shows "pg_inv W (s\<lparr>gate := ackGate_ObservePublished e (gate s),
                     delivered := insert (log s ! ag_acked (gate s)) (delivered s)\<rparr>)"
proof -
  let ?X = "settled_set s" and ?Y = "settled_set (s\<lparr>delivered := insert (log s ! ag_acked (gate s)) (delivered s)\<rparr>)"
  have "X \<union> ?X \<subseteq> X \<union> ?Y" "?X \<subseteq> ?Y" for X by (auto simp: settled_set_def)
  note covers_mono [OF _ this(1)] covers_mono [OF _ this(2)]
  then show ?thesis
    using s a unfolding pg_inv_def
    by (auto simp: settled_set_def ackGate_ObservePublished_def storeMax_def take_Suc_conv_app_nth)
qed

lemma resume_streamed:
  assumes "pg_inv W s" "resume_ok W s k" "j < k" "i < t_count (W ! j)"
  shows "(j, i) \<in> settled_set s"
  using assms unfolding pg_inv_def resume_ok_def covers_def by fastforce

lemma pg_inv_step:
  assumes W: "wal_ok W" and st: "pg_step W s s'" and s: "pg_inv W s"
  shows "pg_inv W s'"
  using st
proof (cases rule: pg_step.cases)
  case txn_begin
  then show ?thesis using s by (simp add: pg_inv_def ackGate_Begin_def settled_set_def)
next
  case (change e)
  then show ?thesis using pg_inv_change [OF s] by simp
next
  case (refuse e)
  then show ?thesis using pg_inv_refuse [OF s] by simp
next
  case commit
  then show ?thesis using pg_inv_commit [OF W s] by simp
next
  case (keepalive p)
  then show ?thesis using pg_inv_idle [OF s] by simp
next
  case (ack e)
  then show ?thesis using pg_inv_ack [OF s] by simp
next
  case (ack_again e)
  then have "ackGate_ObservePublished e (gate s) = gate s"
    by (simp add: ackGate_ObservePublished_def storeMax_def)
  then show ?thesis using ack_again s by simp
next
  case (status f g')
  then have "g' = settle (gate s)" "f = ag_confirmable (settle (gate s))"
    by (auto simp: ackGate_Flush_def Let_def)
  then show ?thesis
    using pg_inv_settle [OF s] settle_covers [OF s] status(1) covers_max
    by (simp add: pg_inv_def settled_set_def del: settle_simps(7))
next
  case flush_unsent
  then show ?thesis using pg_inv_settle [OF s] by (simp add: ackGate_Flush_def Let_def)
next
  case (reconnect k)
  then show ?thesis
    using s resume_streamed [OF s reconnect(2)] by (simp add: pg_inv_def ackGate_NewSession_def settled_set_def)
next
  case (crash k)
  then show ?thesis
    using s resume_streamed [OF s crash(2)] covers_zero [OF W]
    by (simp add: pg_inv_def ackGate_Enable_def newAckGate_def settled_set_def)
qed

lemma pg_inv_reach: "wal_ok W \<Longrightarrow> pg_reach W s s' \<Longrightarrow> pg_inv W s \<Longrightarrow> pg_inv W s'"
  by (rotate_tac 1, induction rule: rtranclp_induct) (auto intro: pg_inv_step)

subsection \<open>Monotonicity and progress\<close>

datatype gate_op =
    OpBegin
  | OpHand Event
  | OpRefused Event
  | OpCommitted LSN
  | OpNewSession
  | OpIdle LSN
  | OpObserve Event
  | OpFlush

primrec gate_do :: "gate_op \<Rightarrow> ackGate \<Rightarrow> ackGate" where
  "gate_do OpBegin g = ackGate_Begin g"
| "gate_do (OpHand e) g = snd (ackGate_Hand e g)"
| "gate_do (OpRefused e) g = ackGate_Unhand (snd (ackGate_Hand e g))"
| "gate_do (OpCommitted p) g = ackGate_Committed p g"
| "gate_do OpNewSession g = ackGate_NewSession g"
| "gate_do (OpIdle p) g = ackGate_Idle p g"
| "gate_do (OpObserve e) g = ackGate_ObservePublished e g"
| "gate_do OpFlush g = snd (ackGate_Flush g)"

lemma wf_cong:
  "ag_handed g' = ag_handed g \<Longrightarrow> ag_commits g' = ag_commits g \<Longrightarrow> pg_queue.queue_wf g \<Longrightarrow> pg_queue.queue_wf g'"
  by (simp add: pg_queue.queue_wf_def)

lemma wf_gate_do: "pg_queue.queue_wf g \<Longrightarrow> pg_queue.queue_wf (gate_do x g)"
proof (cases x)
  case (OpIdle p)
  assume "pg_queue.queue_wf g"
  then have "pg_queue.queue_wf (settle g)" by (rule pg_queue.wf_settle)
  moreover have "ag_handed (ackGate_Idle p g) = ag_handed (settle g)"
    "ag_commits (ackGate_Idle p g) = ag_commits (settle g)"
    by (simp_all add: ackGate_Idle_def Let_def)
  ultimately show ?thesis using OpIdle wf_cong by (metis gate_do.simps(6))
qed (auto simp: pg_queue.wf_hand pg_queue.wf_commit pg_queue.wf_settle Unhand_Hand ackGate_Flush_def Let_def
    ackGate_Begin_def ackGate_NewSession_def ackGate_ObservePublished_def elim: wf_cong [rotated 2])

lemma wf_gate_run: "pg_queue.queue_wf g \<Longrightarrow> pg_queue.queue_wf (fold gate_do xs g)"
  by (induction xs arbitrary: g) (auto simp: wf_gate_do)

lemma wf_newAckGate: "pg_queue.queue_wf (ackGate_Enable newAckGate)"
  by (simp add: pg_queue.queue_wf_def ackGate_defs)

lemma sorted_takeWhile:
  "sorted_wrt (<) (map f cs) \<Longrightarrow> c \<in> set (takeWhile (\<lambda>c. f c \<le> n) cs) \<longleftrightarrow> c \<in> set cs \<and> f c \<le> (n :: nat)"
  by (induction cs) auto

lemma Flush_ge_iff:
  assumes "pg_queue.queue_wf g"
  shows "e \<le> fst (ackGate_Flush g) \<longleftrightarrow> e \<le> ag_confirmable g \<or>
           (\<exists>c \<in> set (ag_commits g). lastSequence c \<le> ackedSequence g \<and> e \<le> commit_end c)"
proof -
  let ?w = "takeWhile (\<lambda>c. lastSequence c \<le> ackedSequence g) (ag_commits g)"
  have "e \<le> fold max (map commit_end ?w) (ag_confirmable g) \<longleftrightarrow>
      e \<le> ag_confirmable g \<or> (\<exists>c \<in> set ?w. e \<le> commit_end c)"
    by (simp add: fold_max_ge_iff)
  moreover have "c \<in> set ?w \<longleftrightarrow> c \<in> set (ag_commits g) \<and> lastSequence c \<le> ackedSequence g" for c
    using assms by (intro sorted_takeWhile) (simp add: pg_queue.queue_wf_def)
  ultimately show ?thesis by (auto simp: ackGate_Flush_def Let_def)
qed

text \<open>What a position needs in order to be confirmed sooner or later: \<open>n\<close> acknowledgements.\<close>

definition promised :: "nat \<Rightarrow> LSN \<Rightarrow> ackGate \<Rightarrow> bool" where
  "promised n e g \<longleftrightarrow> e \<le> ag_confirmable g \<or> (\<exists>c \<in> set (ag_commits g). lastSequence c \<le> n \<and> e \<le> commit_end c)"

lemma promised_settle:
  assumes "promised n e g"
  shows "promised n e (settle g)"
proof (cases "e \<le> ag_confirmable g")
  case False
  then obtain c where c: "c \<in> set (ag_commits g)" "lastSequence c \<le> n" "e \<le> commit_end c"
    using assms by (auto simp: promised_def)
  let ?P = "\<lambda>c. lastSequence c \<le> ackedSequence g"
  have "c \<in> set (takeWhile ?P (ag_commits g)) \<or> c \<in> set (dropWhile ?P (ag_commits g))"
    using c(1) by (metis Un_iff set_append takeWhile_dropWhile_id)
  then show ?thesis
    unfolding promised_def settle_simps fold_max_ge_iff using c(2,3) by auto
qed (simp add: promised_def fold_max_ge_iff)

lemma promised_Committed:
  assumes "promised n e g"
  shows "promised n e (ackGate_Committed p g)"
proof (cases "e \<le> ag_confirmable g")
  case False
  then obtain c where c: "c \<in> set (ag_commits g)" "lastSequence c \<le> n" "e \<le> commit_end c"
    using assms by (auto simp: promised_def)
  have "\<exists>c' \<in> set (ag_commits (ackGate_Committed p g)). lastSequence c' = lastSequence c \<and> commit_end c \<le> commit_end c'"
    using c(1) by (cases "ag_commits g" rule: rev_cases) (auto simp: ackGate_Committed_def Let_def)
  then show ?thesis
    using c(2,3) unfolding promised_def by (metis order.trans)
qed (simp add: promised_def)

lemma promised_update [simp]:
  "promised n e (g\<lparr>ag_handed := h\<rparr>) = promised n e g" "promised n e (g\<lparr>ag_inTxn := b\<rparr>) = promised n e g"
  "promised n e (g\<lparr>ag_acked := a\<rparr>) = promised n e g"
  by (simp_all add: promised_def)

lemma promised_gate_do: "promised n e g \<Longrightarrow> promised n e (gate_do x g)"
proof (cases x)
  case (OpIdle p)
  assume "promised n e g"
  then have "promised n e (settle g)" by (rule promised_settle)
  then show ?thesis using OpIdle by (auto simp: promised_def ackGate_Idle_def Let_def le_max_iff_disj)
qed (simp_all add: promised_settle promised_Committed ackGate_Flush_def Let_def ackGate_Unhand_def
    ackGate_Begin_def ackGate_NewSession_def ackGate_ObservePublished_def ackGate_Hand_def)

lemma promised_run: "promised n e g \<Longrightarrow> promised n e (fold gate_do xs g)"
  by (induction xs arbitrary: g) (auto simp: promised_gate_do)

lemma promised_Flush: "pg_queue.queue_wf g \<Longrightarrow> promised (ackedSequence g) e g \<longleftrightarrow> e \<le> fst (ackGate_Flush g)"
  by (simp add: promised_def Flush_ge_iff)

lemma promised_commit: "promised (ag_handed g) p (ackGate_Committed p g)"
  by (cases "ag_commits g" rule: rev_cases) (auto simp: promised_def ackGate_Committed_def Let_def)

lemma promised_mono: "promised n e g \<Longrightarrow> n \<le> m \<Longrightarrow> promised m e g"
  unfolding promised_def by (meson order.trans)

lemma gate_do_counters:
  "ag_gated (gate_do x g) = ag_gated g" "ag_handed g \<le> ag_handed (gate_do x g)" "ag_acked g \<le> ag_acked (gate_do x g)"
  by (cases x; simp add: ackGate_defs Let_def)+

lemma gate_run_counters:
  "ag_gated (fold gate_do xs g) = ag_gated g" "ag_handed g \<le> ag_handed (fold gate_do xs g)"
  "ag_acked g \<le> ag_acked (fold gate_do xs g)"
  by (induction xs arbitrary: g) (auto simp: gate_do_counters intro: order.trans [OF gate_do_counters(2)]
      order.trans [OF gate_do_counters(3)])

lemma Flush_mono_run:
  assumes g: "pg_queue.queue_wf g" "ag_gated g"
  shows "fst (ackGate_Flush g) \<le> fst (ackGate_Flush (fold gate_do ys g))"
proof -
  let ?g = "fold gate_do ys g"
  have a: "ackedSequence g \<le> ackedSequence ?g"
    using g(2) by (simp add: ackedSequence_def gate_run_counters)
  have "promised (ackedSequence g) (fst (ackGate_Flush g)) g" using promised_Flush [OF g(1)] by simp
  then have "promised (ackedSequence ?g) (fst (ackGate_Flush g)) ?g"
    using promised_run promised_mono a by blast
  then show ?thesis using promised_Flush [OF wf_gate_run [OF g(1)]] by simp
qed

subsection \<open>The guarantees of the gate\<close>

text \<open>
  A concrete run for the witnesses: a log of two transactions; the first is streamed, its two
  events are acknowledged, and its end is confirmed while the second is still open.
\<close>

definition demo_wal :: "txn list" where
  "demo_wal = [\<lparr>t_end = 100, t_count = 2\<rparr>, \<lparr>t_end = 200, t_count = 1\<rparr>]"

definition demo_change :: "nat \<Rightarrow> Event" where
  "demo_change n = (NewEvent 1700000000000 Insert ''public'' ''users'' [] [] ''0/64'')\<lparr>ev_Sequence := n\<rparr>"

definition demo_ops :: "gate_op list" where
  "demo_ops = [OpBegin, OpHand (demo_change 0), OpHand (demo_change 0), OpCommitted 100, OpBegin,
     OpObserve (demo_change 1), OpObserve (demo_change 2), OpFlush]"

definition demo_pgsys :: pgsys where
  "demo_pgsys = \<lparr>gate = fold gate_do demo_ops (ackGate_Enable newAckGate), next_txn = 1, inside = True, sent = 0,
     log = [(0, 0), (0, 1)], delivered = {(0, 0), (0, 1)}, refused = {}, confirmed = 100\<rparr>"

lemma pg_reach_step: "pg_step W a b \<Longrightarrow> pg_reach W b c \<Longrightarrow> pg_reach W a c"
  by (rule converse_rtranclp_into_rtranclp)

lemma demo_pgsys_reach: "pg_reach demo_wal pgsys_init demo_pgsys"
proof -
  let ?s1 = "pgsys_init\<lparr>gate := ackGate_Begin (gate pgsys_init), inside := True, sent := 0\<rparr>"
  let ?s2 = "?s1\<lparr>gate := snd (ackGate_Hand (demo_change 0) (gate ?s1)), log := [(0, 0)], sent := 1\<rparr>"
  let ?s3 = "?s2\<lparr>gate := snd (ackGate_Hand (demo_change 0) (gate ?s2)), log := [(0, 0), (0, 1)], sent := 2\<rparr>"
  let ?s4 = "?s3\<lparr>gate := ackGate_Committed 100 (gate ?s3), inside := False, next_txn := 1\<rparr>"
  let ?s5 = "?s4\<lparr>gate := ackGate_Begin (gate ?s4), inside := True, sent := 0\<rparr>"
  let ?s6 = "?s5\<lparr>gate := ackGate_ObservePublished (demo_change 1) (gate ?s5), delivered := {(0, 0)}\<rparr>"
  let ?s7 = "?s6\<lparr>gate := ackGate_ObservePublished (demo_change 2) (gate ?s6), delivered := {(0, 0), (0, 1)}\<rparr>"
  note defs = pgsys_init_def demo_wal_def demo_change_def ackGate_defs Let_def
  have 1: "pg_step demo_wal pgsys_init ?s1"
    by (rule pg_step.txn_begin) (simp_all add: defs)
  have 2: "pg_step demo_wal ?s1 ?s2"
    using pg_step.change [of ?s1 demo_wal "demo_change 0"] by (simp add: defs)
  have 3: "pg_step demo_wal ?s2 ?s3"
    using pg_step.change [of ?s2 demo_wal "demo_change 0"] by (simp add: defs numeral_2_eq_2)
  have 4: "pg_step demo_wal ?s3 ?s4"
    using pg_step.commit [of ?s3 demo_wal] by (simp add: defs)
  have 5: "pg_step demo_wal ?s4 ?s5"
    by (rule pg_step.txn_begin) (simp_all add: defs)
  have 6: "pg_step demo_wal ?s5 ?s6"
    using pg_step.ack [of ?s5 "demo_change 1" demo_wal] by (simp add: defs)
  have 7: "pg_step demo_wal ?s6 ?s7"
    using pg_step.ack [of ?s6 "demo_change 2" demo_wal] by (simp add: defs insert_commute)
  have 8: "pg_step demo_wal ?s7 demo_pgsys"
    using pg_step.status [of ?s7 100 "gate demo_pgsys" demo_wal]
    by (simp add: defs demo_pgsys_def demo_ops_def settle_def ackedSequence_def)
  show ?thesis
    by (rule pg_reach_step, rule 1, rule pg_reach_step, rule 2, rule pg_reach_step, rule 3,
        rule pg_reach_step, rule 4, rule pg_reach_step, rule 5, rule pg_reach_step, rule 6,
        rule pg_reach_step, rule 7, rule pg_reach_step, rule 8, rule rtranclp.rtrancl_refl)
qed

text \<open>
  C4. At-least-once delivery from PostgreSQL. In every run of the agent, with lost connections
  and crashes, once the primary is told a position, every publishable event of every transaction
  that ends at or below that position is stored by JetStream, or was refused by the bus as
  invalid. The primary may drop exactly what it was told, so no other event is ever lost.
\<close>

theorem confirmed_implies_delivered:
  assumes "wal_ok W" "pg_reach W pgsys_init s" "j < length W" "t_end (W ! j) \<le> confirmed s" "k < t_count (W ! j)"
  shows "(j, k) \<in> delivered s \<union> refused s"
  using pg_inv_reach [OF assms(1,2) pg_inv_init [OF assms(1)]] assms(3-5)
  by (simp add: pg_inv_def covers_def settled_set_def)

theorem confirmed_implies_delivered_witness:
  "t_end (demo_wal ! 0) \<le> confirmed demo_pgsys \<and> (0, 1) \<in> delivered demo_pgsys \<union> refused demo_pgsys"
  using confirmed_implies_delivered [OF _ demo_pgsys_reach, of 0 1]
  by (simp add: wal_ok_def demo_wal_def demo_pgsys_def)

text \<open>
  C16. The gate does not hold positions back for ever: after any sequence of calls that contains
  a commit, once every handed event is acknowledged, the position to confirm is at or past the end
  of that commit, whatever happened in between.
\<close>

theorem flush_reaches_commit:
  assumes "OpCommitted p \<in> set xs" "g = fold gate_do xs (ackGate_Enable newAckGate)" "ag_handed g \<le> ag_acked g"
  shows "p \<le> fst (ackGate_Flush g)"
proof -
  obtain ys zs where xs: "xs = ys @ OpCommitted p # zs" using assms(1) by (meson split_list)
  let ?h = "fold gate_do ys (ackGate_Enable newAckGate)"
  have g: "g = fold gate_do zs (ackGate_Committed p ?h)" using assms(2) xs by simp
  have "promised (ag_handed ?h) p g" unfolding g by (intro promised_run promised_commit)
  moreover have "ag_handed ?h \<le> ag_handed g"
    unfolding g using gate_run_counters(2) [of "ackGate_Committed p ?h" zs] by (simp add: pg_queue.commit_handed)
  moreover have "ackedSequence g = ag_acked g"
    unfolding ackedSequence_def assms(2) by (simp add: gate_run_counters(1) ackGate_Enable_def)
  ultimately have "promised (ackedSequence g) p g"
    using assms(3) by (metis promised_mono order.trans)
  then show ?thesis
    unfolding assms(2) by (simp add: promised_Flush wf_gate_run wf_newAckGate)
qed

theorem flush_reaches_commit_witness:
  "100 \<le> fst (ackGate_Flush (fold gate_do demo_ops (ackGate_Enable newAckGate)))"
  by (rule flush_reaches_commit [where xs = demo_ops])
    (simp_all add: demo_ops_def demo_change_def ackGate_defs Let_def settle_def ackedSequence_def)

text \<open>
  Within one process the position to confirm never moves back, whatever sequence of calls
  happens between two status messages.
\<close>

theorem flush_monotone:
  assumes "g = fold gate_do xs (ackGate_Enable newAckGate)"
  shows "fst (ackGate_Flush g) \<le> fst (ackGate_Flush (fold gate_do ys g))"
  unfolding assms
  by (rule Flush_mono_run [OF wf_gate_run [OF wf_newAckGate]]) (simp add: gate_run_counters(1) ackGate_Enable_def)

theorem flush_monotone_witness:
  "fst (ackGate_Flush (fold gate_do demo_ops (ackGate_Enable newAckGate))) \<le>
     fst (ackGate_Flush (fold gate_do [OpNewSession, OpIdle 300] (fold gate_do demo_ops (ackGate_Enable newAckGate))))"
  using flush_monotone [OF refl, of demo_ops "[OpNewSession, OpIdle 300]"] by blast

text \<open>
  A stalled publisher cannot make the gate grow without bound: after any sequence of calls,
  settling leaves at most one waiting commit per handed and not yet acknowledged event.
\<close>

theorem waiting_commits_bounded:
  "length (ag_commits (settle (fold gate_do xs (ackGate_Enable newAckGate)))) \<le>
     ag_handed (fold gate_do xs (ackGate_Enable newAckGate)) - ag_acked (fold gate_do xs (ackGate_Enable newAckGate))"
  using pg_queue.settled_bound [OF wf_gate_run [OF wf_newAckGate], of xs]
  by (simp add: ackedSequence_def gate_run_counters(1) ackGate_Enable_def)

end
