(* ===== verification/Pg_Listener.thy ===== *)
theory Pg_Listener
  imports Pg_Parser Pg_AckGate
begin

text \<open>
  The streaming half of the PostgreSQL listener (\<^verbatim>\<open>internal/postgres/listener.go\<close>) and the lag
  tracker (\<^verbatim>\<open>lag.go\<close>): from a replication message to events on the bus and to the positions
  confirmed to the primary. Code of the driver is an argument of the model, bundled in
  \<open>driver\<close>: how an LSN prints, how keepalive and XLogData frames are parsed. Outputs are
  recorded in the listener: \<open>l_out\<close> is the events the bus accepted, \<open>l_sent\<close> the positions
  of the standby status messages that reached the primary. Clock readings are nanoseconds; the
  readings within one call are one instant.
\<close>

record driver =
  lsn_string :: "u64 \<Rightarrow> gostring"
  parse_keepalive :: "gostring \<Rightarrow> (u64 \<times> bool) option"
  parse_xlog :: "gostring \<Rightarrow> (u64 \<times> gostring) option"

subsection \<open>Lag\<close>

record lagTracker =
  lt_lastCommit :: "int option"
  lt_caughtUp :: bool

definition newLagTracker :: lagTracker where
  "newLagTracker = \<lparr>lt_lastCommit = None, lt_caughtUp = False\<rparr>"

definition ObserveCommit :: "int \<Rightarrow> lagTracker \<Rightarrow> lagTracker" where
  "ObserveCommit commitTS t = t\<lparr>lt_lastCommit := Some commitTS, lt_caughtUp := False\<rparr>"

definition ObserveCaughtUp :: "lagTracker \<Rightarrow> lagTracker" where
  "ObserveCaughtUp t = t\<lparr>lt_caughtUp := True\<rparr>"

definition Lag :: "int \<Rightarrow> lagTracker \<Rightarrow> int" where
  "Lag now t = (case lt_lastCommit t of
      None \<Rightarrow> 0
    | Some c \<Rightarrow> if lt_caughtUp t then 0 else max (now - c) 0)"

subsection \<open>State\<close>

record replicationState =
  rs_receivedLSN :: u64
  rs_lastFlushSent :: u64
  rs_lastStatus :: int
  rs_lastMessage :: int

record Listener =
  l_service :: Service
  l_parser :: Parser
  l_lag :: lagTracker
  l_ack :: ackGate
  l_txnIndex :: nat
  l_out :: "Event list"
  l_sent :: "u64 list"

definition seconds :: "int \<Rightarrow> int" where
  "seconds n = n * 1000000000"

definition heartbeatInterval :: int where "heartbeatInterval = seconds 30"

definition statusInterval :: int where "statusInterval = seconds 10"

definition maxReconnectDelay :: int where "maxReconnectDelay = seconds 30"

definition NewListener :: "gostring list \<Rightarrow> bool \<Rightarrow> FileHistoryStore option \<Rightarrow> Service \<Rightarrow> Listener" where
  "NewListener tables ddl store service =
     \<lparr>l_service = service, l_parser = NewParser tables ddl store, l_lag = newLagTracker, l_ack = newAckGate,
      l_txnIndex = 0, l_out = [], l_sent = []\<rparr>"

definition PublishedObserver :: "Listener \<Rightarrow> Listener" where
  "PublishedObserver l = l\<lparr>l_ack := ackGate_Enable (l_ack l)\<rparr>"

definition observe :: "Event \<Rightarrow> Listener \<Rightarrow> Listener" where
  "observe e l = l\<lparr>l_ack := ackGate_ObservePublished e (l_ack l)\<rparr>"

subsection \<open>Handing events to the bus\<close>

definition to_bus :: "Event \<Rightarrow> Listener \<Rightarrow> bool \<times> Listener" where
  "to_bus e l = (if fst (HandleEvent (l_service l) e) then (True, l\<lparr>l_out := l_out l @ [e]\<rparr>) else (False, l))"

definition source_id :: "driver \<Rightarrow> u64 \<Rightarrow> nat \<Rightarrow> gostring" where
  "source_id d txn i = ''pg:'' @ lsn_string d txn @ '':'' @ itoa i"

definition emit :: "driver \<Rightarrow> Event \<Rightarrow> Listener \<Rightarrow> Listener" where
  "emit d event l =
     (if ev_Type event = Begin
      then snd (to_bus event (l\<lparr>l_txnIndex := 0, l_ack := ackGate_Begin (l_ack l)\<rparr>))
      else if ev_Type event = Commit
      then snd (to_bus event (l\<lparr>l_ack := ackGate_Committed (CommitEndLSN (l_parser l)) (l_ack l)\<rparr>))
      else if IsPublishable (ev_Type event)
      then let event = event\<lparr>ev_SourceID := source_id d (TransactionLSN (l_parser l)) (l_txnIndex l)\<rparr>;
               (event, g) = ackGate_Hand event (l_ack l);
               (accepted, l) = to_bus event (l\<lparr>l_txnIndex := l_txnIndex l + 1, l_ack := g\<rparr>)
           in if accepted then l else l\<lparr>l_ack := ackGate_Unhand (l_ack l)\<rparr>
      else snd (to_bus event l))"

subsection \<open>Messages\<close>

text \<open>The result of a handler: \<open>Inl\<close> an error that ends the session, or \<open>Inr\<close>; both with the new state.\<close>

datatype listener_error = OpenConnection | StartStreaming | ParseKeepalive | ParseXLog | SendStatus | ReceiveMessage | PanicEmptyCopyData

type_synonym session = "Listener \<times> replicationState"

type_synonym outcome = "listener_error option \<times> session"

definition sendStatus :: "int \<Rightarrow> bool \<Rightarrow> session \<Rightarrow> outcome" where
  "sendStatus now send_ok s =
     (let (l, st) = s; (flush, g) = ackGate_Flush (l_ack l) in
      if send_ok
      then (None, l\<lparr>l_ack := g, l_sent := l_sent l @ [flush]\<rparr>, st\<lparr>rs_lastFlushSent := flush, rs_lastStatus := now\<rparr>)
      else (Some SendStatus, l\<lparr>l_ack := g\<rparr>, st))"

definition handleKeepalive :: "driver \<Rightarrow> int \<Rightarrow> bool \<Rightarrow> gostring \<Rightarrow> session \<Rightarrow> outcome" where
  "handleKeepalive d now send_ok data s =
     (case parse_keepalive d data of
        None \<Rightarrow> (Some ParseKeepalive, s)
      | Some (walEnd, replyRequested) \<Rightarrow>
          let (l, st) = s;
              st = (if walEnd > rs_receivedLSN st then st\<lparr>rs_receivedLSN := walEnd\<rparr> else st);
              l = (if \<not> ackGate_Pending (l_ack l) then l\<lparr>l_lag := ObserveCaughtUp (l_lag l)\<rparr> else l);
              l = l\<lparr>l_ack := ackGate_Idle walEnd (l_ack l)\<rparr>
          in if \<not> replyRequested
             then let (flush, g) = ackGate_Flush (l_ack l); l = l\<lparr>l_ack := g\<rparr> in
                  if flush = rs_lastFlushSent st then (None, l, st) else sendStatus now send_ok (l, st)
             else sendStatus now send_ok (l, st))"

definition handleXLogData :: "driver \<Rightarrow> int \<Rightarrow> bool \<Rightarrow> gostring \<Rightarrow> session \<Rightarrow> outcome" where
  "handleXLogData d now io_ok data s =
     (case parse_xlog d data of
        None \<Rightarrow> (Some ParseXLog, s)
      | Some (walStart, walData) \<Rightarrow>
          let (l, st) = s;
              received = walStart + of_nat (length walData);
              st = st\<lparr>rs_receivedLSN := received, rs_lastMessage := now\<rparr>;
              (event, handled, p) = Parse (now div 1000000) io_ok walData (lsn_string d received)
                 ((l_parser l)\<lparr>lsnProvider := Some (lsn_string d received)\<rparr>);
              l = fold (emit d) handled (l\<lparr>l_parser := p\<rparr>)
          in case event of
               None \<Rightarrow> (None, l, st)
             | Some e \<Rightarrow>
                 let l = (if ev_Type e = Commit \<and> ev_SourceTimestamp e > 0
                          then l\<lparr>l_lag := ObserveCommit (ev_SourceTimestamp e * 1000000) (l_lag l)\<rparr> else l)
                 in (None, emit d e l, st))"

datatype backend_message = CopyData gostring | OtherMessage

definition handleMessage :: "driver \<Rightarrow> int \<Rightarrow> bool \<Rightarrow> bool \<Rightarrow> backend_message \<Rightarrow> session \<Rightarrow> outcome" where
  "handleMessage d now io_ok send_ok m s =
     (case m of
        OtherMessage \<Rightarrow> (None, s)
      | CopyData [] \<Rightarrow> (Some PanicEmptyCopyData, s)
      | CopyData (c # data) \<Rightarrow>
          if c = CHR ''k'' then handleKeepalive d now send_ok data s
          else if c = CHR ''w'' then handleXLogData d now io_ok data s
          else (None, s))"

definition heartbeat_event :: "int \<Rightarrow> gostring \<Rightarrow> Event" where
  "heartbeat_event now lsn = NewEvent now Heartbeat [] [] [] ''HEARTBEAT'' lsn"

definition maintainHeartbeatAndStatus :: "driver \<Rightarrow> int \<Rightarrow> bool \<Rightarrow> session \<Rightarrow> outcome" where
  "maintainHeartbeatAndStatus d now send_ok s =
     (let (err, s) = (if now - rs_lastStatus (snd s) \<ge> statusInterval then sendStatus now send_ok s else (None, s)) in
      if err \<noteq> None then (err, s)
      else if now - rs_lastMessage (snd s) \<ge> heartbeatInterval
      then let l = snd (to_bus (heartbeat_event (now div 1000000) (lsn_string d (rs_receivedLSN (snd s)))) (fst s))
           in sendStatus now send_ok (l, (snd s)\<lparr>rs_lastMessage := now\<rparr>)
      else (None, s))"

text \<open>
  The receive loop of \<^verbatim>\<open>connectAndStream\<close>: each input is the instant of the message, what was received
  (\<open>None\<close> for a receive error), the outcomes of the writes, and the events the publisher reported as
  stored while the loop waited for the message. The end of the list is the end of the context: the loop
  returns without an error.
\<close>

record input =
  in_published :: "Event list"
  in_now :: int
  in_message :: "backend_message option"
  in_io_ok :: bool
  in_send_ok :: bool

definition observed :: "input \<Rightarrow> session \<Rightarrow> session" where
  "observed i s = (fold observe (in_published i) (fst s), snd s)"

fun stream_loop :: "driver \<Rightarrow> input list \<Rightarrow> session \<Rightarrow> outcome" where
  "stream_loop d [] s = (None, s)"
| "stream_loop d (i # is) s =
     (case in_message i of
        None \<Rightarrow> (Some ReceiveMessage, observed i s)
      | Some m \<Rightarrow>
          let (err, s) = handleMessage d (in_now i) (in_io_ok i) (in_send_ok i) m (observed i s) in
          if err \<noteq> None then (err, s)
          else let (err, s) = maintainHeartbeatAndStatus d (in_now i) (in_send_ok i) s in
               if err \<noteq> None then (err, s) else stream_loop d is s)"

text \<open>
  One session: opening the connection or starting the stream may fail (the outcome of
  \<^verbatim>\<open>startStreaming\<close>, slot recreation included, is an argument); the gate and the session state are
  reset only once the stream runs. \<open>at_published\<close> is what the publisher reported as stored since the
  previous session.
\<close>

record attempt =
  at_published :: "Event list"
  at_now :: int
  at_open_ok :: bool
  at_start_ok :: bool
  at_inputs :: "input list"

definition startSession :: "driver \<Rightarrow> int \<Rightarrow> Listener \<Rightarrow> session" where
  "startSession d now l =
     (let st = \<lparr>rs_receivedLSN = 0, rs_lastFlushSent = 0, rs_lastStatus = now, rs_lastMessage = now\<rparr> in
      (l\<lparr>l_ack := ackGate_NewSession (l_ack l),
         l_parser := (l_parser l)\<lparr>lsnProvider := Some (lsn_string d (rs_receivedLSN st))\<rparr>\<rparr>, st))"

definition connectAndStream :: "driver \<Rightarrow> attempt \<Rightarrow> Listener \<Rightarrow> listener_error option \<times> Listener" where
  "connectAndStream d a l =
     (if \<not> at_open_ok a then (Some OpenConnection, l)
      else if \<not> at_start_ok a then (Some StartStreaming, l)
      else let (err, l, st) = stream_loop d (at_inputs a) (startSession d (at_now a) l)
           in (err, l))"

text \<open>\<^verbatim>\<open>listenLoop\<close>: the sessions in turn, with the delays waited between failed ones.\<close>

fun listenLoop :: "driver \<Rightarrow> attempt list \<Rightarrow> int \<Rightarrow> Listener \<Rightarrow> int list \<times> Listener" where
  "listenLoop d [] delay l = ([], l)"
| "listenLoop d (a # as) delay l =
     (let (err, l) = connectAndStream d a (fold observe (at_published a) l) in
      if err \<noteq> None
      then let (delays, l) = listenLoop d as (double_up_to maxReconnectDelay delay) l in (delay # delays, l)
      else listenLoop d as (seconds 1) l)"

subsection \<open>Connection strings and defaults\<close>

definition ensureReplicationParam :: "gostring \<Rightarrow> gostring" where
  "ensureReplicationParam connStr =
     (if contains connStr ''replication='' then connStr
      else if contains connStr ''?'' then connStr @ ''&replication=database''
      else connStr @ ''?replication=database'')"

text \<open>\<^verbatim>\<open>strings.ReplaceAll\<close> with a non-empty pattern.\<close>

function replace_all :: "gostring \<Rightarrow> gostring \<Rightarrow> gostring \<Rightarrow> gostring" where
  "replace_all p r [] = []"
| "replace_all p r (c # s) =
     (if p \<noteq> [] \<and> has_prefix (c # s) p then r @ replace_all p r (drop (length p) (c # s))
      else c # replace_all p r s)"
  by pat_completeness auto
termination
  by (relation "measure (\<lambda>(p, r, s). length s)") (auto simp: neq_Nil_conv)

definition stripReplicationParam :: "gostring \<Rightarrow> gostring" where
  "stripReplicationParam connStr =
     replace_all ''?replication=database'' []
       (replace_all ''?replication=database&'' ''?''
         (replace_all ''&replication=database'' [] connStr))"

definition minutesOrDefault :: "int \<Rightarrow> int \<Rightarrow> int" where
  "minutesOrDefault minutes fallback = (if minutes \<le> 0 then fallback else minutes * seconds 60)"

definition slotStatsInterval :: "int \<Rightarrow> int" where
  "slotStatsInterval configured = (if configured \<le> 0 then seconds 15 else seconds configured)"

subsection \<open>The gate is driven by its methods only\<close>

definition gate_runs :: "ackGate \<Rightarrow> ackGate \<Rightarrow> bool" where
  "gate_runs g g' \<longleftrightarrow> (\<exists>ops. g' = fold gate_do ops g)"

lemma gate_runs_refl [simp]: "gate_runs g g"
  unfolding gate_runs_def by (rule exI [of _ "[]"]) simp

lemma gate_runs_trans: "gate_runs a b \<Longrightarrow> gate_runs b c \<Longrightarrow> gate_runs a c"
  unfolding gate_runs_def by (metis fold_append o_apply)

lemma gate_runs_op: "g' = gate_do x g \<Longrightarrow> gate_runs g g'"
  unfolding gate_runs_def by (rule exI [of _ "[x]"]) simp

lemma gate_runs_Flush: "gate_runs g h \<Longrightarrow> gate_runs g (snd (ackGate_Flush h))"
  by (erule gate_runs_trans) (rule gate_runs_op [of _ OpFlush], simp)

lemma gate_runs_Idle: "gate_runs g h \<Longrightarrow> gate_runs g (ackGate_Idle p h)"
  by (erule gate_runs_trans) (rule gate_runs_op [of _ "OpIdle p"], simp)

lemma gate_runs_NewSession: "gate_runs g h \<Longrightarrow> gate_runs g (ackGate_NewSession h)"
  by (erule gate_runs_trans) (rule gate_runs_op [of _ OpNewSession], simp)

lemma observes_runs: "gate_runs (l_ack l) (l_ack (fold observe es l))"
proof (induction es arbitrary: l)
  case (Cons e es)
  have "gate_runs (l_ack l) (l_ack (observe e l))"
    by (rule gate_runs_op [of _ "OpObserve e"]) (simp add: observe_def)
  then show ?case using Cons gate_runs_trans by fastforce
qed simp

lemma observes_frame [simp]: "l_sent (fold observe es l) = l_sent l"
  by (induction es arbitrary: l) (simp_all add: observe_def)

lemmas gate_runs_intros = gate_runs_Flush gate_runs_Idle gate_runs_NewSession gate_runs_refl

lemma to_bus_simps [simp]:
  "l_ack (snd (to_bus e l)) = l_ack l" "l_sent (snd (to_bus e l)) = l_sent l"
  "l_service (snd (to_bus e l)) = l_service l" "l_parser (snd (to_bus e l)) = l_parser l"
  "l_txnIndex (snd (to_bus e l)) = l_txnIndex l" "l_lag (snd (to_bus e l)) = l_lag l"
  "fst (to_bus e l) = fst (HandleEvent (l_service l) e)"
  "l_out (snd (to_bus e l)) = l_out l @ (if fst (HandleEvent (l_service l) e) then [e] else [])"
  by (simp_all add: to_bus_def)

text \<open>A publishable event as it is put on the bus.\<close>

definition handed_event :: "driver \<Rightarrow> Event \<Rightarrow> Listener \<Rightarrow> Event" where
  "handed_event d e l = e\<lparr>ev_SourceID := source_id d (TransactionLSN (l_parser l)) (l_txnIndex l),
     ev_Sequence := ag_handed (l_ack l) + 1\<rparr>"

lemma HandleEvent_ids [simp]:
  "fst (HandleEvent s (e\<lparr>ev_SourceID := i, ev_Sequence := n\<rparr>)) = fst (HandleEvent s e)"
  by (simp add: HandleEvent_def accepts_def)

lemma emit_publishable:
  assumes "IsPublishable (ev_Type e)"
  shows "emit d e l =
    (if fst (HandleEvent (l_service l) e)
     then l\<lparr>l_txnIndex := l_txnIndex l + 1, l_ack := snd (ackGate_Hand e (l_ack l)), l_out := l_out l @ [handed_event d e l]\<rparr>
     else l\<lparr>l_txnIndex := l_txnIndex l + 1, l_ack := ackGate_Unhand (snd (ackGate_Hand e (l_ack l)))\<rparr>)"
proof -
  have "ev_Type e \<noteq> Begin" "ev_Type e \<noteq> Commit" using assms by (auto simp: IsPublishable_def)
  then show ?thesis
    using assms by (simp add: emit_def ackGate_Hand_def Let_def to_bus_def handed_event_def)
qed

definition emit_op :: "Event \<Rightarrow> Listener \<Rightarrow> gate_op option" where
  "emit_op e l =
     (if ev_Type e = Begin then Some OpBegin
      else if ev_Type e = Commit then Some (OpCommitted (CommitEndLSN (l_parser l)))
      else if IsPublishable (ev_Type e)
      then Some (if fst (HandleEvent (l_service l) e) then OpHand e else OpRefused e)
      else None)"

lemma emit_gate: "l_ack (emit d e l) = (case emit_op e l of None \<Rightarrow> l_ack l | Some x \<Rightarrow> gate_do x (l_ack l))"
proof (cases "IsPublishable (ev_Type e)")
  case True
  then show ?thesis
    by (subst emit_publishable) (auto simp: emit_op_def IsPublishable_def)
qed (simp add: emit_def emit_op_def)

lemma emit_frame [simp]:
  "l_sent (emit d e l) = l_sent l" "l_service (emit d e l) = l_service l" "l_parser (emit d e l) = l_parser l"
  by (simp_all add: emit_def ackGate_Hand_def Let_def to_bus_def)

lemma emit_runs: "gate_runs (l_ack l) (l_ack (emit d e l))"
  by (simp add: emit_gate gate_runs_op split: option.split)

lemma emits_runs: "gate_runs (l_ack l) (l_ack (fold (emit d) es l))"
  by (induction es arbitrary: l) (auto intro: gate_runs_trans emit_runs)

lemma emits_frame [simp]:
  "l_sent (fold (emit d) es l) = l_sent l" "l_service (fold (emit d) es l) = l_service l"
  "l_parser (fold (emit d) es l) = l_parser l"
  by (induction es arbitrary: l) simp_all

subsection \<open>Positions sent to the primary\<close>

definition sent_ok :: "Listener \<Rightarrow> bool" where
  "sent_ok l \<longleftrightarrow> pg_queue.queue_wf (l_ack l) \<and> ag_gated (l_ack l) \<and> sorted (l_sent l) \<and>
     (\<forall>p \<in> set (l_sent l). p \<le> fst (ackGate_Flush (l_ack l)))"

lemma sent_ok_runs:
  assumes "sent_ok l" "gate_runs (l_ack l) (l_ack l')" "l_sent l' = l_sent l"
  shows "sent_ok l'"
proof -
  obtain ops where g: "l_ack l' = fold gate_do ops (l_ack l)" using assms(2) by (auto simp: gate_runs_def)
  have "fst (ackGate_Flush (l_ack l)) \<le> fst (ackGate_Flush (l_ack l'))"
    unfolding g by (rule Flush_mono_run) (use assms(1) in \<open>simp_all add: sent_ok_def\<close>)
  then show ?thesis
    using assms(1,3) g by (auto simp: sent_ok_def wf_gate_run gate_run_counters(1))
qed

lemma sent_ok_sendStatus:
  assumes "sent_ok (fst s)"
  shows "sent_ok (fst (snd (sendStatus now ok s)))"
proof -
  obtain l st where s: "s = (l, st)" by fastforce
  have l: "sent_ok l" using assms s by simp
  let ?l = "l\<lparr>l_ack := snd (ackGate_Flush (l_ack l))\<rparr>"
  have 1: "sent_ok ?l" by (rule sent_ok_runs [OF l]) (auto intro: gate_runs_op [of _ OpFlush])
  have "fst (ackGate_Flush (l_ack l)) \<le> fst (ackGate_Flush (snd (ackGate_Flush (l_ack l))))"
    using Flush_mono_run [of "l_ack l" "[OpFlush]"] l by (simp add: sent_ok_def)
  then have "sent_ok (?l\<lparr>l_sent := l_sent l @ [fst (ackGate_Flush (l_ack l))]\<rparr>)"
    using 1 l by (auto simp: sent_ok_def sorted_append)
  then show ?thesis using 1 s by (simp add: sendStatus_def case_prod_unfold Let_def)
qed

lemma sent_ok_keepalive:
  assumes "sent_ok (fst s)"
  shows "sent_ok (fst (snd (handleKeepalive d now ok data s)))"
proof -
  obtain l st where s: "s = (l, st)" by fastforce
  have l: "sent_ok l" using assms s by simp
  show ?thesis
    unfolding s handleKeepalive_def Let_def case_prod_unfold
    by (auto split: option.split intro!: sent_ok_sendStatus sent_ok_runs [OF l] gate_runs_intros simp: l)
qed

lemma sent_ok_xlog:
  assumes "sent_ok (fst s)"
  shows "sent_ok (fst (snd (handleXLogData d now io data s)))"
proof -
  obtain l st where s: "s = (l, st)" by fastforce
  have l: "sent_ok l" using assms s by simp
  have es: "gate_runs (l_ack l) (l_ack (fold (emit d) es (l\<lparr>l_parser := p\<rparr>)))" for es p
    using emits_runs [of "l\<lparr>l_parser := p\<rparr>"] by simp
  have e: "gate_runs (l_ack l) (l_ack (emit d e l'))" if "gate_runs (l_ack l) (l_ack l')" for e l'
    using gate_runs_trans [OF that emit_runs] .
  show ?thesis
    unfolding s handleXLogData_def Let_def case_prod_unfold
    by (auto split: option.split intro!: sent_ok_runs [OF l] es e simp: l)
qed

lemma sent_ok_message:
  "sent_ok (fst s) \<Longrightarrow> sent_ok (fst (snd (handleMessage d now io ok m s)))"
  by (auto simp: handleMessage_def sent_ok_keepalive sent_ok_xlog split: backend_message.split list.split)

lemma sent_ok_maintain:
  assumes "sent_ok (fst s)"
  shows "sent_ok (fst (snd (maintainHeartbeatAndStatus d now ok s)))"
proof -
  have bus: "sent_ok (snd (to_bus e l))" if "sent_ok l" for e l
    using that by (simp add: sent_ok_def)
  show ?thesis
    unfolding maintainHeartbeatAndStatus_def Let_def case_prod_unfold
    by (simp add: assms sent_ok_sendStatus bus)
qed

lemma sent_ok_observes: "sent_ok l \<Longrightarrow> sent_ok (fold observe es l)"
  by (erule sent_ok_runs) (simp_all add: observes_runs)

lemma sent_ok_observed: "sent_ok (fst s) \<Longrightarrow> sent_ok (fst (observed i s))"
  by (simp add: observed_def sent_ok_observes)

lemma sent_ok_stream: "sent_ok (fst s) \<Longrightarrow> sent_ok (fst (snd (stream_loop d is s)))"
proof (induction d "is" s rule: stream_loop.induct)
  case (2 d i "is" s)
  show ?case
  proof (cases "in_message i")
    case (Some m)
    obtain r1 s1 where 1: "handleMessage d (in_now i) (in_io_ok i) (in_send_ok i) m (observed i s) = (r1, s1)"
      by (rule prod.exhaust)
    obtain r2 s2 where 3: "maintainHeartbeatAndStatus d (in_now i) (in_send_ok i) s1 = (r2, s2)" by (rule prod.exhaust)
    have s1: "sent_ok (fst s1)" using sent_ok_message [OF sent_ok_observed [OF 2(2)]] 1 by (metis snd_conv)
    have s2: "sent_ok (fst s2)" using sent_ok_maintain [OF s1] 3 by (metis snd_conv)
    show ?thesis
      using 2(1) [OF Some 1 [symmetric] refl _ 3 [symmetric] refl _ s2] s1 s2 by (simp add: Some 1 3 Let_def)
  qed (simp add: sent_ok_observed 2)
qed simp

lemma sent_ok_connect:
  assumes "sent_ok l"
  shows "sent_ok (snd (connectAndStream d a l))"
proof -
  have "sent_ok (l\<lparr>l_ack := ackGate_NewSession (l_ack l), l_parser := p\<rparr>)" for p
    by (rule sent_ok_runs [OF assms]) (auto intro!: gate_runs_intros)
  then show ?thesis
    using assms by (simp add: connectAndStream_def startSession_def Let_def case_prod_unfold sent_ok_stream)
qed

lemma sent_ok_listen: "sent_ok l \<Longrightarrow> sent_ok (snd (listenLoop d as delay l))"
proof (induction as arbitrary: l delay)
  case (Cons a as)
  then show ?case
    using sent_ok_connect [OF sent_ok_observes, of l d a "at_published a"] by (simp add: Let_def case_prod_unfold)
qed simp

text \<open>
  C32. The positions the listener reports to the primary never move back while the process runs:
  over any sequence of sessions, whatever messages and acknowledgements arrive, whichever writes fail and
  however often the connection is lost, the flush positions of the standby status messages are ascending.
\<close>

theorem statuses_ascending:
  "sorted (l_sent (snd (listenLoop d as delay (PublishedObserver (NewListener tables ddl store service)))))"
proof -
  have "sent_ok (PublishedObserver (NewListener tables ddl store service))"
    by (simp add: sent_ok_def PublishedObserver_def NewListener_def wf_newAckGate) (simp add: ackGate_Enable_def)
  then show ?thesis using sent_ok_listen by (simp add: sent_ok_def)
qed

subsection \<open>Source ids\<close>

lemma emits_publishable_out:
  assumes "\<forall>e \<in> set es. IsPublishable (ev_Type e)"
  shows "\<exists>outs. l_out (fold (emit d) es l) = l_out l @ outs \<and> (\<forall>e \<in> set outs. IsPublishable (ev_Type e)) \<and>
     map ev_SourceID outs = map (\<lambda>x. source_id d (TransactionLSN (l_parser l)) (fst x))
       (filter (\<lambda>x. fst (HandleEvent (l_service l) (snd x))) (enumerate (l_txnIndex l) es))"
  using assms
proof (induction es arbitrary: l)
  case (Cons e es)
  let ?l = "emit d e l"
  have e: "IsPublishable (ev_Type e)" and es: "\<forall>e \<in> set es. IsPublishable (ev_Type e)" using Cons.prems by auto
  have i: "l_txnIndex ?l = Suc (l_txnIndex l)" using e by (simp add: emit_publishable)
  obtain outs where o: "l_out (fold (emit d) es ?l) = l_out ?l @ outs" "\<forall>e \<in> set outs. IsPublishable (ev_Type e)"
    "map ev_SourceID outs = map (\<lambda>x. source_id d (TransactionLSN (l_parser l)) (fst x))
       (filter (\<lambda>x. fst (HandleEvent (l_service l) (snd x))) (enumerate (Suc (l_txnIndex l)) es))"
    using Cons.IH [OF es, of ?l] by (auto simp: i)
  show ?case
  proof (cases "fst (HandleEvent (l_service l) e)")
    case True
    then show ?thesis
      using o e by (intro exI [of _ "handed_event d e l # outs"]) (simp add: emit_publishable handed_event_def)
  next
    case False
    then show ?thesis using o e by (intro exI [of _ outs]) (simp add: emit_publishable)
  qed
qed simp

lemma emit_Begin:
  "ev_Type b = Begin \<Longrightarrow> emit d b l = snd (to_bus b (l\<lparr>l_txnIndex := 0, l_ack := ackGate_Begin (l_ack l)\<rparr>))"
  by (simp add: emit_def)

text \<open>
  C12. A change is named the same way every time its transaction is streamed. The events of a
  transaction that reach the bus carry, in order, the id built from the commit position of the
  transaction and the index of the event among its publishable events. Neither the state of the gate,
  nor what was sent in this process before, nor which other events the bus refused has any influence, so a
  transaction streamed again after a lost connection or a restart produces the same ids.
\<close>

theorem source_ids_stable:
  assumes "ev_Type b = Begin" "\<forall>e \<in> set es. IsPublishable (ev_Type e)"
  shows "map ev_SourceID (filter (\<lambda>e. IsPublishable (ev_Type e)) (drop (length (l_out l)) (l_out (fold (emit d) (b # es) l)))) =
     map (\<lambda>x. source_id d (TransactionLSN (l_parser l)) (fst x))
       (filter (\<lambda>x. fst (HandleEvent (l_service l) (snd x))) (enumerate 0 es))"
proof -
  let ?l = "emit d b l"
  have i: "l_txnIndex ?l = 0" using assms(1) by (simp add: emit_Begin)
  obtain bs where bs: "l_out ?l = l_out l @ bs" "filter (\<lambda>e. IsPublishable (ev_Type e)) bs = []"
    using assms(1) by (auto simp: emit_Begin IsPublishable_def split: if_splits)
  obtain outs where "l_out (fold (emit d) es ?l) = l_out ?l @ outs" "\<forall>e \<in> set outs. IsPublishable (ev_Type e)"
    "map ev_SourceID outs = map (\<lambda>x. source_id d (TransactionLSN (l_parser l)) (fst x))
       (filter (\<lambda>x. fst (HandleEvent (l_service l) (snd x))) (enumerate 0 es))"
    using emits_publishable_out [OF assms(2), of d ?l] by (auto simp: i)
  then show ?thesis using bs by simp
qed

definition demo_driver :: driver where
  "demo_driver = \<lparr>lsn_string = (\<lambda>p. itoa (unat p)), parse_keepalive = (\<lambda>s. None), parse_xlog = (\<lambda>s. None)\<rparr>"

definition demo_row :: "gostring \<Rightarrow> Event" where
  "demo_row data = NewEvent 0 Insert ''public'' ''t'' data [] ''0/1''"

theorem source_ids_stable_witness:
  "map ev_SourceID (filter (\<lambda>e. IsPublishable (ev_Type e)) (l_out (fold (emit demo_driver)
     [NewEvent 0 Begin [] [] [] [] [], demo_row [], demo_row ''!'', demo_row []]
     (NewListener [] False None NewService)))) = [''pg:0:0'', ''pg:0:2'']"
proof -
  have json: "\<not> json_valid ''!''" by (simp add: json_valid_def json_valid_upto_def begin_value_def is_space_def is_digit_def)
  have digits: "itoa 0 = ''0'' \<and> itoa (Suc (Suc 0)) = ''2''" by code_simp
  have l: "l_out (NewListener [] False None NewService) = []" "TransactionLSN (l_parser (NewListener [] False None NewService)) = 0"
    "\<not> svc_closed (l_service (NewListener [] False None NewService))"
    by (simp_all add: NewListener_def NewParser_def TransactionLSN_def NewService_def)
  show ?thesis
    using source_ids_stable [of "NewEvent 0 Begin [] [] [] [] []" "[demo_row [], demo_row ''!'', demo_row []]"
      "NewListener [] False None NewService" demo_driver]
    by (simp add: l demo_row_def NewEvent_def IsPublishable_def HandleEvent_def accepts_def isTableEvent_def json digits
        source_id_def demo_driver_def del: fold_simps)
qed

text \<open>
  Two different changes never share an id: as positions print differently, the id determines the
  transaction and the index within it.
\<close>

theorem source_id_unique:
  assumes "inj (lsn_string d)"
  shows "source_id d t i = source_id d t' i' \<longleftrightarrow> t = t' \<and> i = i'"
proof -
  have "source_id d t i = (''pg:'' @ lsn_string d t) @ CHR '':'' # itoa i" for t i by (simp add: source_id_def)
  then show ?thesis using assms by (simp only: itoa_suffix_inject) (auto dest: injD)
qed

lemma itoa_inj: "itoa m = itoa n \<longleftrightarrow> m = n"
  using itoa_suffix_inject [of "[]" m "[]" n] by simp

theorem source_id_unique_witness: "source_id demo_driver 5 1 \<noteq> source_id demo_driver 51 0"
proof -
  have "inj (lsn_string demo_driver)" by (rule injI) (simp add: demo_driver_def itoa_inj word_unat_eq_iff)
  from source_id_unique [OF this, of 5 1 51 0] show ?thesis by simp
qed

subsection \<open>Reconnecting\<close>

lemma failing_delays:
  assumes "\<forall>a \<in> set as. \<not> at_open_ok a \<or> \<not> at_start_ok a"
  shows "fst (listenLoop d as delay l) = map (\<lambda>n. (double_up_to maxReconnectDelay ^^ n) delay) [0..<length as]"
  using assms
proof (induction as arbitrary: delay l)
  case (Cons a as)
  obtain e l' where c: "connectAndStream d a (fold observe (at_published a) l) = (Some e, l')"
    using Cons.prems by (cases "at_open_ok a") (auto simp: connectAndStream_def)
  have up: "[0..<length (a # as)] = 0 # map Suc [0..<length as]"
    using upt_conv_Cons [of 0 "Suc (length as)"] by (simp del: upt_Suc add: map_Suc_upt)
  show ?case
    unfolding up using Cons by (simp del: upt_Suc add: c Let_def case_prod_unfold funpow_swap1 funpow_Suc_right comp_def)
qed simp

text \<open>
  While PostgreSQL is unreachable the listener waits one second, then twice as long after each failed
  attempt, and never more than thirty seconds.
\<close>

theorem reconnect_delays:
  assumes "\<forall>a \<in> set as. \<not> at_open_ok a \<or> \<not> at_start_ok a"
  shows "fst (listenLoop d as (seconds 1) l) = map (\<lambda>n. min (seconds (2 ^ n)) (seconds 30)) [0..<length as]"
  using failing_delays [OF assms, of d "seconds 1" l]
  by (simp add: funpow_double_up_to maxReconnectDelay_def seconds_def mult.commute)

definition refused_attempt :: attempt where
  "refused_attempt = \<lparr>at_published = [], at_now = 0, at_open_ok = False, at_start_ok = False, at_inputs = []\<rparr>"

theorem reconnect_delays_witness:
  "fst (listenLoop demo_driver (replicate 7 refused_attempt) (seconds 1) (NewListener [] False None NewService)) =
     map seconds [1, 2, 4, 8, 16, 30, 30]"
proof -
  have "[0..<7] = [0, 1, 2, 3, 4, 5, 6 :: nat]" by code_simp
  then show ?thesis
    using reconnect_delays [of "replicate 7 refused_attempt" demo_driver "NewListener [] False None NewService"]
    by (simp add: refused_attempt_def seconds_def)
qed

subsection \<open>The listener implements the protocol of the gate\<close>

text \<open>
  \<open>xlog_parse\<close> is what one XLogData frame makes the listener emit, and the parser afterwards.
\<close>

definition xlog_parse :: "driver \<Rightarrow> int \<Rightarrow> bool \<Rightarrow> gostring \<Rightarrow> Parser \<Rightarrow> (Event list \<times> Parser) option" where
  "xlog_parse d now io_ok data p =
     (case parse_xlog d data of
        None \<Rightarrow> None
      | Some (walStart, walData) \<Rightarrow>
          let received = lsn_string d (walStart + of_nat (length walData));
              (event, handled, p') = Parse (now div 1000000) io_ok walData received (p\<lparr>lsnProvider := Some received\<rparr>)
          in Some (handled @ (case event of None \<Rightarrow> [] | Some e \<Rightarrow> [e]), p'))"

lemma handleXLogData_emits:
  assumes "xlog_parse d now io data (l_parser l) = Some (es, p)"
  shows "\<exists>l' st'. handleXLogData d now io data (l, st) = (None, l', st') \<and>
    l_ack l' = l_ack (fold (emit d) es (l\<lparr>l_parser := p\<rparr>)) \<and> l_sent l' = l_sent l"
proof -
  have lag: "l_ack (emit d e (l\<lparr>l_lag := x\<rparr>)) = l_ack (emit d e l)" for e l x
    by (simp add: emit_gate emit_op_def)
  show ?thesis
    using assms
    by (auto simp: xlog_parse_def handleXLogData_def Let_def case_prod_unfold lag split: option.splits)
qed

text \<open>
  A running listener together with the primary: the session, and the state of the environment of
  \<open>pg_step\<close>, whose gate is replaced by the listener's own. \<open>told\<close> adds the positions of
  the status messages a handler sent.
\<close>

type_synonym lsys = "session \<times> pgsys"

definition lsys_abs :: "lsys \<Rightarrow> pgsys" where
  "lsys_abs S = (snd S)\<lparr>gate := l_ack (fst (fst S))\<rparr>"

definition told :: "session \<Rightarrow> session \<Rightarrow> pgsys \<Rightarrow> pgsys" where
  "told s s' env = env\<lparr>confirmed := fold max (drop (length (l_sent (fst s))) (l_sent (fst s'))) (confirmed env)\<rparr>"

fun sent_changes :: "Listener \<Rightarrow> Event list \<Rightarrow> pgsys \<Rightarrow> pgsys" where
  "sent_changes l [] env = env"
| "sent_changes l (e # es) env = sent_changes l es
     (if fst (HandleEvent (l_service l) e)
      then env\<lparr>log := log env @ [(next_txn env, sent env)], sent := Suc (sent env)\<rparr>
      else env\<lparr>refused := insert (next_txn env, sent env) (refused env), sent := Suc (sent env)\<rparr>)"

inductive stream_step :: "driver \<Rightarrow> txn list \<Rightarrow> lsys \<Rightarrow> lsys \<Rightarrow> bool" for d W where
  wal_begin: "xlog_parse d now io data (l_parser (fst s)) = Some ([b], p) \<Longrightarrow> ev_Type b = Begin \<Longrightarrow>
     \<not> inside env \<Longrightarrow> next_txn env < length W \<Longrightarrow>
     stream_step d W (s, env) (snd (handleXLogData d now io data s), env\<lparr>inside := True, sent := 0\<rparr>)"
| wal_changes: "xlog_parse d now io data (l_parser (fst s)) = Some (es, p) \<Longrightarrow>
     \<forall>e \<in> set es. IsPublishable (ev_Type e) \<Longrightarrow> inside env \<Longrightarrow> sent env + length es \<le> t_count (W ! next_txn env) \<Longrightarrow>
     stream_step d W (s, env) (snd (handleXLogData d now io data s), sent_changes (fst s) es env)"
| wal_commit: "xlog_parse d now io data (l_parser (fst s)) = Some ([c], p) \<Longrightarrow> ev_Type c = Commit \<Longrightarrow>
     inside env \<Longrightarrow> sent env = t_count (W ! next_txn env) \<Longrightarrow> CommitEndLSN p = t_end (W ! next_txn env) \<Longrightarrow>
     stream_step d W (s, env) (snd (handleXLogData d now io data s), env\<lparr>inside := False, next_txn := Suc (next_txn env)\<rparr>)"
| wal_bad: "xlog_parse d now io data (l_parser (fst s)) = None \<Longrightarrow>
     stream_step d W (s, env) (snd (handleXLogData d now io data s), env)"
| keepalive_msg: "parse_keepalive d data = Some (p, reply) \<Longrightarrow> keepalive_ok W env p \<Longrightarrow>
     s' = snd (handleKeepalive d now ok data s) \<Longrightarrow> stream_step d W (s, env) (s', told s s' env)"
| maintain: "s' = snd (maintainHeartbeatAndStatus d now ok s) \<Longrightarrow> stream_step d W (s, env) (s', told s s' env)"
| new_session: "resume_ok W env k \<Longrightarrow>
     stream_step d W ((l, st), env) (startSession d now l, env\<lparr>next_txn := k, inside := False, sent := 0\<rparr>)"

text \<open>A step of the listener on its own, an acknowledgement by the publisher, or a restart of the process.\<close>

inductive listener_step :: "driver \<Rightarrow> txn list \<Rightarrow> lsys \<Rightarrow> lsys \<Rightarrow> bool" for d W where
  own: "stream_step d W S S' \<Longrightarrow> listener_step d W S S'"
| published: "ag_acked (l_ack l) < length (log env) \<Longrightarrow> ev_Sequence e = Suc (ag_acked (l_ack l)) \<Longrightarrow>
     listener_step d W ((l, st), env)
       ((observe e l, st), env\<lparr>delivered := insert (log env ! ag_acked (l_ack l)) (delivered env)\<rparr>)"
| restart: "resume_ok W env k \<Longrightarrow>
     listener_step d W (s, env) (startSession d now (PublishedObserver (NewListener tables ddl store service)),
       env\<lparr>log := [], next_txn := k, inside := False, sent := 0\<rparr>)"

subsubsection \<open>Simulation\<close>

lemma gate_first:
  "env\<lparr>next_txn := j, gate := g\<rparr> = env\<lparr>gate := g, next_txn := j\<rparr>"
  "env\<lparr>inside := b, gate := g\<rparr> = env\<lparr>gate := g, inside := b\<rparr>"
  "env\<lparr>sent := n, gate := g\<rparr> = env\<lparr>gate := g, sent := n\<rparr>"
  "env\<lparr>log := xs, gate := g\<rparr> = env\<lparr>gate := g, log := xs\<rparr>"
  "env\<lparr>delivered := X, gate := g\<rparr> = env\<lparr>gate := g, delivered := X\<rparr>"
  "env\<lparr>refused := X, gate := g\<rparr> = env\<lparr>gate := g, refused := X\<rparr>"
  "env\<lparr>confirmed := p, gate := g\<rparr> = env\<lparr>gate := g, confirmed := p\<rparr>"
  for env :: pgsys
  by simp_all

lemma emits_change_steps:
  assumes "\<forall>e \<in> set es. IsPublishable (ev_Type e)" "inside env" "sent env + length es \<le> t_count (W ! next_txn env)"
  shows "pg_reach W (env\<lparr>gate := l_ack l\<rparr>) ((sent_changes l es env)\<lparr>gate := l_ack (fold (emit d) es l)\<rparr>)"
  using assms
proof (induction es arbitrary: l env)
  case (Cons e es)
  let ?acc = "fst (HandleEvent (l_service l) e)"
  let ?env = "if ?acc then env\<lparr>log := log env @ [(next_txn env, sent env)], sent := Suc (sent env)\<rparr>
      else env\<lparr>refused := insert (next_txn env, sent env) (refused env), sent := Suc (sent env)\<rparr>"
  have pub: "IsPublishable (ev_Type e)" and n: "sent env < t_count (W ! next_txn env)" using Cons.prems by auto
  have svc: "sent_changes l es x = sent_changes (emit d e l) es x" for x
    by (induction es arbitrary: x) simp_all
  have "pg_step W (env\<lparr>gate := l_ack l\<rparr>) (?env\<lparr>gate := l_ack (emit d e l)\<rparr>)"
    using pg_step.change [of "env\<lparr>gate := l_ack l\<rparr>" W e] pg_step.refuse [of "env\<lparr>gate := l_ack l\<rparr>" W e]
      Cons.prems(2) n by (auto simp: emit_publishable [OF pub] gate_first)
  moreover have "pg_reach W (?env\<lparr>gate := l_ack (emit d e l)\<rparr>)
      ((sent_changes (emit d e l) es ?env)\<lparr>gate := l_ack (fold (emit d) es (emit d e l))\<rparr>)"
    by (rule Cons.IH) (use Cons.prems in auto)
  ultimately have "pg_reach W (env\<lparr>gate := l_ack l\<rparr>)
      ((sent_changes (emit d e l) es ?env)\<lparr>gate := l_ack (fold (emit d) es (emit d e l))\<rparr>)" by (rule pg_reach_step)
  then show ?case by (simp add: svc)
qed simp

text \<open>
  \<open>answers W s s'\<close>: from \<open>s\<close> to \<open>s'\<close> the listener only evaluated the gate and sent the status
  messages that \<open>told\<close> accounts for, whether or not each write succeeded.
\<close>

definition answers :: "txn list \<Rightarrow> session \<Rightarrow> session \<Rightarrow> bool" where
  "answers W s s' \<longleftrightarrow> (\<exists>ts. l_sent (fst s') = l_sent (fst s) @ ts) \<and>
     (\<forall>env. pg_reach W (env\<lparr>gate := l_ack (fst s)\<rparr>) ((told s s' env)\<lparr>gate := l_ack (fst s')\<rparr>))"

lemma told_same: "l_sent (fst s') = l_sent (fst s) \<Longrightarrow> told s s' env = env"
  by (simp add: told_def)

lemma answers_same: "l_ack (fst s') = l_ack (fst s) \<Longrightarrow> l_sent (fst s') = l_sent (fst s) \<Longrightarrow> answers W s s'"
  by (simp add: answers_def told_same)

lemma answers_unsent:
  assumes "l_ack (fst s') = snd (ackGate_Flush (l_ack (fst s)))" "l_sent (fst s') = l_sent (fst s)"
  shows "answers W s s'"
  using assms pg_step.flush_unsent [of W "env\<lparr>gate := l_ack (fst s)\<rparr>" for env]
  by (auto simp: answers_def told_same)

lemma answers_sent:
  assumes "l_ack (fst s') = snd (ackGate_Flush (l_ack (fst s)))"
    "l_sent (fst s') = l_sent (fst s) @ [fst (ackGate_Flush (l_ack (fst s)))]"
  shows "answers W s s'"
proof -
  let ?F = "ackGate_Flush (l_ack (fst s))"
  have "pg_step W (env\<lparr>gate := l_ack (fst s)\<rparr>) (env\<lparr>gate := snd ?F, confirmed := max (confirmed env) (fst ?F)\<rparr>)" for env
    using pg_step.status [of "env\<lparr>gate := l_ack (fst s)\<rparr>" "fst ?F" "snd ?F" W] by simp
  then show ?thesis
    using assms by (auto simp: answers_def told_def gate_first max.commute)
qed

lemma answers_trans:
  assumes "answers W a b" "answers W b c"
  shows "answers W a c"
proof -
  obtain ts us where t: "l_sent (fst b) = l_sent (fst a) @ ts" "l_sent (fst c) = l_sent (fst b) @ us"
    using assms by (auto simp: answers_def)
  then have "told b c (told a b env) = told a c env" for env by (simp add: told_def)
  then show ?thesis
    using assms t unfolding answers_def by (metis append.assoc rtranclp_trans)
qed

lemma answers_sendStatus: "answers W s (snd (sendStatus now ok s))"
proof (cases ok)
  case True
  then show ?thesis by (intro answers_sent) (simp_all add: sendStatus_def Let_def case_prod_unfold)
next
  case False
  then show ?thesis by (intro answers_unsent) (simp_all add: sendStatus_def Let_def case_prod_unfold)
qed

lemma answers_maintain: "answers W s (snd (maintainHeartbeatAndStatus d now ok s))"
proof -
  have bus: "answers W x (snd (to_bus e (fst x)), st)" for x e st by (rule answers_same) simp_all
  show ?thesis
    by (auto simp: maintainHeartbeatAndStatus_def Let_def case_prod_unfold
        intro: answers_sendStatus answers_same answers_trans [OF bus answers_sendStatus]
          answers_trans [OF answers_sendStatus answers_trans [OF bus answers_sendStatus]])
qed

lemma answers_keepalive:
  assumes "parse_keepalive d data = Some (p, reply)" "keepalive_ok W env p"
  shows "pg_reach W (lsys_abs (s, env)) (lsys_abs (snd (handleKeepalive d now ok data s),
     told s (snd (handleKeepalive d now ok data s)) env))"
proof -
  obtain l st where s: "s = (l, st)" by (rule prod.exhaust)
  define l1 where "l1 = (if \<not> ackGate_Pending (l_ack l) then l\<lparr>l_lag := ObserveCaughtUp (l_lag l)\<rparr> else l)
    \<lparr>l_ack := ackGate_Idle p (l_ack l)\<rparr>"
  let ?st = "if p > rs_receivedLSN st then st\<lparr>rs_receivedLSN := p\<rparr> else st"
  let ?s1 = "(l1, ?st)"
  let ?s2 = "snd (handleKeepalive d now ok data s)"
  have l1: "l_ack l1 = ackGate_Idle p (l_ack l)" "l_sent l1 = l_sent l" by (simp_all add: l1_def)
  have "handleKeepalive d now ok data s =
    (if \<not> reply
     then if fst (ackGate_Flush (l_ack l1)) = rs_lastFlushSent ?st then (None, l1\<lparr>l_ack := snd (ackGate_Flush (l_ack l1))\<rparr>, ?st)
          else sendStatus now ok (l1\<lparr>l_ack := snd (ackGate_Flush (l_ack l1))\<rparr>, ?st)
     else sendStatus now ok ?s1)"
    unfolding handleKeepalive_def s assms(1) l1_def by (simp add: Let_def case_prod_unfold)
  moreover have "answers W ?s1 (l1\<lparr>l_ack := snd (ackGate_Flush (l_ack l1))\<rparr>, ?st)"
    by (rule answers_unsent) simp_all
  ultimately have "answers W ?s1 ?s2"
    by (auto intro: answers_sendStatus answers_trans [OF _ answers_sendStatus])
  then have "pg_reach W (env\<lparr>gate := ackGate_Idle p (l_ack l)\<rparr>) ((told ?s1 ?s2 env)\<lparr>gate := l_ack (fst ?s2)\<rparr>)"
    by (simp add: answers_def l1)
  moreover have "told ?s1 ?s2 env = told s ?s2 env" by (simp add: told_def l1 s)
  moreover have "pg_step W (env\<lparr>gate := l_ack l\<rparr>) (env\<lparr>gate := ackGate_Idle p (l_ack l)\<rparr>)"
    using pg_step.keepalive [of W "env\<lparr>gate := l_ack l\<rparr>" p] assms(2) by (simp add: keepalive_ok_def)
  ultimately show ?thesis by (auto simp: lsys_abs_def s intro: pg_reach_step)
qed

lemma xlog_ack:
  assumes "xlog_parse d now io data (l_parser (fst s)) = Some (es, p)"
  shows "l_ack (fst (snd (handleXLogData d now io data s))) = l_ack (fold (emit d) es ((fst s)\<lparr>l_parser := p\<rparr>))"
  using handleXLogData_emits [of d now io data "fst s" es p "snd s"] assms by auto

text \<open>
  Every step of a running listener is a run of the gate in its environment.
\<close>

lemma stream_step_sim:
  assumes "stream_step d W S S'"
  shows "pg_reach W (lsys_abs S) (lsys_abs S')"
  using assms
proof (cases rule: stream_step.cases)
  case (wal_begin now io data s b p env)
  then show ?thesis
    using pg_step.txn_begin [of "lsys_abs S" W] xlog_ack [OF wal_begin(3)]
    by (simp add: lsys_abs_def emit_gate emit_op_def gate_first r_into_rtranclp)
next
  case (wal_changes now io data s es p env)
  have "sent_changes (fst s) es env = sent_changes ((fst s)\<lparr>l_parser := p\<rparr>) es env" for env
    by (induction es arbitrary: env) simp_all
  then show ?thesis
    using emits_change_steps [OF wal_changes(4-6), of "(fst s)\<lparr>l_parser := p\<rparr>" d] xlog_ack [OF wal_changes(3)] wal_changes(1,2)
    by (simp add: lsys_abs_def)
next
  case (wal_commit now io data s c p env)
  then show ?thesis
    using pg_step.commit [of "lsys_abs S" W] xlog_ack [OF wal_commit(3)]
    by (simp add: lsys_abs_def emit_gate emit_op_def gate_first r_into_rtranclp)
next
  case (wal_bad now io data s env)
  then show ?thesis
    by (cases s) (auto simp: xlog_parse_def handleXLogData_def lsys_abs_def Let_def split: option.splits prod.splits)
next
  case (keepalive_msg data p reply env s' now ok s)
  then show ?thesis using answers_keepalive by blast
next
  case (maintain s' now ok s env)
  then show ?thesis using answers_maintain [of W s d now ok] by (simp add: answers_def lsys_abs_def)
next
  case (new_session env k l st now)
  then show ?thesis
    using pg_step.reconnect [of W "lsys_abs S" k]
    by (simp add: lsys_abs_def startSession_def Let_def resume_ok_def gate_first r_into_rtranclp)
qed

lemma listener_step_sim:
  assumes "listener_step d W S S'"
  shows "pg_reach W (lsys_abs S) (lsys_abs S')"
  using assms
proof (cases rule: listener_step.cases)
  case own
  then show ?thesis by (rule stream_step_sim)
next
  case (published l env e st)
  then show ?thesis
    using pg_step.ack [of "lsys_abs S" e W] by (simp add: lsys_abs_def observe_def gate_first r_into_rtranclp)
next
  case (restart env k s now tables ddl store service)
  let ?env = "env\<lparr>gate := ackGate_Enable newAckGate, next_txn := k, inside := False, sent := 0, log := []\<rparr>"
  have 1: "pg_step W (lsys_abs S) ?env"
    using pg_step.crash [of W "lsys_abs S" k] restart by (simp add: lsys_abs_def resume_ok_def)
  have "pg_step W ?env (lsys_abs S')"
    using pg_step.reconnect [of W ?env k] restart
    by (simp add: lsys_abs_def startSession_def PublishedObserver_def NewListener_def Let_def resume_ok_def gate_first)
  then show ?thesis using 1 by (meson pg_reach_step r_into_rtranclp)
qed

abbreviation listener_reach :: "driver \<Rightarrow> txn list \<Rightarrow> lsys \<Rightarrow> lsys \<Rightarrow> bool" where
  "listener_reach d W \<equiv> (listener_step d W)\<^sup>*\<^sup>*"

definition lsys_init :: "driver \<Rightarrow> int \<Rightarrow> Listener \<Rightarrow> lsys" where
  "lsys_init d now l = (startSession d now (PublishedObserver l), pgsys_init)"

lemma lsys_init_abs: "lsys_abs (lsys_init d now (NewListener tables ddl store service)) = pgsys_init"
  by (simp add: lsys_abs_def lsys_init_def startSession_def Let_def PublishedObserver_def NewListener_def
      pgsys_init_def ackGate_defs)

definition positions_told :: "lsys \<Rightarrow> bool" where
  "positions_told S \<longleftrightarrow> (\<forall>p \<in> set (l_sent (fst (fst S))). p \<le> confirmed (snd S))"

lemma positions_told_answers:
  assumes "positions_told (s, env)" "answers W s s'"
  shows "positions_told (s', told s s' env)"
  using assms by (auto simp: positions_told_def answers_def told_def fold_max_ge_iff)

lemma sent_changes_confirmed [simp]: "confirmed (sent_changes l es env) = confirmed env"
  by (induction l es env rule: sent_changes.induct) simp_all

lemma handleXLogData_sent: "l_sent (fst (snd (handleXLogData d now io data s))) = l_sent (fst s)"
  by (cases s) (auto simp: handleXLogData_def Let_def case_prod_unfold split: option.split)

lemma positions_told_keepalive:
  assumes "positions_told (s, env)"
  shows "positions_told (snd (handleKeepalive d now ok data s), told s (snd (handleKeepalive d now ok data s)) env)"
proof -
  have "\<exists>ts. l_sent (fst (snd (handleKeepalive d now ok data s))) = l_sent (fst s) @ ts"
    by (auto simp: handleKeepalive_def sendStatus_def Let_def case_prod_unfold split: option.split)
  then show ?thesis using assms by (auto simp: positions_told_def told_def fold_max_ge_iff)
qed

lemma positions_told_stream:
  assumes "stream_step d W S S'" "positions_told S"
  shows "positions_told S'"
  using assms
proof (cases rule: stream_step.cases)
  case (maintain s' now ok s env)
  then show ?thesis using assms(2) positions_told_answers [OF _ answers_maintain] by blast
next
  case (keepalive_msg data p reply env s' now ok s)
  then show ?thesis using assms(2) positions_told_keepalive by blast
qed (use assms(2) in \<open>auto simp: positions_told_def handleXLogData_sent startSession_def Let_def\<close>)

lemma positions_told_step:
  assumes "listener_step d W S S'" "positions_told S"
  shows "positions_told S'"
  using assms
proof (cases rule: listener_step.cases)
  case own
  then show ?thesis using assms(2) by (rule positions_told_stream)
qed (use assms(2) in \<open>auto simp: positions_told_def observe_def startSession_def PublishedObserver_def NewListener_def Let_def\<close>)

lemma listener_reach_sim:
  "listener_reach d W S S' \<Longrightarrow> pg_reach W (lsys_abs S) (lsys_abs S')"
  by (induction rule: rtranclp_induct) (auto dest: listener_step_sim)

lemma positions_told_reach: "listener_reach d W S S' \<Longrightarrow> positions_told S \<Longrightarrow> positions_told S'"
  by (induction rule: rtranclp_induct) (auto dest: positions_told_step)

text \<open>A run: one transaction with a TRUNCATE, acknowledged, then a periodic status.\<close>

definition raw_driver :: driver where
  "raw_driver = \<lparr>lsn_string = (\<lambda>p. []), parse_keepalive = (\<lambda>s. None), parse_xlog = (\<lambda>s. Some (0, s))\<rparr>"

definition zeros :: "nat \<Rightarrow> gostring" where
  "zeros n = replicate n (CHR 0x00)"

definition commit_at_one :: gostring where
  "commit_at_one = ''C'' @ zeros 16 @ [CHR 0x01] @ zeros 8"

definition relation_one :: gostring where
  "relation_one = ''R'' @ zeros 3 @ [CHR 0x01] @ ''s'' @ zeros 1 @ ''t'' @ zeros 4"

definition truncate_one :: gostring where
  "truncate_one = ''T'' @ zeros 3 @ [CHR 0x01] @ zeros 1 @ zeros 3 @ [CHR 0x01]"

definition demo_session :: "gostring list \<Rightarrow> session" where
  "demo_session ms = fold (\<lambda>m s. snd (handleXLogData raw_driver 0 True m s)) ms
     (startSession raw_driver 0 (PublishedObserver (NewListener [] False None NewService)))"

definition demo_parse :: "gostring list \<Rightarrow> gostring \<Rightarrow> ((EventType \<times> bool) list \<times> u64) option" where
  "demo_parse ms m = map_option (\<lambda>(es, p). (map (\<lambda>e. (ev_Type e, fst (HandleEvent (l_service (fst (demo_session ms))) e))) es,
     CommitEndLSN p)) (xlog_parse raw_driver 0 True m (l_parser (fst (demo_session ms))))"

lemma accepts_code [code]:
  "accepts s e = (if svc_closed s then False else if isTableEvent (ev_Type e)
     then (if ev_Data e = [] then True else json_valid (ev_Data e)) else True)"
  by (simp add: accepts_def)

lemma demo_parses:
  "demo_parse [] ''B'' = Some ([(Begin, True)], 0)"
  "demo_parse [''B''] relation_one = Some ([], 0)"
  "demo_parse [''B'', relation_one] truncate_one = Some ([(Truncate, True)], 0)"
  "demo_parse [''B'', relation_one, truncate_one] commit_at_one = Some ([(Commit, True)], 1)"
  by code_simp+

lemma demo_parse_xlog:
  assumes "demo_parse ms m = Some (ts, c)"
  obtains es p where "xlog_parse raw_driver 0 True m (l_parser (fst (demo_session ms))) = Some (es, p)"
    "map (\<lambda>e. (ev_Type e, fst (HandleEvent (l_service (fst (demo_session ms))) e))) es = ts" "CommitEndLSN p = c"
  using assms by (auto simp: demo_parse_def)

lemma demo_session_snoc: "snd (handleXLogData raw_driver 0 True m (demo_session ms)) = demo_session (ms @ [m])"
  by (simp add: demo_session_def)

definition one_truncate :: "txn list" where
  "one_truncate = [\<lparr>t_end = 1, t_count = 1\<rparr>]"

definition demo_messages :: "gostring list" where
  "demo_messages = [''B'', relation_one, truncate_one, commit_at_one]"

definition demo_ack :: Event where
  "demo_ack = (NewEvent 0 Truncate [] [] [] [] [])\<lparr>ev_Sequence := 1\<rparr>"

definition demo_observed :: session where
  "demo_observed = (observe demo_ack (fst (demo_session demo_messages)), snd (demo_session demo_messages))"

definition demo_told :: session where
  "demo_told = snd (maintainHeartbeatAndStatus raw_driver (seconds 10) True demo_observed)"

lemma demo_told_sent: "l_sent (fst demo_told) = [1] \<and> l_sent (fst demo_observed) = []"
  by code_simp

lemma demo_not_acked: "ag_acked (l_ack (fst (demo_session demo_messages))) = 0"
  by code_simp

text \<open>The states of the environment along the run.\<close>

definition demo_env :: "nat \<Rightarrow> pgsys" where
  "demo_env n = [pgsys_init, pgsys_init\<lparr>inside := True, sent := 0\<rparr>, pgsys_init\<lparr>inside := True, sent := 1, log := [(0, 0)]\<rparr>,
     pgsys_init\<lparr>sent := 1, log := [(0, 0)], next_txn := 1\<rparr>,
     pgsys_init\<lparr>sent := 1, log := [(0, 0)], next_txn := 1, delivered := {(0, 0)}\<rparr>,
     pgsys_init\<lparr>sent := 1, log := [(0, 0)], next_txn := 1, delivered := {(0, 0)}, confirmed := 1\<rparr>] ! n"

lemma demo_stream_steps:
  "stream_step raw_driver one_truncate (demo_session [], demo_env 0) (demo_session [''B''], demo_env 1)"
  "stream_step raw_driver one_truncate (demo_session [''B''], demo_env 1) (demo_session [''B'', relation_one], demo_env 1)"
  "stream_step raw_driver one_truncate (demo_session [''B'', relation_one], demo_env 1) (demo_session [''B'', relation_one, truncate_one], demo_env 2)"
  "stream_step raw_driver one_truncate (demo_session [''B'', relation_one, truncate_one], demo_env 2) (demo_session demo_messages, demo_env 3)"
  "stream_step raw_driver one_truncate (demo_observed, demo_env 4) (demo_told, demo_env 5)"
proof -
  let ?step = "stream_step raw_driver one_truncate"
  show "?step (demo_session [], demo_env 0) (demo_session [''B''], demo_env 1)"
    by (rule demo_parse_xlog [OF demo_parses(1)])
      (use stream_step.wal_begin [of raw_driver 0 True "''B''" "demo_session []" _ _ "demo_env 0" one_truncate]
       in \<open>auto simp: demo_session_snoc pgsys_init_def one_truncate_def demo_env_def\<close>)
  show "?step (demo_session [''B''], demo_env 1) (demo_session [''B'', relation_one], demo_env 1)"
    by (rule demo_parse_xlog [OF demo_parses(2)])
      (use stream_step.wal_changes [of raw_driver 0 True relation_one "demo_session [''B'']" "[]" _ "demo_env 1" one_truncate]
       in \<open>auto simp: demo_session_snoc demo_env_def pgsys_init_def one_truncate_def\<close>)
  show "?step (demo_session [''B'', relation_one], demo_env 1) (demo_session [''B'', relation_one, truncate_one], demo_env 2)"
    by (rule demo_parse_xlog [OF demo_parses(3)])
      (use stream_step.wal_changes [of raw_driver 0 True truncate_one "demo_session [''B'', relation_one]" _ _ "demo_env 1" one_truncate]
       in \<open>auto simp: demo_session_snoc IsPublishable_def pgsys_init_def one_truncate_def demo_env_def\<close>)
  show "?step (demo_session [''B'', relation_one, truncate_one], demo_env 2) (demo_session demo_messages, demo_env 3)"
    by (rule demo_parse_xlog [OF demo_parses(4)])
      (use stream_step.wal_commit [of raw_driver 0 True commit_at_one "demo_session [''B'', relation_one, truncate_one]" _ _ "demo_env 2" one_truncate]
       in \<open>auto simp: demo_session_snoc pgsys_init_def one_truncate_def demo_messages_def demo_env_def\<close>)
  show "?step (demo_observed, demo_env 4) (demo_told, demo_env 5)"
    using stream_step.maintain [OF refl, of raw_driver one_truncate demo_observed "demo_env 4" "seconds 10" True]
    by (simp add: told_def demo_told_sent pgsys_init_def demo_env_def flip: demo_told_def)
qed

lemma demo_truncate_run:
  "listener_reach raw_driver one_truncate (lsys_init raw_driver 0 (NewListener [] False None NewService)) (demo_told, demo_env 5)"
proof -
  have "listener_step raw_driver one_truncate (demo_session demo_messages, demo_env 3) (demo_observed, demo_env 4)"
    using listener_step.published [of "fst (demo_session demo_messages)" "demo_env 3" demo_ack raw_driver one_truncate "snd (demo_session demo_messages)"]
    by (simp add: demo_not_acked demo_observed_def demo_ack_def pgsys_init_def demo_env_def)
  then have "listener_reach raw_driver one_truncate (demo_session [], demo_env 0) (demo_told, demo_env 5)"
    using demo_stream_steps [THEN listener_step.own] by (meson converse_rtranclp_into_rtranclp r_into_rtranclp)
  then show ?thesis by (simp add: lsys_init_def demo_session_def demo_env_def)
qed

text \<open>
  At-least-once delivery seen from the wire: whatever WAL messages, keepalives, acknowledgements, lost
  connections and restarts a listener goes through, every event of a transaction that ends at or below a
  position sent in a standby status message is stored by JetStream or was refused by the bus as invalid.
\<close>

theorem status_implies_delivered:
  assumes "wal_ok W" "listener_reach d W (lsys_init d now (NewListener tables ddl store service)) (s, env)"
    and "p \<in> set (l_sent (fst s))" "j < length W" "t_end (W ! j) \<le> p" "k < t_count (W ! j)"
  shows "(j, k) \<in> delivered env \<union> refused env"
proof -
  have "positions_told (lsys_init d now (NewListener tables ddl store service))"
    by (simp add: positions_told_def lsys_init_def startSession_def PublishedObserver_def NewListener_def Let_def)
  then have r: "pg_reach W pgsys_init (lsys_abs (s, env))" and "p \<le> confirmed env"
    using listener_reach_sim [OF assms(2)] positions_told_reach [OF assms(2)] assms(3) by (auto simp: lsys_init_abs positions_told_def)
  then show ?thesis
    using pg_inv_reach [OF assms(1) r pg_inv_init [OF assms(1)]] assms(4-6)
    by (auto simp: pg_inv_def covers_def settled_set_def lsys_abs_def)
qed

theorem status_implies_delivered_witness:
  "wal_ok one_truncate \<and> 1 \<in> set (l_sent (fst demo_told)) \<and> (0, 0) \<in> delivered (demo_env 5) \<union> refused (demo_env 5)"
proof -
  have "wal_ok one_truncate" by (simp add: wal_ok_def one_truncate_def)
  then show ?thesis
    using status_implies_delivered [OF _ demo_truncate_run, of 1 0 0] by (simp add: demo_told_sent one_truncate_def)
qed

text \<open>
  C6. The listener implements the protocol the gate is proved against: every run of a listener
  (WAL messages, keepalives, periodic status messages and heartbeats, acknowledgements, new sessions,
  restarts) is a run of the gate in its environment, with the gate the listener holds.
\<close>

theorem listener_refines_gate:
  assumes "listener_reach d W S S'"
  shows "pg_reach W (lsys_abs S) (lsys_abs S')"
  using assms by (rule listener_reach_sim)

theorem listener_refines_gate_witness: "pg_reach one_truncate pgsys_init (lsys_abs (demo_told, demo_env 5))"
  using listener_refines_gate [OF demo_truncate_run] by (simp only: lsys_init_abs)

end
