(* ===== verification/Pg_Delivery.thy ===== *)
theory Pg_Delivery
  imports Delivery Pg_Listener
begin

text \<open>
  The PostgreSQL listener as a source of \<open>Delivery\<close>: what each of its steps hands to the bus, the interpretation of
  \<open>event_source\<close> on the definitions of \<open>Pg_Listener\<close>, and the property of the whole path from the WAL to the stream.
  The simulation of the listener assumes that acknowledgements arrive in order, each for the next numbered event; here that is a
  consequence of the publisher's behaviour.
\<close>

section \<open>What the listener hands over\<close>

text \<open>
  From \<open>l\<close> to \<open>l'\<close> the listener only appended to the bus, and the publishable events it appended carry the
  numbers from the gate's counter on and identifiers of a PostgreSQL source.
\<close>

definition hands :: "Listener \<Rightarrow> Listener \<Rightarrow> bool" where
  "hands l l' \<longleftrightarrow> (\<exists>new. l_out l' = l_out l @ new \<and> ag_acked (l_ack l') = ag_acked (l_ack l) \<and> ag_handed (l_ack l) \<le> ag_handed (l_ack l') \<and>
     map ev_Sequence (filter publishable new) = [Suc (ag_handed (l_ack l))..<Suc (ag_handed (l_ack l'))] \<and>
     (\<forall>e \<in> set (filter publishable new). has_prefix (ev_SourceID e) ''pg:''))"

lemma hands_same:
  "l_out l' = l_out l \<Longrightarrow> ag_acked (l_ack l') = ag_acked (l_ack l) \<Longrightarrow> ag_handed (l_ack l') = ag_handed (l_ack l) \<Longrightarrow> hands l l'"
  by (simp add: hands_def)

lemma hands_trans:
  assumes "hands a b" "hands b c"
  shows "hands a c"
proof -
  obtain x y where x: "l_out b = l_out a @ x" "ag_handed (l_ack a) \<le> ag_handed (l_ack b)"
      "map ev_Sequence (filter publishable x) = [Suc (ag_handed (l_ack a))..<Suc (ag_handed (l_ack b))]" "\<forall>e \<in> set (filter publishable x). has_prefix (ev_SourceID e) ''pg:''"
    and y: "l_out c = l_out b @ y" "ag_handed (l_ack b) \<le> ag_handed (l_ack c)"
      "map ev_Sequence (filter publishable y) = [Suc (ag_handed (l_ack b))..<Suc (ag_handed (l_ack c))]" "\<forall>e \<in> set (filter publishable y). has_prefix (ev_SourceID e) ''pg:''"
    and "ag_acked (l_ack c) = ag_acked (l_ack a)"
    using assms by (auto simp: hands_def)
  moreover have "[Suc (ag_handed (l_ack a))..<Suc (ag_handed (l_ack b))] @ [Suc (ag_handed (l_ack b))..<Suc (ag_handed (l_ack c))] =
      [Suc (ag_handed (l_ack a))..<Suc (ag_handed (l_ack c))]"
    using upt_add_eq_append [of "Suc (ag_handed (l_ack a))" "Suc (ag_handed (l_ack b))" "ag_handed (l_ack c) - ag_handed (l_ack b)"] x(2) y(2)
    by (simp del: upt_Suc)
  ultimately show ?thesis by (auto simp: hands_def simp del: upt_Suc)
qed

lemma hands_to_bus: "\<not> publishable e \<Longrightarrow> hands l (snd (to_bus e l))"
  by (auto simp: hands_def)

lemma source_id_prefix: "has_prefix (source_id d txn i) ''pg:''"
  by (simp add: source_id_def has_prefix_def)

lemma hands_emit: "hands l (emit d e l)"
proof (cases "publishable e")
  case True
  then show ?thesis by (subst emit_publishable) (auto simp: hands_def ackGate_Hand_def ackGate_Unhand_def handed_event_def source_id_prefix Let_def)
next
  case False
  then show ?thesis by (auto simp: hands_def emit_def ackGate_Begin_def ackGate_Committed_def Let_def)
qed

lemma hands_emits: "hands l (fold (emit d) es l)"
  by (induction es arbitrary: l) (auto intro: hands_same hands_trans hands_emit)

lemma hands_sendStatus: "hands (fst s) (fst (snd (sendStatus now ok s)))"
  by (rule hands_same) (simp_all add: sendStatus_def ackGate_Flush_def Let_def case_prod_unfold)

lemma hands_handleXLogData: "hands (fst s) (fst (snd (handleXLogData d now io data s)))"
proof (cases "parse_xlog d data")
  case None
  then show ?thesis by (simp add: handleXLogData_def hands_same)
next
  case (Some x)
  obtain l st where s: "s = (l, st)" by (rule prod.exhaust)
  obtain start wal where x: "x = (start, wal)" by (rule prod.exhaust)
  let ?r = "lsn_string d (start + of_nat (length wal))"
  obtain ev es p where p: "Parse (now div 1000000) io wal ?r ((l_parser l)\<lparr>lsnProvider := Some ?r\<rparr>) = (ev, es, p)" by (rule prod_cases3)
  have 1: "hands l (fold (emit d) es (l\<lparr>l_parser := p\<rparr>))"
    by (rule hands_trans [OF hands_same hands_emits]) simp_all
  have 2: "hands l (emit d e (fold (emit d) es (l\<lparr>l_parser := p\<rparr>)\<lparr>l_lag := g\<rparr>))" for e g
    by (rule hands_trans [OF 1 hands_trans [OF hands_same hands_emit]]) simp_all
  have 3: "hands l (emit d e (fold (emit d) es (l\<lparr>l_parser := p\<rparr>)))" for e
    by (rule hands_trans [OF 1 hands_emit])
  show ?thesis
    using Some 1 2 3 by (cases ev) (auto simp: handleXLogData_def s x p Let_def)
qed

lemma hands_handleKeepalive: "hands (fst s) (fst (snd (handleKeepalive d now ok data s)))"
  by (rule hands_same)
    (auto simp: handleKeepalive_def sendStatus_def ackGate_Flush_def ackGate_Idle_def Let_def case_prod_unfold split: option.split)

lemma hands_maintain: "hands (fst s) (fst (snd (maintainHeartbeatAndStatus d now ok s)))"
proof -
  have beat: "hands l (snd (to_bus (heartbeat_event n x) l))" for l n x
    by (rule hands_to_bus) (simp add: heartbeat_event_def NewEvent_def IsPublishable_def)
  have send: "hands l (fst (snd (sendStatus now ok (l', st))))" if "hands l l'" for l l' st
    using that hands_sendStatus [of "(l', st)" now ok] by (auto intro: hands_trans)
  show ?thesis
    by (auto simp: maintainHeartbeatAndStatus_def Let_def case_prod_unfold
        intro!: send intro: hands_sendStatus hands_same beat hands_trans [OF hands_sendStatus beat])
qed

lemma hands_startSession: "hands l (fst (startSession d now l))"
  by (rule hands_same) (simp_all add: startSession_def ackGate_NewSession_def Let_def)

lemma sent_changes_log: "\<exists>xs. log (sent_changes l es env) = log env @ xs"
proof (induction l es env rule: sent_changes.induct)
  case (2 l e es env)
  then show ?case by (auto split: if_splits)
qed simp

lemma sent_changes_delivered [simp]: "delivered (sent_changes l es env) = delivered env"
  by (induction l es env rule: sent_changes.induct) simp_all

lemma stream_step_hands:
  assumes "stream_step d W (s, env) (s', env')"
  shows "hands (fst s) (fst s')" and "\<exists>xs. log env' = log env @ xs" and "delivered env' = delivered env"
  using assms
  by (cases rule: stream_step.cases; use sent_changes_log in \<open>auto simp: told_def intro: hands_handleXLogData hands_handleKeepalive hands_maintain hands_startSession\<close>)+

text \<open>The publishable events of a listener, in the order they were handed over, and those the gate numbered.\<close>

definition handed :: "Listener \<Rightarrow> Event list" where
  "handed l = filter publishable (l_out l)"

definition handed_ok :: "Listener \<Rightarrow> bool" where
  "handed_ok l \<longleftrightarrow> map ev_Sequence (handed l) = [1..<Suc (ag_handed (l_ack l))]"

definition numbered :: "Event \<Rightarrow> bool" where
  "numbered e \<longleftrightarrow> publishable e \<and> ev_Sequence e \<noteq> 0"

lemma handed_length: "handed_ok l \<Longrightarrow> length (handed l) = ag_handed (l_ack l)"
  unfolding handed_ok_def by (drule arg_cong [of _ _ length]) (simp del: upt_Suc)

lemma handed_count: "pg_inv W (lsys_abs ((l, st), env)) \<Longrightarrow> handed_ok l \<Longrightarrow> length (handed l) = length (log env)"
  by (simp add: handed_length pg_inv_def lsys_abs_def)

lemma handed_nth:
  assumes "handed_ok l" "i < length (handed l)"
  shows "ev_Sequence (handed l ! i) = Suc i"
proof -
  have "map ev_Sequence (handed l) ! i = [1..<Suc (ag_handed (l_ack l))] ! i" using assms(1) by (simp only: handed_ok_def)
  then show ?thesis using assms handed_length [OF assms(1)] by (simp del: upt_Suc)
qed

lemma handed_hands:
  assumes "hands l l'" "handed_ok l" "l_out l' = l_out l @ new"
  shows "handed_ok l'" "handed l' = handed l @ filter publishable new" "filter numbered new = filter publishable new"
    "ag_acked (l_ack l') = ag_acked (l_ack l)"
proof -
  have h: "map ev_Sequence (filter publishable new) = [Suc (ag_handed (l_ack l))..<Suc (ag_handed (l_ack l'))]"
      "ag_handed (l_ack l) \<le> ag_handed (l_ack l')"
    using assms(1,3) by (auto simp: hands_def)
  show out: "handed l' = handed l @ filter publishable new" by (simp add: handed_def assms(3))
  have "[1..<Suc (ag_handed (l_ack l))] @ [Suc (ag_handed (l_ack l))..<Suc (ag_handed (l_ack l'))] = [1..<Suc (ag_handed (l_ack l'))]"
    using upt_add_eq_append [of 1 "Suc (ag_handed (l_ack l))" "ag_handed (l_ack l') - ag_handed (l_ack l)"] h(2) by (simp del: upt_Suc)
  then show "handed_ok l'" using assms(2) h(1) by (simp add: handed_ok_def out del: upt_Suc)
  have "ev_Sequence e \<noteq> 0" if m: "e \<in> set new" "publishable e" for e
  proof -
    have "ev_Sequence e \<in> set (map ev_Sequence (filter publishable new))" using m by simp
    then show ?thesis unfolding h(1) by (simp del: upt_Suc)
  qed
  then show "filter numbered new = filter publishable new" by (auto simp: numbered_def intro: filter_cong)
  show "ag_acked (l_ack l') = ag_acked (l_ack l)" using assms(1) by (auto simp: hands_def)
qed

lemma handed_numbered:
  assumes "handed_ok l"
  shows "filter numbered (l_out l) = handed l"
proof -
  have "ev_Sequence e \<noteq> 0" if "e \<in> set (l_out l)" "publishable e" for e
  proof -
    have "ev_Sequence e \<in> set (map ev_Sequence (handed l))" using that by (simp add: handed_def)
    then show ?thesis unfolding assms [unfolded handed_ok_def] by (simp del: upt_Suc)
  qed
  then show ?thesis by (auto simp: numbered_def handed_def intro: filter_cong)
qed

section \<open>The listener as a source\<close>

definition acknowledge :: "Event \<Rightarrow> lsys \<Rightarrow> lsys" where
  "acknowledge e S = (case S of ((l, st), env) \<Rightarrow>
     ((observe e l, st), if ev_Sequence e = 0 then env else env\<lparr>delivered := insert (log env ! ag_acked (l_ack l)) (delivered env)\<rparr>))"

definition restarted :: "driver \<Rightarrow> int \<Rightarrow> Listener \<Rightarrow> nat \<Rightarrow> pgsys \<Rightarrow> lsys" where
  "restarted d now l k env = (startSession d now (PublishedObserver l), env\<lparr>log := [], next_txn := k, inside := False, sent := 0\<rparr>)"

definition pg_source :: "driver \<Rightarrow> txn list \<Rightarrow> (lsys, nat \<times> nat) source" where
  "pg_source d W = \<lparr>src_out = \<lambda>S. l_out (fst (fst S)), src_changes = \<lambda>S. log (snd S), src_own = numbered,
     src_acked = \<lambda>S. ag_acked (l_ack (fst (fst S))), src_stored = \<lambda>S. delivered (snd S),
     src_runs = stream_step d W, src_ack = acknowledge,
     src_restarts = \<lambda>S S'. \<exists>now tables ddl store service k.
       resume_ok W (snd S) k \<and> S' = restarted d now (NewListener tables ddl store service) k (snd S)\<rparr>"

lemma pg_source_simps [simp]:
  "src_out (pg_source d W) S = l_out (fst (fst S))" "src_changes (pg_source d W) S = log (snd S)" "src_own (pg_source d W) = numbered"
  "src_acked (pg_source d W) S = ag_acked (l_ack (fst (fst S)))" "src_stored (pg_source d W) S = delivered (snd S)"
  "src_runs (pg_source d W) = stream_step d W" "src_ack (pg_source d W) = acknowledge"
  "src_restarts (pg_source d W) S S' = (\<exists>now tables ddl store service k.
     resume_ok W (snd S) k \<and> S' = restarted d now (NewListener tables ddl store service) k (snd S))"
  by (simp_all add: pg_source_def)

definition pg_valid :: "txn list \<Rightarrow> lsys \<Rightarrow> bool" where
  "pg_valid W S \<longleftrightarrow> wal_ok W \<and> pg_inv W (lsys_abs S) \<and> positions_told S \<and> handed_ok (fst (fst S))"

lemma pg_valid_listener:
  assumes "pg_valid W S" "listener_step d W S S'" "handed_ok (fst (fst S'))"
  shows "pg_valid W S'"
proof -
  have "listener_reach d W S S'" using assms(2) by blast
  then have "pg_inv W (lsys_abs S')" using assms(1) pg_inv_reach [OF _ listener_reach_sim] by (auto simp: pg_valid_def)
  then show ?thesis using assms positions_told_step [OF assms(2)] by (simp add: pg_valid_def)
qed

lemma pg_counted:
  assumes "pg_valid W S"
  shows "ag_acked (l_ack (fst (fst S))) \<le> length (log (snd S))" "length (handed (fst (fst S))) = length (log (snd S))"
  using assms by (simp_all add: pg_valid_def pg_inv_def lsys_abs_def handed_length)

lemma pg_runs:
  assumes "pg_valid W S" "stream_step d W S S'"
  shows "pg_valid W S' \<and> ag_acked (l_ack (fst (fst S'))) = ag_acked (l_ack (fst (fst S))) \<and> delivered (snd S') = delivered (snd S) \<and>
    (\<exists>new. l_out (fst (fst S')) = l_out (fst (fst S)) @ new) \<and> (\<exists>xs. log (snd S') = log (snd S) @ xs)"
proof -
  obtain s env s' env' where S: "S = (s, env)" "S' = (s', env')" by (metis prod.exhaust)
  note h = stream_step_hands [OF assms(2) [unfolded S]]
  obtain new where new: "l_out (fst s') = l_out (fst s) @ new" using h(1) by (auto simp: hands_def)
  have "handed_ok (fst s)" using assms(1) by (simp add: pg_valid_def S)
  note k = handed_hands [OF h(1) this new]
  have "pg_valid W S'" by (rule pg_valid_listener [OF assms(1) listener_step.own [OF assms(2)]]) (simp add: S k(1))
  then show ?thesis using h new k(4) by (auto simp: S)
qed

text \<open>The next acknowledgement is for the first event the gate waits for, so it is a step of the listener's protocol.\<close>

lemma pg_ack_next:
  assumes "pg_valid W ((l, st), env)" "ag_acked (l_ack l) < length (log env)" "e = handed l ! ag_acked (l_ack l)"
  shows "pg_valid W (acknowledge e ((l, st), env))" "ev_Sequence e = Suc (ag_acked (l_ack l))"
proof -
  have ok: "handed_ok l" using assms(1) by (simp add: pg_valid_def)
  then show seq: "ev_Sequence e = Suc (ag_acked (l_ack l))" using handed_nth pg_counted(2) [OF assms(1)] assms(2,3) by simp
  have "listener_step d W ((l, st), env) (acknowledge e ((l, st), env))" for d
    using listener_step.published [OF assms(2) seq] seq by (simp add: acknowledge_def)
  then show "pg_valid W (acknowledge e ((l, st), env))"
    using pg_valid_listener [OF assms(1)] ok by (simp add: acknowledge_def handed_ok_def handed_def observe_def ackGate_ObservePublished_def)
qed

lemma pg_restarted:
  assumes "pg_valid W S" "resume_ok W (snd S) k"
  shows "pg_valid W (restarted d now (NewListener tables ddl store service) k (snd S))" (is "pg_valid _ ?S")
proof -
  have "listener_step d W S ?S" using listener_step.restart [OF assms(2), of d "fst S"] by (simp add: restarted_def)
  then show ?thesis
    by (rule pg_valid_listener [OF assms(1)])
      (simp add: restarted_def handed_def handed_ok_def startSession_def PublishedObserver_def NewListener_def ackGate_defs Let_def)
qed

interpretation pg_path: event_source "pg_source d W" "pg_valid W"
proof unfold_locales
  show "publishable e" if "src_own (pg_source d W) e" for e using that by (simp add: numbered_def)
  show "src_acked (pg_source d W) S \<le> length (src_changes (pg_source d W) S) \<and>
      length (filter (src_own (pg_source d W)) (src_out (pg_source d W) S)) = length (src_changes (pg_source d W) S)" if "pg_valid W S" for S
    using pg_counted [OF that] that by (simp add: handed_numbered pg_valid_def)
next
  fix S S' assume "pg_valid W S" "src_runs (pg_source d W) S S'"
  then show "pg_valid W S' \<and> src_acked (pg_source d W) S' = src_acked (pg_source d W) S \<and>
      src_stored (pg_source d W) S' = src_stored (pg_source d W) S \<and> (\<exists>new. src_out (pg_source d W) S' = src_out (pg_source d W) S @ new) \<and>
      (\<exists>xs. src_changes (pg_source d W) S' = src_changes (pg_source d W) S @ xs)"
    using pg_runs by simp
next
  fix S :: lsys and e
  obtain l st env where S: "S = ((l, st), env)" by (metis prod.exhaust)
  assume a: "pg_valid W S" "src_acked (pg_source d W) S < length (src_changes (pg_source d W) S)"
    "e = filter (src_own (pg_source d W)) (src_out (pg_source d W) S) ! src_acked (pg_source d W) S"
  then have "e = handed l ! ag_acked (l_ack l)" "ag_acked (l_ack l) < length (log env)" by (simp_all add: S pg_valid_def handed_numbered)
  note n = pg_ack_next [OF a(1) [unfolded S] this(2,1)]
  have "ag_acked (l_ack (observe e l)) = Suc (ag_acked (l_ack l))" using n(2) by (simp add: observe_def ackGate_ObservePublished_def storeMax_def)
  then show "pg_valid W (src_ack (pg_source d W) e S) \<and> src_out (pg_source d W) (src_ack (pg_source d W) e S) = src_out (pg_source d W) S \<and>
      src_changes (pg_source d W) (src_ack (pg_source d W) e S) = src_changes (pg_source d W) S \<and>
      src_acked (pg_source d W) (src_ack (pg_source d W) e S) = Suc (src_acked (pg_source d W) S) \<and>
      src_stored (pg_source d W) (src_ack (pg_source d W) e S) =
        insert (src_changes (pg_source d W) S ! src_acked (pg_source d W) S) (src_stored (pg_source d W) S)"
    using n by (simp add: S) (simp add: acknowledge_def observe_def)
next
  fix e and S :: lsys assume "publishable e" "\<not> src_own (pg_source d W) e"
  then show "src_ack (pg_source d W) e S = S"
    by (auto simp: numbered_def acknowledge_def observe_def ackGate_ObservePublished_def split: prod.split)
next
  fix S S' assume "pg_valid W S" "src_restarts (pg_source d W) S S'"
  then show "pg_valid W S' \<and> src_out (pg_source d W) S' = [] \<and> src_changes (pg_source d W) S' = [] \<and> src_acked (pg_source d W) S' = 0 \<and>
      src_stored (pg_source d W) S' = src_stored (pg_source d W) S"
    by (auto simp: pg_restarted) (simp_all add: restarted_def startSession_def PublishedObserver_def NewListener_def ackGate_defs Let_def)
qed

lemma pg_valid_init:
  assumes "wal_ok W"
  shows "pg_valid W (lsys_init d now (NewListener tables ddl store service))"
proof -
  have "pg_inv W (lsys_abs (lsys_init d now (NewListener tables ddl store service)))" unfolding lsys_init_abs by (rule pg_inv_init [OF assms])
  then show ?thesis
    using assms
    by (simp add: pg_valid_def lsys_init_def positions_told_def handed_def handed_ok_def startSession_def PublishedObserver_def NewListener_def ackGate_defs Let_def)
qed


section \<open>Properties\<close>

definition pg_observer :: nat where
  "pg_observer = 0"

text \<open>
  C1. Nothing the watcher confirms to PostgreSQL is lost on the way to NATS. Listener, bus and publisher together, in any interleaving with
  each other, with other event sources on the bus, with failing and repeated publish calls, lost connections and restarts of the process: if a position was
  sent in a standby status message, then for every change of every transaction that ends at or below it, either the bus refused the event
  as invalid, or the stream holds a message that carries it (whole, reduced to its key, or stripped) under its subject and id. Runs in which the publisher passes over an
  event it cannot send even stripped are excluded.
\<close>

theorem confirmed_changes_stored:
  assumes "wal_ok W" "script_ok rs" "distinct obs" "pg_observer \<in> set obs"
    "cdc_reach (pg_source d W) pg_observer (cdc_init (lsys_init d now (NewListener tables ddl store service)) subjectPrefix obs rs) C"
    "c_src C = (s, env)" "p \<in> set (l_sent (fst s))" "j < length W" "t_end (W ! j) \<le> p" "k < t_count (W ! j)"
  shows "(j, k) \<in> refused env \<or>
    (\<exists>e nuid. ((j, k), e) \<in> set (c_history C) \<and> set (p_stored (c_pub C)) \<inter> carries nuid subjectPrefix e \<noteq> {})"
proof -
  have "pg_valid W (s, env)" "\<forall>x \<in> delivered env. in_stream subjectPrefix C x"
    using pg_path.stored_in_stream [OF assms(5) pg_valid_init [OF assms(1)] _ _ _ assms(2-4)] assms(6)
    by (simp_all add: lsys_init_def startSession_def PublishedObserver_def NewListener_def Let_def pgsys_init_def)
  then have "covers W (confirmed env) (delivered env \<union> refused env)" "p \<le> confirmed env" and st: "\<forall>x \<in> delivered env. in_stream subjectPrefix C x"
    using assms(7) by (auto simp: pg_valid_def pg_inv_def settled_set_def lsys_abs_def positions_told_def)
  then have "(j, k) \<in> delivered env \<union> refused env" using assms(8-10) by (auto simp: covers_def)
  then show ?thesis using st by (auto simp: in_stream_def)
qed

text \<open>A run of the system: the transaction of \<open>demo_truncate_run\<close>, published before the status message.\<close>

abbreviation demo_source :: "(lsys, nat \<times> nat) source" where
  "demo_source \<equiv> pg_source raw_driver one_truncate"

definition nothing_published :: "lsys \<Rightarrow> (lsys, nat \<times> nat) cdcsys \<Rightarrow> bool" where
  "nothing_published S C \<longleftrightarrow> c_src C = S \<and> c_queue C = l_out (fst (fst S)) \<and> c_rounds C = [ack_round] \<and> p_observers (c_pub C) = [pg_observer]"

lemma listen_follows:
  assumes "stream_step d W S S'" "nothing_published S C"
  shows "\<exists>C'. cdc_step (pg_source d W) pg_observer C C' \<and> nothing_published S' C'"
proof -
  obtain s env s' env' where S: "S = (s, env)" "S' = (s', env')" by (metis prod.exhaust)
  obtain new xs where n: "l_out (fst s') = l_out (fst s) @ new" "log env' = log env @ xs"
    using stream_step_hands [of d W s env s' env'] assms(1) by (auto simp: S hands_def)
  show ?thesis
    using cdc_step.listening [of "pg_source d W" C S' new xs pg_observer] assms n
    by (intro exI [of _ "C\<lparr>c_src := S', c_queue := c_queue C @ new, c_history := c_history C @ zip xs (filter numbered new)\<rparr>"])
      (auto simp: S nothing_published_def)
qed

lemma demo_out: "map (\<lambda>e. (ev_Type e, ev_Sequence e)) (l_out (fst (demo_session demo_messages))) = [(Begin, 0), (Truncate, 1), (Commit, 0)]"
  by code_simp

lemma demo_acknowledge:
  assumes "ev_Sequence e = 1"
  shows "acknowledge e (demo_session demo_messages, demo_env 3) = (demo_observed, demo_env 4)"
proof -
  have "observe e l = observe demo_ack l" for l using assms by (simp add: observe_def demo_ack_def ackGate_ObservePublished_def)
  moreover obtain l st where s: "demo_session demo_messages = (l, st)" by (rule prod.exhaust)
  ultimately show ?thesis
    using assms demo_not_acked by (simp add: acknowledge_def demo_observed_def demo_env_def pgsys_init_def)
qed

definition demo_start :: "(lsys, nat \<times> nat) cdcsys" where
  "demo_start = cdc_init (lsys_init raw_driver 0 (NewListener [] False None NewService)) ''cdc'' [pg_observer] [ack_round]"

lemma demo_published:
  assumes "nothing_published (demo_session demo_messages, demo_env 3) C"
  shows "\<exists>C'. cdc_reach demo_source pg_observer C C' \<and> c_src C' = (demo_observed, demo_env 4)"
proof -
  let ?step = "cdc_step demo_source pg_observer"
  have C: "c_src C = (demo_session demo_messages, demo_env 3)" "c_queue C = l_out (fst (demo_session demo_messages))"
      "c_rounds C = [ack_round]" "p_observers (c_pub C) = [pg_observer]"
    using assms by (simp_all add: nothing_published_def)
  obtain b e c where out: "l_out (fst (demo_session demo_messages)) = [b, e, c]" and
      types: "ev_Type b = Begin" "ev_Type e = Truncate" "ev_Type c = Commit" "ev_Sequence e = 1"
    using demo_out by (auto simp: map_eq_Cons_conv)
  have "deliver [] b (c_rounds C) (c_pub C) = (Some True, c_rounds C, c_pub C)"
    by (simp add: deliver_def shouldPublish_def IsPublishable_def types)
  from cdc_step.publishing [OF _ this] have 1: "?step C (C\<lparr>c_queue := [e, c]\<rparr>)"
    using C(2) by (simp add: out observer_calls_none)
  obtain q where "deliver [] e [ack_round] (c_pub C) = (Some True, [], notify e q)" and f: "p_notified q = p_notified (c_pub C)"
      "p_observers q = p_observers (c_pub C)" "p_gaveUp q = p_gaveUp (c_pub C)"
    by (simp add: deliver_def shouldPublish_def types IsPublishable_def publish_def send_def ack_round_def attempted_def too_large_def isTooLarge_def Let_def)
  moreover have "p_gaveUp (notify e q) = p_gaveUp (c_pub C)" using f(3) by (simp add: notify_def)
  ultimately have "\<exists>C'. ?step (C\<lparr>c_queue := [e, c]\<rparr>) C' \<and> c_src C' = observer_calls acknowledge pg_observer (c_pub C) (notify e q) (c_src C)"
    using cdc_step.publishing [of "C\<lparr>c_queue := [e, c]\<rparr>" e "[c]" "[]" "[]" "notify e q" demo_source pg_observer] C(3) by fastforce
  moreover have "observer_calls acknowledge pg_observer (c_pub C) (notify e q) (c_src C) = (demo_observed, demo_env 4)"
    using observer_calls_notify [OF f(1,2), of pg_observer acknowledge] C(1,4) demo_acknowledge [OF types(4)] by simp
  ultimately show ?thesis using 1 by (metis converse_rtranclp_into_rtranclp r_into_rtranclp)
qed

theorem confirmed_changes_stored_witness:
  "\<exists>C e nuid. cdc_reach demo_source pg_observer demo_start C \<and> 1 \<in> set (l_sent (fst (fst (c_src C)))) \<and>
     ((0, 0), e) \<in> set (c_history C) \<and> set (p_stored (c_pub C)) \<inter> carries nuid ''cdc'' e \<noteq> {}"
proof -
  let ?step = "cdc_step demo_source pg_observer" and ?reach = "cdc_reach demo_source pg_observer"
  have "nothing_published (demo_session [], demo_env 0) demo_start"
    by (simp add: nothing_published_def demo_start_def cdc_init_def lsys_init_def demo_session_def demo_env_def startSession_def
        PublishedObserver_def NewListener_def Let_def)
  from listen_follows [OF demo_stream_steps(1) this] obtain A1 where 1: "?step demo_start A1" "nothing_published (demo_session [''B''], demo_env 1) A1" by blast
  from listen_follows [OF demo_stream_steps(2) 1(2)] obtain A2 where 2: "?step A1 A2" "nothing_published (demo_session [''B'', relation_one], demo_env 1) A2"
    by blast
  from listen_follows [OF demo_stream_steps(3) 2(2)] obtain A3
    where 3: "?step A2 A3" "nothing_published (demo_session [''B'', relation_one, truncate_one], demo_env 2) A3" by blast
  from listen_follows [OF demo_stream_steps(4) 3(2)] obtain A where 4: "?step A3 A" and A: "nothing_published (demo_session demo_messages, demo_env 3) A"
    by blast
  have "?reach demo_start A" using 1(1) 2(1) 3(1) 4 by (meson converse_rtranclp_into_rtranclp r_into_rtranclp)
  moreover obtain B where "?reach A B" and B: "c_src B = (demo_observed, demo_env 4)" using demo_published [OF A] by blast
  moreover obtain new xs where n: "l_out (fst demo_told) = l_out (fst demo_observed) @ new" "log (demo_env 5) = log (demo_env 4) @ xs"
    using stream_step_hands [OF demo_stream_steps(5)] by (auto simp: hands_def)
  have "\<exists>C. ?step B C \<and> c_src C = (demo_told, demo_env 5)"
    using cdc_step.listening [of demo_source B "(demo_told, demo_env 5)" new xs pg_observer] demo_stream_steps(5) n by (fastforce simp: B)
  then obtain C where "?step B C" and C: "c_src C = (demo_told, demo_env 5)" by blast
  ultimately have reach: "?reach demo_start C" by (meson rtranclp_trans rtranclp.rtrancl_into_rtrancl)
  have "wal_ok one_truncate" "script_ok [ack_round]" by (simp_all add: wal_ok_def one_truncate_def ack_round_def round_done_def dead_def)
  moreover have "refused (demo_env 5) = {}" by (simp add: demo_env_def pgsys_init_def)
  moreover have one: "1 \<in> set (l_sent (fst demo_told))" by (simp add: demo_told_sent)
  ultimately have "\<exists>e nuid. ((0, 0), e) \<in> set (c_history C) \<and> set (p_stored (c_pub C)) \<inter> carries nuid ''cdc'' e \<noteq> {}"
    using confirmed_changes_stored [OF _ _ _ _ reach [unfolded demo_start_def] C, of 1 0 0] by (simp add: one_truncate_def)
  moreover have "1 \<in> set (l_sent (fst (fst (c_src C))))" using one C by simp
  ultimately show ?thesis using reach by blast
qed

end
