(* ===== verification/Mysql_Gate.thy ===== *)
theory Mysql_Gate
  imports Commit_Gate Cdc_Event
begin

text \<open>
  The MySQL commit gate (\<^verbatim>\<open>internal/mysql/ackgate.go\<close>): which binlog position may be
  persisted as the resume offset. As for the PostgreSQL gate, the second part puts the gate
  into its environment, here with the race between the publisher's acknowledgement and the
  handler's \<^verbatim>\<open>Hand\<close>, which runs only after the bus has accepted the event.
\<close>

record BinlogPosition =
  bp_File :: gostring
  bp_Position :: u32

definition BinlogPosition_String :: "BinlogPosition \<Rightarrow> gostring" where
  "BinlogPosition_String p = bp_File p @ '':'' @ itoa (unat (bp_Position p))"

definition sourcePrefix :: gostring where
  "sourcePrefix = ''mysql:''"

definition minBinlogPosition :: u32 where
  "minBinlogPosition = 4"

record my_pendingCommit =
  lastHanded :: nat
  commit_pos :: BinlogPosition

record commitGate =
  cg_gated :: bool
  cg_acked :: nat
  cg_handed :: nat
  cg_commits :: "my_pendingCommit list"
  cg_confirmable :: BinlogPosition

definition zero_position :: BinlogPosition where
  "zero_position = \<lparr>bp_File = [], bp_Position = 0\<rparr>"

definition newCommitGate :: commitGate where
  "newCommitGate = \<lparr>cg_gated = False, cg_acked = 0, cg_handed = 0, cg_commits = [], cg_confirmable = zero_position\<rparr>"

definition commitGate_Enable :: "commitGate \<Rightarrow> commitGate" where
  "commitGate_Enable g = g\<lparr>cg_gated := True\<rparr>"

definition commitGate_Hand :: "commitGate \<Rightarrow> commitGate" where
  "commitGate_Hand g = g\<lparr>cg_handed := cg_handed g + 1\<rparr>"

definition commitGate_Committed :: "BinlogPosition \<Rightarrow> commitGate \<Rightarrow> commitGate" where
  "commitGate_Committed p g =
     (if bp_File p = [] \<or> bp_Position p < minBinlogPosition then g
      else let cs = cg_commits g in
        if cs \<noteq> [] \<and> lastHanded (last cs) = cg_handed g
        then g\<lparr>cg_commits := butlast cs @ [(last cs)\<lparr>commit_pos := p\<rparr>]\<rparr>
        else g\<lparr>cg_commits := cs @ [\<lparr>lastHanded = cg_handed g, commit_pos = p\<rparr>]\<rparr>)"

definition ownEvent :: "Event \<Rightarrow> bool" where
  "ownEvent event \<longleftrightarrow> has_prefix (ev_SourceID event) sourcePrefix \<and> IsPublishable (ev_Type event)"

definition commitGate_ObservePublished :: "Event \<Rightarrow> commitGate \<Rightarrow> commitGate" where
  "commitGate_ObservePublished event g = (if ownEvent event then g\<lparr>cg_acked := cg_acked g + 1\<rparr> else g)"

definition acked_events :: "commitGate \<Rightarrow> nat" where
  "acked_events g = (if cg_gated g then cg_acked g else cg_handed g)"

fun confirm_loop :: "nat \<Rightarrow> my_pendingCommit list \<Rightarrow> BinlogPosition \<Rightarrow> BinlogPosition \<times> my_pendingCommit list" where
  "confirm_loop n [] conf = (conf, [])"
| "confirm_loop n (c # cs) conf =
     (if lastHanded c > n then (conf, c # cs) else confirm_loop n cs (commit_pos c))"

definition commitGate_Confirmable :: "commitGate \<Rightarrow> (BinlogPosition \<times> bool) \<times> commitGate" where
  "commitGate_Confirmable g =
     (let (conf, cs) = confirm_loop (acked_events g) (cg_commits g) (cg_confirmable g)
      in ((conf, bp_File conf \<noteq> []), g\<lparr>cg_confirmable := conf, cg_commits := cs\<rparr>))"

lemmas commitGate_defs = newCommitGate_def commitGate_Enable_def commitGate_Hand_def
  commitGate_Committed_def commitGate_ObservePublished_def

subsection \<open>The queue of boundaries\<close>

lemma confirm_loop_eq:
  "confirm_loop n cs conf =
     (last (conf # map commit_pos (takeWhile (\<lambda>c. lastHanded c \<le> n) cs)), dropWhile (\<lambda>c. lastHanded c \<le> n) cs)"
  by (induction n cs conf rule: confirm_loop.induct) auto

lemma Confirmable_simps [simp]:
  "cg_gated (snd (commitGate_Confirmable g)) = cg_gated g" "cg_acked (snd (commitGate_Confirmable g)) = cg_acked g"
  "cg_handed (snd (commitGate_Confirmable g)) = cg_handed g"
  "acked_events (snd (commitGate_Confirmable g)) = acked_events g"
  "cg_commits (snd (commitGate_Confirmable g)) = dropWhile (\<lambda>c. lastHanded c \<le> acked_events g) (cg_commits g)"
  "cg_confirmable (snd (commitGate_Confirmable g)) = fst (fst (commitGate_Confirmable g))"
  by (simp_all add: commitGate_Confirmable_def confirm_loop_eq acked_events_def)

lemma Confirmable_cases:
  "fst (fst (commitGate_Confirmable g)) = cg_confirmable g \<or>
   (\<exists>c \<in> set (cg_commits g). lastHanded c \<le> acked_events g \<and> fst (fst (commitGate_Confirmable g)) = commit_pos c)"
proof -
  let ?w = "takeWhile (\<lambda>c. lastHanded c \<le> acked_events g) (cg_commits g)"
  have "fst (fst (commitGate_Confirmable g)) = last (cg_confirmable g # map commit_pos ?w)"
    by (simp add: commitGate_Confirmable_def confirm_loop_eq)
  moreover have "lastHanded (last ?w) \<le> acked_events g \<and> last ?w \<in> set (cg_commits g)" if "?w \<noteq> []"
    using set_takeWhileD [OF last_in_set [OF that]] by simp
  ultimately show ?thesis by (cases "?w = []") (auto simp: last_map)
qed

interpretation my_queue: boundary_queue cg_handed acked_events "\<lambda>g. map lastHanded (cg_commits g)"
  "\<lambda>_ :: Event. commitGate_Hand" commitGate_Committed "\<lambda>g. snd (commitGate_Confirmable g)"
proof unfold_locales
  fix p and g :: commitGate
  show "map lastHanded (cg_commits (commitGate_Committed p g)) = map lastHanded (cg_commits g) \<or>
     map lastHanded (cg_commits (commitGate_Committed p g)) = map lastHanded (cg_commits g) @ [cg_handed g] \<and>
     (map lastHanded (cg_commits g) = [] \<or> last (map lastHanded (cg_commits g)) \<noteq> cg_handed g)"
    by (cases "cg_commits g" rule: rev_cases) (auto simp: commitGate_Committed_def Let_def)
next
  fix g
  show "map lastHanded (cg_commits (snd (commitGate_Confirmable g))) =
      dropWhile (\<lambda>n. n \<le> acked_events g) (map lastHanded (cg_commits g))"
    by (simp add: dropWhile_map comp_def)
qed (auto simp: commitGate_Hand_def commitGate_Committed_def Let_def)

subsection \<open>The gate in its environment\<close>

text \<open>
  The binlog as the handler sees it: rows and DDL statements to publish, and the boundaries the
  handler reports (end of an XID or DDL event, start of a GTID event, start of a file). Two
  boundaries at one position have no change between them. Ghost state: \<open>cursor\<close> is the next
  item the canal client reads; \<open>my_log\<close> is the changes (by index) the bus accepted in this
  process, in order; \<open>uncounted\<close> says the last of them is not counted by \<^verbatim>\<open>Hand\<close> yet;
  \<open>my_delivered\<close> and \<open>my_refused\<close> are the changes stored by JetStream and rejected by the bus;
  \<open>saved\<close> is the content of the offset file.
\<close>

datatype bitem = Change | Boundary BinlogPosition

definition binlog_ok :: "bitem list \<Rightarrow> bool" where
  "binlog_ok B \<longleftrightarrow> (\<forall>i < length B. \<forall>j < length B. \<forall>p. B ! i = Boundary p \<longrightarrow> B ! j = Boundary p \<longrightarrow>
     (\<forall>k. i < k \<and> k < j \<longrightarrow> B ! k \<noteq> Change))"

record mysys =
  mgate :: commitGate
  cursor :: nat
  my_log :: "nat list"
  uncounted :: bool
  my_delivered :: "nat set"
  my_refused :: "nat set"
  saved :: BinlogPosition

definition mysys_init :: "BinlogPosition \<Rightarrow> mysys" where
  "mysys_init p = \<lparr>mgate = commitGate_Enable newCommitGate, cursor = 0, my_log = [], uncounted = False,
     my_delivered = {}, my_refused = {}, saved = p\<rparr>"

text \<open>Reading from a saved position skips no change that lies behind a boundary at that position.\<close>

definition restart_ok :: "bitem list \<Rightarrow> mysys \<Rightarrow> nat \<Rightarrow> bool" where
  "restart_ok B s k \<longleftrightarrow> k \<le> length B \<and>
     (\<exists>i < length B. B ! i = Boundary (saved s) \<and> (\<forall>j < k. B ! j = Change \<longrightarrow> j < i))"

inductive my_step :: "bitem list \<Rightarrow> mysys \<Rightarrow> mysys \<Rightarrow> bool" for B where
  accept: "\<not> uncounted s \<Longrightarrow> cursor s < length B \<Longrightarrow> B ! cursor s = Change \<Longrightarrow>
     my_step B s (s\<lparr>my_log := my_log s @ [cursor s], uncounted := True, cursor := Suc (cursor s)\<rparr>)"
| hand: "uncounted s \<Longrightarrow> my_step B s (s\<lparr>mgate := commitGate_Hand (mgate s), uncounted := False\<rparr>)"
| refuse: "\<not> uncounted s \<Longrightarrow> cursor s < length B \<Longrightarrow> B ! cursor s = Change \<Longrightarrow>
     my_step B s (s\<lparr>my_refused := insert (cursor s) (my_refused s), cursor := Suc (cursor s)\<rparr>)"
| boundary: "\<not> uncounted s \<Longrightarrow> cursor s < length B \<Longrightarrow> B ! cursor s = Boundary p \<Longrightarrow>
     my_step B s (s\<lparr>mgate := commitGate_Committed p (mgate s), cursor := Suc (cursor s)\<rparr>)"
| ack: "cg_acked (mgate s) < length (my_log s) \<Longrightarrow> ownEvent e \<Longrightarrow>
     my_step B s (s\<lparr>mgate := commitGate_ObservePublished e (mgate s),
                    my_delivered := insert (my_log s ! cg_acked (mgate s)) (my_delivered s)\<rparr>)"
| ack_foreign: "\<not> ownEvent e \<Longrightarrow> my_step B s (s\<lparr>mgate := commitGate_ObservePublished e (mgate s)\<rparr>)"
| save: "commitGate_Confirmable (mgate s) = ((p, ok), g') \<Longrightarrow>
     my_step B s (s\<lparr>mgate := g', saved := (if ok then p else saved s)\<rparr>)"
| confirm_unsaved: "my_step B s (s\<lparr>mgate := snd (commitGate_Confirmable (mgate s))\<rparr>)"
| crash: "restart_ok B s k \<Longrightarrow>
     my_step B s (s\<lparr>mgate := commitGate_Enable newCommitGate, cursor := k, my_log := [], uncounted := False\<rparr>)"

abbreviation my_reach :: "bitem list \<Rightarrow> mysys \<Rightarrow> mysys \<Rightarrow> bool" where
  "my_reach B \<equiv> (my_step B)\<^sup>*\<^sup>*"

text \<open>Some boundary at \<open>p\<close> has all changes before it in \<open>X\<close>.\<close>

definition reached :: "bitem list \<Rightarrow> BinlogPosition \<Rightarrow> nat set \<Rightarrow> bool" where
  "reached B p X \<longleftrightarrow> (\<exists>i < length B. B ! i = Boundary p \<and> (\<forall>j < i. B ! j = Change \<longrightarrow> j \<in> X))"

definition my_settled :: "mysys \<Rightarrow> nat set" where
  "my_settled s = my_delivered s \<union> my_refused s"

definition my_inv :: "bitem list \<Rightarrow> mysys \<Rightarrow> bool" where
  "my_inv B s \<longleftrightarrow>
     cg_gated (mgate s) \<and> length (my_log s) = cg_handed (mgate s) + (if uncounted s then 1 else 0) \<and>
     cg_acked (mgate s) \<le> length (my_log s) \<and> cursor s \<le> length B \<and>
     set (take (cg_acked (mgate s)) (my_log s)) \<subseteq> my_delivered s \<and>
     (\<forall>c \<in> set (cg_commits (mgate s)). lastHanded c \<le> cg_handed (mgate s) \<and>
        reached B (commit_pos c) (set (take (lastHanded c) (my_log s)) \<union> my_settled s)) \<and>
     (bp_File (cg_confirmable (mgate s)) \<noteq> [] \<longrightarrow> reached B (cg_confirmable (mgate s)) (my_settled s)) \<and>
     reached B (saved s) (my_settled s) \<and>
     (\<forall>j < cursor s. B ! j = Change \<longrightarrow> j \<in> set (my_log s) \<union> my_settled s)"

lemma reached_mono: "reached B p X \<Longrightarrow> X \<subseteq> Y \<Longrightarrow> reached B p Y"
  by (auto simp: reached_def)

lemma reached_unique:
  assumes "binlog_ok B" "reached B p X" "i < length B" "B ! i = Boundary p" "j < i" "B ! j = Change"
  shows "j \<in> X"
proof -
  obtain i' where i': "i' < length B" "B ! i' = Boundary p" "\<forall>j < i'. B ! j = Change \<longrightarrow> j \<in> X"
    using assms(2) by (auto simp: reached_def)
  have "\<not> (i' < j \<and> j < i)" using assms(1,3,4,6) i'(1,2) unfolding binlog_ok_def by blast
  moreover have "j \<noteq> i'" using i'(2) assms(6) by auto
  ultimately show ?thesis using i'(3) assms(5,6) by auto
qed

lemma my_inv_init: "B \<noteq> [] \<Longrightarrow> hd B = Boundary p \<Longrightarrow> my_inv B (mysys_init p)"
  by (cases B) (auto simp: my_inv_def mysys_init_def commitGate_defs zero_position_def reached_def)

lemma my_inv_acked_events: "my_inv B s \<Longrightarrow> acked_events (mgate s) = cg_acked (mgate s)"
  by (simp add: my_inv_def acked_events_def)

lemma my_inv_commit_reached:
  "my_inv B s \<Longrightarrow> c \<in> set (cg_commits (mgate s)) \<Longrightarrow> lastHanded c \<le> cg_handed (mgate s)"
  "my_inv B s \<Longrightarrow> c \<in> set (cg_commits (mgate s)) \<Longrightarrow>
     reached B (commit_pos c) (set (take (lastHanded c) (my_log s)) \<union> my_settled s)"
  by (simp_all add: my_inv_def)

lemma confirmable_reached:
  assumes s: "my_inv B s" and p: "fst (fst (commitGate_Confirmable (mgate s))) = p" "bp_File p \<noteq> []"
  shows "reached B p (my_settled s)"
  using Confirmable_cases [of "mgate s"]
proof
  assume "fst (fst (commitGate_Confirmable (mgate s))) = cg_confirmable (mgate s)"
  then show ?thesis using s p by (simp add: my_inv_def)
next
  assume "\<exists>c \<in> set (cg_commits (mgate s)). lastHanded c \<le> acked_events (mgate s) \<and>
      fst (fst (commitGate_Confirmable (mgate s))) = commit_pos c"
  then obtain c where c: "c \<in> set (cg_commits (mgate s))" "lastHanded c \<le> cg_acked (mgate s)" "commit_pos c = p"
    using p my_inv_acked_events [OF s] by auto
  have "set (take (lastHanded c) (my_log s)) \<subseteq> set (take (cg_acked (mgate s)) (my_log s))"
    using c(2) by (rule set_take_subset_set_take)
  then have "set (take (lastHanded c) (my_log s)) \<union> my_settled s \<subseteq> my_settled s"
    using s by (auto simp: my_inv_def my_settled_def)
  then show ?thesis
    using my_inv_commit_reached(2) [OF s c(1)] c(3) reached_mono by metis
qed

lemma my_inv_save:
  assumes s: "my_inv B s" and c: "commitGate_Confirmable (mgate s) = ((p, ok), g')"
  shows "my_inv B (s\<lparr>mgate := g', saved := (if ok then p else saved s)\<rparr>)"
proof -
  have g: "g' = snd (commitGate_Confirmable (mgate s))" "ok \<longleftrightarrow> bp_File p \<noteq> []"
    and p: "fst (fst (commitGate_Confirmable (mgate s))) = p"
    using c by (auto simp: commitGate_Confirmable_def Let_def split: prod.splits)
  then show ?thesis
    using s confirmable_reached [OF s p] unfolding g(1)
    by (auto simp: my_inv_def my_settled_def dest: set_dropWhileD)
qed

lemma my_inv_more_settled:
  assumes "my_inv B s" "my_delivered s \<subseteq> D" "my_refused s \<subseteq> R"
  shows "my_inv B (s\<lparr>my_delivered := D, my_refused := R\<rparr>)"
proof -
  let ?s = "s\<lparr>my_delivered := D, my_refused := R\<rparr>"
  have sub: "my_settled s \<subseteq> my_settled ?s" using assms(2,3) by (auto simp: my_settled_def)
  then have mono: "reached B p (X \<union> my_settled s) \<Longrightarrow> reached B p (X \<union> my_settled ?s)"
    "reached B p (my_settled s) \<Longrightarrow> reached B p (my_settled ?s)" for p X
    by (auto elim!: reached_mono)
  have "j \<in> set (my_log s) \<union> my_settled ?s" if "j < cursor s" "B ! j = Change" for j
    using assms(1) that sub unfolding my_inv_def by blast
  then show ?thesis
    using assms mono unfolding my_inv_def by auto
qed

lemma my_inv_boundary:
  assumes s: "my_inv B s" and i: "\<not> uncounted s" "cursor s < length B" "B ! cursor s = Boundary p"
  shows "my_inv B (s\<lparr>mgate := commitGate_Committed p (mgate s), cursor := Suc (cursor s)\<rparr>)"
proof -
  let ?g = "mgate s" and ?cs = "cg_commits (mgate s)"
  have h: "cg_handed ?g = length (my_log s)" using s i(1) by (simp add: my_inv_def)
  have p: "reached B p (set (take (cg_handed ?g) (my_log s)) \<union> my_settled s)"
    using s i(2,3) h by (auto simp: reached_def my_inv_def)
  have "lastHanded c \<le> cg_handed ?g \<and> reached B (commit_pos c) (set (take (lastHanded c) (my_log s)) \<union> my_settled s)"
    if c: "c \<in> set (cg_commits (commitGate_Committed p ?g))" for c
  proof -
    consider "c \<in> set ?cs" | "lastHanded c = cg_handed ?g" "commit_pos c = p"
      using c by (auto simp: commitGate_Committed_def Let_def dest: in_set_butlastD split: if_splits)
    then show ?thesis using my_inv_commit_reached [OF s] p by cases auto
  qed
  moreover have "cg_gated (commitGate_Committed p ?g) = cg_gated ?g" "cg_handed (commitGate_Committed p ?g) = cg_handed ?g"
    "cg_acked (commitGate_Committed p ?g) = cg_acked ?g" "cg_confirmable (commitGate_Committed p ?g) = cg_confirmable ?g"
    by (simp_all add: commitGate_Committed_def Let_def)
  ultimately show ?thesis
    using s i by (auto simp: my_inv_def my_settled_def less_Suc_eq)
qed

lemma my_inv_step:
  assumes B: "binlog_ok B" and st: "my_step B s s'" and s: "my_inv B s"
  shows "my_inv B s'"
  using st
proof (cases rule: my_step.cases)
  case accept
  have "reached B (commit_pos c) (set (take (lastHanded c) (my_log s @ [x])) \<union> my_settled s)"
    if "c \<in> set (cg_commits (mgate s))" for c x
    using my_inv_commit_reached [OF s that] s accept(2) by (simp add: my_inv_def)
  then show ?thesis using s accept by (auto simp: my_inv_def my_settled_def less_Suc_eq)
next
  case hand
  then show ?thesis using s by (auto simp: my_inv_def commitGate_Hand_def my_settled_def le_SucI)
next
  case refuse
  let ?s = "s\<lparr>my_delivered := my_delivered s, my_refused := insert (cursor s) (my_refused s)\<rparr>"
  have "my_inv B ?s" using s by (rule my_inv_more_settled) auto
  then show ?thesis using refuse by (auto simp: my_inv_def my_settled_def less_Suc_eq)
next
  case (boundary p)
  then show ?thesis using my_inv_boundary [OF s] by simp
next
  case (ack e)
  let ?s = "s\<lparr>my_delivered := insert (my_log s ! cg_acked (mgate s)) (my_delivered s), my_refused := my_refused s\<rparr>"
  have "my_inv B ?s" using s by (rule my_inv_more_settled) auto
  then show ?thesis
    using ack by (simp add: my_inv_def my_settled_def commitGate_ObservePublished_def take_Suc_conv_app_nth)
next
  case (ack_foreign e)
  then show ?thesis using s by (simp add: commitGate_ObservePublished_def)
next
  case (save p ok g')
  then show ?thesis using my_inv_save [OF s] by simp
next
  case confirm_unsaved
  obtain p ok g where c: "commitGate_Confirmable (mgate s) = ((p, ok), g)" by (metis prod.exhaust)
  have "my_inv B (s\<lparr>mgate := g, saved := (if ok then p else saved s)\<rparr>)" by (rule my_inv_save [OF s c])
  moreover have "reached B (saved s) (my_settled s)" using s by (simp add: my_inv_def)
  ultimately show ?thesis unfolding confirm_unsaved c by (simp add: my_inv_def my_settled_def)
next
  case (crash k)
  have "j \<in> my_settled s" if "j < k" "B ! j = Change" for j
    using crash(2) that reached_unique [OF B, of "saved s" "my_settled s"] s
    unfolding restart_ok_def my_inv_def by blast
  then show ?thesis
    using s crash by (simp add: my_inv_def restart_ok_def commitGate_defs zero_position_def my_settled_def)
qed

lemma my_inv_reach: "my_reach B s s' \<Longrightarrow> binlog_ok B \<Longrightarrow> my_inv B s \<Longrightarrow> my_inv B s'"
  by (induction rule: rtranclp_induct) (auto intro: my_inv_step)

text \<open>
  A concrete run for the witness: a row and its commit; the acknowledgement arrives before the
  handler has counted the row, and the commit's position is saved.
\<close>

definition demo_position :: "u32 \<Rightarrow> BinlogPosition" where
  "demo_position n = \<lparr>bp_File = ''binlog.000001'', bp_Position = n\<rparr>"

definition demo_binlog :: "bitem list" where
  "demo_binlog = [Boundary (demo_position 4), Change, Boundary (demo_position 200), Change]"

definition gate_demo_row :: Event where
  "gate_demo_row = (NewEvent 1700000000000 Insert ''shop'' ''orders'' [] [] [])\<lparr>ev_SourceID := ''mysql:binlog.000001:150:0''\<rparr>"

definition demo_mysys :: mysys where
  "demo_mysys = \<lparr>mgate = \<lparr>cg_gated = True, cg_acked = 1, cg_handed = 1, cg_commits = [], cg_confirmable = demo_position 200\<rparr>,
     cursor = 3, my_log = [1], uncounted = False, my_delivered = {1}, my_refused = {}, saved = demo_position 200\<rparr>"

lemma my_reach_step: "my_step B a b \<Longrightarrow> my_reach B b c \<Longrightarrow> my_reach B a c"
  by (rule converse_rtranclp_into_rtranclp)

lemma demo_mysys_reach: "my_reach demo_binlog (mysys_init (demo_position 4)) demo_mysys"
proof -
  let ?s0 = "mysys_init (demo_position 4)"
  let ?s1 = "?s0\<lparr>mgate := commitGate_Committed (demo_position 4) (mgate ?s0), cursor := 1\<rparr>"
  let ?s2 = "?s1\<lparr>my_log := [1], uncounted := True, cursor := 2\<rparr>"
  let ?s3 = "?s2\<lparr>mgate := commitGate_ObservePublished gate_demo_row (mgate ?s2), my_delivered := {1}\<rparr>"
  let ?s4 = "?s3\<lparr>mgate := commitGate_Hand (mgate ?s3), uncounted := False\<rparr>"
  let ?s5 = "?s4\<lparr>mgate := commitGate_Committed (demo_position 200) (mgate ?s4), cursor := 3\<rparr>"
  note defs = mysys_init_def demo_binlog_def demo_position_def commitGate_defs Let_def minBinlogPosition_def
  have own: "ownEvent gate_demo_row" by (simp add: ownEvent_def gate_demo_row_def NewEvent_def sourcePrefix_def has_prefix_def IsPublishable_def)
  have 1: "my_step demo_binlog ?s0 ?s1"
    using my_step.boundary [of ?s0 demo_binlog "demo_position 4"] by (simp add: defs)
  have 2: "my_step demo_binlog ?s1 ?s2"
    using my_step.accept [of ?s1 demo_binlog] by (simp add: defs numeral_2_eq_2)
  have 3: "my_step demo_binlog ?s2 ?s3"
    using my_step.ack [of ?s2 gate_demo_row demo_binlog] own by (simp add: defs)
  have 4: "my_step demo_binlog ?s3 ?s4"
    using my_step.hand [of ?s3 demo_binlog] by simp
  have 5: "my_step demo_binlog ?s4 ?s5"
    using my_step.boundary [of ?s4 demo_binlog "demo_position 200"] by (simp add: defs numeral_3_eq_3)
  have 6: "my_step demo_binlog ?s5 demo_mysys"
    using my_step.save [of ?s5 "demo_position 200" True "mgate demo_mysys" demo_binlog] own
    by (simp add: defs demo_mysys_def commitGate_Confirmable_def acked_events_def)
  show ?thesis
    by (rule my_reach_step, rule 1, rule my_reach_step, rule 2, rule my_reach_step, rule 3,
        rule my_reach_step, rule 4, rule my_reach_step, rule 5, rule my_reach_step, rule 6, rule rtranclp.rtrancl_refl)
qed

lemma demo_binlog_ok: "binlog_ok demo_binlog"
  unfolding binlog_ok_def demo_binlog_def demo_position_def
  by (auto simp: nth_Cons less_Suc_eq split: nat.splits)

text \<open>
  C5. At-least-once delivery from MySQL. In every run, with crashes at any point and with
  acknowledgements that overtake the handler's own bookkeeping, every row and DDL statement that
  lies in the binlog before the persisted offset is stored by JetStream or was refused by the
  bus as invalid, so a restart from the offset skips nothing else.
\<close>

theorem saved_offset_implies_delivered:
  assumes "binlog_ok B" "B \<noteq> []" "hd B = Boundary p0" "my_reach B (mysys_init p0) s"
    "i < length B" "B ! i = Boundary (saved s)" "j < i" "B ! j = Change"
  shows "j \<in> my_delivered s \<union> my_refused s"
proof -
  have "my_inv B s" using my_inv_reach [OF assms(4,1) my_inv_init [OF assms(2,3)]] .
  then have "reached B (saved s) (my_settled s)" by (simp add: my_inv_def)
  then show ?thesis
    using reached_unique [OF assms(1) _ assms(5-8)] unfolding my_settled_def by blast
qed

theorem saved_offset_implies_delivered_witness:
  "saved demo_mysys = demo_position 200 \<and> 1 \<in> my_delivered demo_mysys \<union> my_refused demo_mysys"
  using saved_offset_implies_delivered [OF demo_binlog_ok _ _ demo_mysys_reach, of 2 1]
  by (simp add: demo_binlog_def demo_mysys_def)

text \<open>
  The offset moves on: when every handed event is acknowledged, the newest boundary is the
  position to save, and no boundary keeps waiting, whatever was pending before.
\<close>

theorem confirmable_newest:
  assumes "cg_gated g" "cg_handed g \<le> cg_acked g" "bp_File p \<noteq> []" "minBinlogPosition \<le> bp_Position p"
    and "\<forall>c \<in> set (cg_commits g). lastHanded c \<le> cg_handed g"
  shows "fst (commitGate_Confirmable (commitGate_Committed p g)) = (p, True) \<and>
    cg_commits (snd (commitGate_Confirmable (commitGate_Committed p g))) = []"
proof -
  let ?g = "commitGate_Committed p g"
  have a: "acked_events ?g = cg_acked g" using assms(1) by (simp add: acked_events_def commitGate_Committed_def Let_def)
  have l: "\<forall>c \<in> set (cg_commits ?g). lastHanded c \<le> cg_acked g"
    using assms(2,5) by (auto simp: commitGate_Committed_def Let_def dest!: in_set_butlastD last_in_set)
  have n: "cg_commits ?g \<noteq> [] \<and> commit_pos (last (cg_commits ?g)) = p"
    using assms(3,4) by (auto simp: commitGate_Committed_def Let_def not_less)
  have w: "takeWhile (\<lambda>c. lastHanded c \<le> acked_events ?g) (cg_commits ?g) = cg_commits ?g"
    "dropWhile (\<lambda>c. lastHanded c \<le> acked_events ?g) (cg_commits ?g) = []"
    using l a by simp_all
  have "fst (commitGate_Confirmable ?g) = (p, True)"
    using n assms(3) unfolding commitGate_Confirmable_def confirm_loop_eq w by (simp add: last_map)
  then show ?thesis using w(2) by simp
qed

theorem confirmable_newest_witness:
  "fst (commitGate_Confirmable (commitGate_Committed (demo_position 300) (mgate demo_mysys))) = (demo_position 300, True)"
  using confirmable_newest [of "mgate demo_mysys" "demo_position 300"]
  by (simp add: demo_mysys_def demo_position_def minBinlogPosition_def)

end
