(* ===== verification/Mysql_Offset.thy ===== *)
theory Mysql_Offset
  imports Mysql_Gate
begin

text \<open>
  The offset store (\<^verbatim>\<open>internal/mysql/offset.go\<close>): the JSON file that holds the binlog position to
  resume from, written to a temporary file and renamed. Files are a map from paths to contents. The
  locale \<open>offset_store\<close> is the interface \<^verbatim>\<open>OffsetStore\<close> with the laws the listener relies on;
  the file store interprets it.
\<close>

type_synonym files = "gostring \<Rightarrow> gostring option"

subsection \<open>The document\<close>

definition position_fields :: "BinlogPosition \<Rightarrow> (gostring \<times> gostring) list" where
  "position_fields p = [(''file'', marshal_string (bp_File p)), (''position'', itoa (unat (bp_Position p)))]"

definition marshal_position :: "BinlogPosition \<Rightarrow> gostring" where
  "marshal_position p = json_object_sep '','' (position_fields p)"

text \<open>
  \<^verbatim>\<open>json.Unmarshal\<close> into the struct: member names match without regard to case (in the sense of Unicode simple
  folding, where only the long s and the Kelvin sign fold to ASCII letters), \<^verbatim>\<open>null\<close> leaves a field as it is,
  other members are ignored, a value of the wrong kind is an error.
\<close>

definition fold_rune :: "nat \<Rightarrow> nat" where
  "fold_rune r = (if 65 \<le> r \<and> r \<le> 90 then r + 32 else if r = 0x17F then 115 else if r = 0x212A then 107 else r)"

definition fold_name :: "gostring \<Rightarrow> nat list" where
  "fold_name s = map fold_rune (runes s)"

definition unmarshal_uint32 :: "gostring \<Rightarrow> u32 option" where
  "unmarshal_uint32 v = (if v \<noteq> [] \<and> list_all is_digit v \<and> atoi v < 2 ^ 32 then Some (of_nat (atoi v)) else None)"

definition set_field :: "gostring \<times> gostring \<Rightarrow> BinlogPosition \<Rightarrow> BinlogPosition option" where
  "set_field m p = (case m of (k, v) \<Rightarrow>
     if v = ''null'' then Some p
     else if fold_name k = fold_name ''file'' then map_option (\<lambda>f. p\<lparr>bp_File := f\<rparr>) (unmarshal_string v)
     else if fold_name k = fold_name ''position'' then map_option (\<lambda>n. p\<lparr>bp_Position := n\<rparr>) (unmarshal_uint32 v)
     else Some p)"

fun set_fields :: "(gostring \<times> gostring) list \<Rightarrow> BinlogPosition \<Rightarrow> BinlogPosition option" where
  "set_fields [] p = Some p"
| "set_fields (m # ms) p = Option.bind (set_field m p) (set_fields ms)"

definition unmarshal_position :: "gostring \<Rightarrow> BinlogPosition option" where
  "unmarshal_position data = Option.bind (unmarshal_map data) (\<lambda>ms. set_fields ms zero_position)"

subsection \<open>The file\<close>

text \<open>How far writing gets: the temporary file cannot be opened, is written in part, cannot be renamed, or all succeeds.\<close>

datatype save_io = OpenFails | WriteFails nat | RenameFails | SaveDone

datatype offset_error = WriteError | RenameError | ReadError | DecodeError

definition FileOffsetStore_Save :: "save_io \<Rightarrow> gostring \<Rightarrow> BinlogPosition \<Rightarrow> files \<Rightarrow> offset_error option \<times> files" where
  "FileOffsetStore_Save io path pos fs =
     (let data = marshal_position pos; tmpPath = path @ ''.tmp'' in
      case io of
        OpenFails \<Rightarrow> (Some WriteError, fs)
      | WriteFails n \<Rightarrow> (Some WriteError, fs(tmpPath \<mapsto> take n data))
      | RenameFails \<Rightarrow> (Some RenameError, fs(tmpPath \<mapsto> data))
      | SaveDone \<Rightarrow> (None, (fs(tmpPath := None))(path \<mapsto> data)))"

definition FileOffsetStore_Load :: "bool \<Rightarrow> gostring \<Rightarrow> files \<Rightarrow> offset_error + BinlogPosition option" where
  "FileOffsetStore_Load read_ok path fs =
     (case fs path of
        None \<Rightarrow> Inr None
      | Some data \<Rightarrow>
          if \<not> read_ok then Inl ReadError
          else case unmarshal_position data of None \<Rightarrow> Inl DecodeError | Some pos \<Rightarrow> Inr (Some pos))"

subsection \<open>Round trip\<close>

lemma position_members: "unmarshal_map (marshal_position p) = Some (position_fields p)"
proof -
  have "string_body k \<and> unquote k = Some (id k) \<and> embeds 0 v \<and> strip v = v" if "(k, v) \<in> set (position_fields p)" for k v
  proof -
    have "k = ''file'' \<or> k = ''position''" using that by (auto simp: position_fields_def)
    then have "\<forall>c \<in> set k. byte c < 128 \<and> 32 \<le> byte c \<and> c \<noteq> CHR 0x22 \<and> c \<noteq> CHR 0x5C" by auto
    then have "string_body k" "unquote k = Some k" by (rule field_name)+
    moreover have "strip (itoa n) = itoa n" for n using strip_itoa_int [of "int n"] by (simp add: itoa_int_def)
    then have "embeds 0 v \<and> strip v = v" using that by (auto simp: position_fields_def marshal_string_embeds embeds_itoa)
    ultimately show ?thesis by simp
  qed
  then show ?thesis
    using unmarshal_json_object [of "position_fields p" id 0 "'',''"]
    by (simp add: marshal_position_def max_nesting_depth_def case_prod_unfold)
qed

lemma unmarshal_uint32_itoa: "unmarshal_uint32 (itoa (unat (n :: u32))) = Some n"
  using unsigned_less [of n] by (auto simp: unmarshal_uint32_def list_all_iff dest: itoa_digits)

lemma itoa_not_null: "itoa n \<noteq> ''null''"
proof
  assume "itoa n = ''null''"
  then have "is_digit CHR ''n''" using itoa_digits [of "CHR ''n''" n] by simp
  then show False by (simp add: is_digit_def)
qed

lemma fold_field_names: "fold_name ''file'' \<noteq> fold_name ''position''"
  by (simp add: fold_name_def fold_rune_def decode_rune.simps(2))

lemma position_roundtrip:
  assumes "utf8_valid (bp_File p)"
  shows "unmarshal_position (marshal_position p) = Some p"
proof -
  have "marshal_string (bp_File p) \<noteq> ''null''" by (simp add: marshal_string_def)
  then show ?thesis
    using fold_field_names assms
    by (simp add: unmarshal_position_def position_members position_fields_def set_field_def zero_position_def
        unmarshal_marshal_string unmarshal_uint32_itoa itoa_not_null)
qed

subsection \<open>The interface\<close>

text \<open>
  A store with states \<open>'s\<close>: \<open>store i p s\<close> saves \<open>p\<close> with the outcome \<open>i\<close> of the operations it needs;
  \<open>fetch s\<close> is what a later process reads. \<open>saves\<close> is a sequence of saves and the positions whose save
  succeeded.
\<close>

fun saves :: "('i \<Rightarrow> 'p \<Rightarrow> 's \<Rightarrow> 'e option \<times> 's) \<Rightarrow> ('i \<times> 'p) list \<Rightarrow> 's \<Rightarrow> 'p list \<times> 's" where
  "saves store [] s = ([], s)"
| "saves store ((i, p) # ps) s =
     (let (err, s) = store i p s; (kept, s) = saves store ps s in (if err = None then p # kept else kept, s))"

locale offset_store =
  fixes store :: "'i \<Rightarrow> BinlogPosition \<Rightarrow> 's \<Rightarrow> 'e option \<times> 's"
    and fetch :: "'s \<Rightarrow> 'e + BinlogPosition option"
    and storable :: "BinlogPosition \<Rightarrow> bool"
  assumes fetch_saved: "storable p \<Longrightarrow> fst (store i p s) = None \<Longrightarrow> fetch (snd (store i p s)) = Inr (Some p)"
    and fetch_failed: "fst (store i p s) \<noteq> None \<Longrightarrow> fetch (snd (store i p s)) = fetch s"
begin

lemma fetch_last_saved:
  assumes "\<forall>(i, p) \<in> set ps. storable p" "saves store ps s = (kept, s')"
  shows "fetch s' = (if kept = [] then fetch s else Inr (Some (last kept)))"
  using assms
proof (induction ps arbitrary: s kept s')
  case (Cons x ps)
  obtain i p where x: "x = (i, p)" by (rule prod.exhaust)
  obtain err s1 where 1: "store i p s = (err, s1)" by (rule prod.exhaust)
  obtain d2 s2 where 2: "saves store ps s1 = (d2, s2)" by (rule prod.exhaust)
  have "fetch s2 = (if d2 = [] then fetch s1 else Inr (Some (last d2)))" using Cons 2 by simp
  moreover have "fetch s1 = (if err = None then Inr (Some p) else fetch s)"
    using fetch_saved [of p i s] fetch_failed [of i p s] 1 Cons.prems(1) x by (cases err) auto
  ultimately show ?case using Cons.prems(2) by (auto simp: x 1 2)
qed simp

end

interpretation file_offset: offset_store "\<lambda>io. FileOffsetStore_Save io path" "FileOffsetStore_Load True path"
  "\<lambda>p. utf8_valid (bp_File p)" for path
proof unfold_locales
  fix p io fs
  assume "utf8_valid (bp_File p)" "fst (FileOffsetStore_Save io path p fs) = None"
  then show "FileOffsetStore_Load True path (snd (FileOffsetStore_Save io path p fs)) = Inr (Some p)"
    by (simp add: FileOffsetStore_Save_def FileOffsetStore_Load_def position_roundtrip Let_def split: save_io.splits)
next
  fix io p fs
  assume "fst (FileOffsetStore_Save io path p fs) \<noteq> None"
  then show "FileOffsetStore_Load True path (snd (FileOffsetStore_Save io path p fs)) = FileOffsetStore_Load True path fs"
    by (simp add: FileOffsetStore_Save_def FileOffsetStore_Load_def Let_def split: save_io.splits)
qed

definition save_all :: "gostring \<Rightarrow> (save_io \<times> BinlogPosition) list \<Rightarrow> files \<Rightarrow> BinlogPosition list \<times> files" where
  "save_all path = saves (\<lambda>io. FileOffsetStore_Save io path)"

text \<open>
  C22. The offset file is never torn. A process that starts after any sequence of saves, each of which may have
  failed or have been cut short by a crash while writing or before renaming, reads the position of the last
  save that completed, or what was there before when none did.
\<close>

theorem offset_file_atomic:
  assumes "\<forall>(io, p) \<in> set ps. utf8_valid (bp_File p)" "save_all path ps fs = (kept, fs')"
  shows "FileOffsetStore_Load True path fs' =
    (if kept = [] then FileOffsetStore_Load True path fs else Inr (Some (last kept)))"
  using assms unfolding save_all_def by (rule file_offset.fetch_last_saved)

theorem offset_file_atomic_witness:
  "\<exists>fs. save_all ''o'' [(SaveDone, demo_position 4), (WriteFails 3, demo_position 200)] Map.empty = ([demo_position 4], fs) \<and>
     FileOffsetStore_Load True ''o'' fs = Inr (Some (demo_position 4))"
proof -
  let ?ps = "[(SaveDone, demo_position 4), (WriteFails 3, demo_position 200)]"
  obtain fs where s: "save_all ''o'' ?ps Map.empty = ([demo_position 4], fs)"
    by (auto simp: save_all_def FileOffsetStore_Save_def Let_def)
  have "utf8_valid ''binlog.000001''" by (simp add: decode_rune.simps(2) rune_error_def)
  then show ?thesis
    using offset_file_atomic [OF _ s] s by (simp add: demo_position_def)
qed

end
