(* ===== verification/Go_Text.thy ===== *)
theory Go_Text
  imports Go_Utf8
begin

text \<open>
  The text functions of Go's standard library the snapshot readers use: \<^verbatim>\<open>strings.Split\<close>,
  \<^verbatim>\<open>strings.TrimSpace\<close>, the line scanner of \<^verbatim>\<open>bufio\<close>, and the building blocks of the regular
  expressions in the sources (literals, negated classes, space and digit runs).
\<close>

subsection \<open>Splitting and joining\<close>

text \<open>\<^verbatim>\<open>strings.Split\<close> with a one-byte separator.\<close>

fun split_on :: "char \<Rightarrow> gostring \<Rightarrow> gostring list" where
  "split_on c [] = [[]]"
| "split_on c (x # s) =
     (if x = c then [] # split_on c s
      else case split_on c s of [] \<Rightarrow> [[x]] | p # ps \<Rightarrow> (x # p) # ps)"

fun join_on :: "char \<Rightarrow> gostring list \<Rightarrow> gostring" where
  "join_on c [] = []"
| "join_on c [p] = p"
| "join_on c (p # q # ps) = p @ c # join_on c (q # ps)"

lemma split_on_nonempty [simp]: "split_on c s \<noteq> []"
  by (cases s) (auto split: list.split)

lemma split_on_append:
  assumes "c \<notin> set p"
  shows "split_on c (p @ c # s) = p # split_on c s"
  using assms by (induction p) (auto split: list.split)

lemma split_on_plain: "c \<notin> set p \<Longrightarrow> split_on c p = [p]"
  by (induction p) auto

lemma split_join:
  assumes "ps \<noteq> []" "\<forall>p \<in> set ps. c \<notin> set p"
  shows "split_on c (join_on c ps) = ps"
  using assms by (induction c ps rule: join_on.induct) (auto simp: split_on_append split_on_plain)

lemma join_split: "join_on c (split_on c s) = s"
proof (induction s)
  case (Cons x s)
  obtain p ps where p: "split_on c s = p # ps" by (cases "split_on c s") auto
  then show ?case using Cons by (cases ps) auto
qed simp

subsection \<open>Trimming\<close>

definition is_white :: "nat \<Rightarrow> bool" where
  "is_white r \<longleftrightarrow> (9 \<le> r \<and> r \<le> 13) \<or> r = 32 \<or> r = 0x85 \<or> r = 0xA0 \<or> r = 0x1680 \<or> (0x2000 \<le> r \<and> r \<le> 0x200A) \<or>
     r = 0x2028 \<or> r = 0x2029 \<or> r = 0x202F \<or> r = 0x205F \<or> r = 0x3000"

text \<open>The runes of a string with the bytes each is decoded from.\<close>

function chunks :: "gostring \<Rightarrow> (nat \<times> gostring) list" where
  "chunks [] = []"
| "chunks (b # s) = (let (r, n) = decode_rune (b # s); k = max 1 n in (r, take k (b # s)) # chunks (drop k (b # s)))"
  by pat_completeness auto
termination
  by (relation "measure length") auto

definition TrimSpace :: "gostring \<Rightarrow> gostring" where
  "TrimSpace s =
     (let white = (\<lambda>x. is_white (fst x))
      in concat (map snd (rev (dropWhile white (rev (dropWhile white (chunks s)))))))"

lemma chunks_concat: "concat (map snd (chunks s)) = s"
  by (induction s rule: chunks.induct) (auto simp: Let_def split: prod.split)

lemma TrimSpace_plain:
  assumes "s = [] \<or> (\<not> is_white (fst (hd (chunks s))) \<and> \<not> is_white (fst (last (chunks s))))"
  shows "TrimSpace s = s"
proof (cases "chunks s = []")
  case True
  then show ?thesis using chunks_concat [of s] by (simp add: TrimSpace_def)
next
  case False
  then have "s \<noteq> []" by auto
  then have "dropWhile (\<lambda>x. is_white (fst x)) (chunks s) = chunks s" using assms False by (cases "chunks s") auto
  moreover have "dropWhile (\<lambda>x. is_white (fst x)) (rev (chunks s)) = rev (chunks s)"
    using assms False \<open>s \<noteq> []\<close> by (cases "chunks s" rule: rev_cases) auto
  ultimately show ?thesis by (simp add: TrimSpace_def Let_def chunks_concat)
qed

subsection \<open>Lines\<close>

text \<open>
  \<^verbatim>\<open>bufio.Scanner\<close> with the default split function: lines end at a newline, one carriage return before it is dropped, a
  last line without newline counts when it is not empty. A line that fills the buffer stops the scan with an error.
\<close>

definition drop_cr :: "gostring \<Rightarrow> gostring" where
  "drop_cr s = (if s \<noteq> [] \<and> last s = CHR 0x0D then butlast s else s)"

definition raw_lines :: "gostring \<Rightarrow> gostring list" where
  "raw_lines data = (let ls = split_on (CHR 0x0A) data in if last ls = [] then butlast ls else ls)"

fun scan_lines :: "nat \<Rightarrow> gostring list \<Rightarrow> gostring list \<times> bool" where
  "scan_lines limit [] = ([], True)"
| "scan_lines limit (l # ls) =
     (if limit \<le> length l then ([], False)
      else let (out, ok) = scan_lines limit ls in (drop_cr l # out, ok))"

subsection \<open>Pieces of regular expressions\<close>

definition re_space :: "char \<Rightarrow> bool" where
  "re_space c \<longleftrightarrow> c = CHR '' '' \<or> c = CHR 0x09 \<or> c = CHR 0x0A \<or> c = CHR 0x0C \<or> c = CHR 0x0D"

text \<open>A literal prefix, and a maximal run of characters of a class that must not be empty.\<close>

definition lit :: "gostring \<Rightarrow> gostring \<Rightarrow> gostring option" where
  "lit p s = (if has_prefix s p then Some (drop (length p) s) else None)"

definition run1 :: "(char \<Rightarrow> bool) \<Rightarrow> gostring \<Rightarrow> (gostring \<times> gostring) option" where
  "run1 P s = (if takeWhile P s = [] then None else Some (takeWhile P s, dropWhile P s))"

lemma lit_append [simp]: "lit p (p @ s) = Some s"
  by (simp add: lit_def)

lemma run1_append:
  "p \<noteq> [] \<Longrightarrow> \<forall>c \<in> set p. P c \<Longrightarrow> s = [] \<or> \<not> P (hd s) \<Longrightarrow> run1 P (p @ s) = Some (p, s)"
proof -
  assume a: "p \<noteq> []" "\<forall>c \<in> set p. P c" "s = [] \<or> \<not> P (hd s)"
  then have "takeWhile P (p @ s) = p" "dropWhile P (p @ s) = s"
    by (cases s; simp add: takeWhile_append2 dropWhile_append2)+
  then show ?thesis using a(1) by (simp add: run1_def)
qed

text \<open>An unanchored expression matches at the leftmost place where its anchored form does.\<close>

fun leftmost :: "(gostring \<Rightarrow> 'a option) \<Rightarrow> gostring \<Rightarrow> 'a option" where
  "leftmost m [] = m []"
| "leftmost m (c # s) = (case m (c # s) of Some x \<Rightarrow> Some x | None \<Rightarrow> leftmost m s)"

end
