(* ===== verification/Mysql_Dump.thy ===== *)
theory Mysql_Dump
  imports Go_Text Json_Row Mysql_Gate
begin

text \<open>
  The mysqldump reader (\<^verbatim>\<open>internal/mysql/snapshot_dump.go\<close>): the binlog position and the rows of a dump
  file. The file is its content; failing to open it or to read on is an argument.
\<close>

subsection \<open>The expressions\<close>

text \<open>\<^verbatim>\<open>MASTER_LOG_FILE='([^']+)',\s*MASTER_LOG_POS=(\d+)\<close>, anchored; \<^verbatim>\<open>binlogPosRegex\<close> is its leftmost match.\<close>

definition match_binlogPos :: "gostring \<Rightarrow> (gostring \<times> gostring) option" where
  "match_binlogPos s =
     Option.bind (lit ''MASTER_LOG_FILE='' s) (\<lambda>s.
     Option.bind (lit [CHR 0x27] s) (\<lambda>s.
     Option.bind (run1 (\<lambda>c. c \<noteq> CHR 0x27) s) (\<lambda>(file, s).
     Option.bind (lit [CHR 0x27, CHR '',''] s) (\<lambda>s.
     Option.bind (lit ''MASTER_LOG_POS='' (dropWhile re_space s)) (\<lambda>s.
     Option.bind (run1 is_digit s) (\<lambda>(digits, s). Some (file, digits)))))))"

definition binlogPosRegex :: "gostring \<Rightarrow> (gostring \<times> gostring) option" where
  "binlogPosRegex = leftmost match_binlogPos"

text \<open>\<^verbatim>\<open>^INSERT INTO `([^`]+)` VALUES \<close> with the rest of the line after the match.\<close>

definition insertRegex :: "gostring \<Rightarrow> (gostring \<times> gostring) option" where
  "insertRegex s =
     Option.bind (lit (''INSERT INTO '' @ [CHR 0x60]) s) (\<lambda>s.
     Option.bind (run1 (\<lambda>c. c \<noteq> CHR 0x60) s) (\<lambda>(table, s).
     Option.bind (lit ([CHR 0x60] @ '' VALUES '') s) (\<lambda>s. Some (table, s))))"

text \<open>\<^verbatim>\<open>strconv.ParseUint(s, 10, 32)\<close> of digits: the largest value when out of range.\<close>

definition ParseUint32 :: "gostring \<Rightarrow> u32" where
  "ParseUint32 digits = of_nat (min (atoi digits) (2 ^ 32 - 1))"

subsection \<open>Values\<close>

record values_state =
  vs_tuples :: "gostring list list"
  vs_current :: "gostring list"
  vs_value :: gostring
  vs_inString :: bool
  vs_escaped :: bool

definition values_step :: "char \<Rightarrow> values_state \<Rightarrow> values_state" where
  "values_step c v =
     (if vs_escaped v then v\<lparr>vs_value := vs_value v @ [c], vs_escaped := False\<rparr>
      else if c = CHR 0x5C \<and> vs_inString v then v\<lparr>vs_escaped := True, vs_value := vs_value v @ [c]\<rparr>
      else if c = CHR 0x27 then v\<lparr>vs_inString := \<not> vs_inString v\<rparr>
      else if vs_inString v then v\<lparr>vs_value := vs_value v @ [c]\<rparr>
      else if c = CHR ''('' then v\<lparr>vs_current := [], vs_value := []\<rparr>
      else if c = CHR '','' then v\<lparr>vs_current := vs_current v @ [vs_value v], vs_value := []\<rparr>
      else if c = CHR '')''
      then v\<lparr>vs_current := vs_current v @ [vs_value v], vs_tuples := vs_tuples v @ [vs_current v @ [vs_value v]], vs_value := []\<rparr>
      else v)"

definition values_start :: values_state where
  "values_start = \<lparr>vs_tuples = [], vs_current = [], vs_value = [], vs_inString = False, vs_escaped = False\<rparr>"

definition parseValuesList :: "gostring \<Rightarrow> gostring list list" where
  "parseValuesList s = vs_tuples (fold values_step s values_start)"

definition tuple_value :: "gostring \<Rightarrow> gostring" where
  "tuple_value v = (if v = ''NULL'' then ''null'' else CHR 0x22 # EscapeString v @ [CHR 0x22])"

definition tupleToJSON :: "gostring list \<Rightarrow> gostring" where
  "tupleToJSON values = json_object (map (\<lambda>(i, v). (''col_'' @ itoa i, tuple_value v)) (enumerate 0 values))"

subsection \<open>The file\<close>

definition max_dump_line :: nat where
  "max_dump_line = 50 * 1024 * 1024"

definition dump_line :: "int \<Rightarrow> gostring \<Rightarrow> gostring \<Rightarrow> BinlogPosition \<Rightarrow> BinlogPosition \<times> Event list" where
  "dump_line now schema line pos =
     (case binlogPosRegex line of
        Some (file, digits) \<Rightarrow> (\<lparr>bp_File = file, bp_Position = ParseUint32 digits\<rparr>, [])
      | None \<Rightarrow>
          (case insertRegex line of
             Some (table, values) \<Rightarrow>
               (pos, map (\<lambda>t. NewEvent now Insert schema table (tupleToJSON t) ''INSERT'' []) (parseValuesList values))
           | None \<Rightarrow> (pos, [])))"

fun dump_lines :: "int \<Rightarrow> gostring \<Rightarrow> gostring list \<Rightarrow> BinlogPosition \<Rightarrow> BinlogPosition \<times> Event list" where
  "dump_lines now schema [] pos = (pos, [])"
| "dump_lines now schema (l # ls) pos =
     (let (pos, es) = dump_line now schema l pos; (pos, es') = dump_lines now schema ls pos in (pos, es @ es'))"

datatype dump_error = OpenDump | ScanDump

definition ParseMysqlDumpFile :: "int \<Rightarrow> gostring option \<Rightarrow> gostring \<Rightarrow> dump_error option \<times> BinlogPosition \<times> Event list" where
  "ParseMysqlDumpFile now content schema =
     (case content of
        None \<Rightarrow> (Some OpenDump, zero_position, [])
      | Some data \<Rightarrow>
          let (ls, ok) = scan_lines max_dump_line (raw_lines data); (pos, es) = dump_lines now schema ls zero_position
          in (if ok then None else Some ScanDump, pos, es))"

subsection \<open>Rows\<close>

definition plain_value :: "gostring \<Rightarrow> bool" where
  "plain_value v \<longleftrightarrow> CHR 0x27 \<notin> set v \<and> CHR 0x5C \<notin> set v"

definition quoted :: "gostring \<Rightarrow> gostring" where
  "quoted v = CHR 0x27 # v @ [CHR 0x27]"

definition tuple_text :: "gostring list \<Rightarrow> gostring" where
  "tuple_text t = CHR ''('' # join_on (CHR '','') (map quoted t) @ '')''"

definition values_text :: "gostring list list \<Rightarrow> gostring" where
  "values_text ts = join_on (CHR '','') (map tuple_text ts) @ '';''"

lemma values_in_string:
  assumes "plain_value v" "vs_inString s" "\<not> vs_escaped s"
  shows "fold values_step v s = s\<lparr>vs_value := vs_value s @ v\<rparr>"
  using assms
proof (induction v arbitrary: s)
  case (Cons c v)
  then have "values_step c s = s\<lparr>vs_value := vs_value s @ [c]\<rparr>" by (auto simp: values_step_def plain_value_def)
  then show ?case using Cons by (simp add: plain_value_def)
qed simp

lemma values_quoted:
  assumes "plain_value v" "\<not> vs_inString s" "\<not> vs_escaped s"
  shows "fold values_step (quoted v) s = s\<lparr>vs_value := vs_value s @ v\<rparr>"
proof -
  have "values_step (CHR 0x27) s = s\<lparr>vs_inString := True\<rparr>" using assms by (simp add: values_step_def)
  moreover have "fold values_step v (s\<lparr>vs_inString := True\<rparr>) = s\<lparr>vs_inString := True, vs_value := vs_value s @ v\<rparr>"
    using values_in_string [OF assms(1), of "s\<lparr>vs_inString := True\<rparr>"] assms(3) by simp
  moreover have "values_step (CHR 0x27) (s\<lparr>vs_inString := True, vs_value := vs_value s @ v\<rparr>) = s\<lparr>vs_value := vs_value s @ v\<rparr>"
    using assms by (simp add: values_step_def)
  ultimately show ?thesis by (simp add: quoted_def)
qed

lemma values_members:
  assumes "t \<noteq> []" "\<forall>v \<in> set t. plain_value v" "\<not> vs_inString s" "\<not> vs_escaped s" "vs_value s = []"
  shows "fold values_step (join_on (CHR '','') (map quoted t)) s =
    s\<lparr>vs_current := vs_current s @ butlast t, vs_value := last t\<rparr>"
  using assms
proof (induction t arbitrary: s)
  case (Cons v t)
  note prems = Cons.prems and IH = Cons.IH
  have v: "fold values_step (quoted v) s = s\<lparr>vs_value := v\<rparr>" using values_quoted [of v s] Cons.prems by simp
  show ?case
  proof (cases t)
    case Nil
    then show ?thesis using v by simp
  next
    case (Cons u us)
    let ?s = "s\<lparr>vs_current := vs_current s @ [v], vs_value := []\<rparr>"
    have "values_step (CHR '','') (s\<lparr>vs_value := v\<rparr>) = ?s" using prems by (simp add: values_step_def)
    moreover have "fold values_step (join_on (CHR '','') (map quoted t)) ?s =
        ?s\<lparr>vs_current := vs_current ?s @ butlast t, vs_value := last t\<rparr>"
      using prems Cons by (intro IH) auto
    ultimately show ?thesis using v Cons by simp
  qed
qed simp

lemma values_tuple:
  assumes "t \<noteq> []" "\<forall>v \<in> set t. plain_value v" "\<not> vs_inString s" "\<not> vs_escaped s"
  shows "fold values_step (tuple_text t) s = s\<lparr>vs_current := t, vs_tuples := vs_tuples s @ [t], vs_value := []\<rparr>"
proof -
  let ?s = "s\<lparr>vs_current := [], vs_value := []\<rparr>"
  have "values_step (CHR ''('') s = ?s" using assms by (simp add: values_step_def)
  moreover have "fold values_step (join_on (CHR '','') (map quoted t)) ?s = ?s\<lparr>vs_current := butlast t, vs_value := last t\<rparr>"
    using values_members [of t ?s] assms by simp
  moreover have "values_step (CHR '')'') (?s\<lparr>vs_current := butlast t, vs_value := last t\<rparr>) =
      s\<lparr>vs_current := t, vs_tuples := vs_tuples s @ [t], vs_value := []\<rparr>"
    using assms by (simp add: values_step_def)
  ultimately show ?thesis by (simp add: tuple_text_def)
qed

lemma values_tuples:
  assumes "\<forall>t \<in> set ts. t \<noteq> [] \<and> (\<forall>v \<in> set t. plain_value v)" "\<not> vs_inString s" "\<not> vs_escaped s"
  shows "vs_tuples (fold values_step (join_on (CHR '','') (map tuple_text ts)) s) = vs_tuples s @ ts \<and>
     \<not> vs_inString (fold values_step (join_on (CHR '','') (map tuple_text ts)) s) \<and>
     \<not> vs_escaped (fold values_step (join_on (CHR '','') (map tuple_text ts)) s)"
  using assms
proof (induction ts arbitrary: s)
  case (Cons t ts)
  note prems = Cons.prems and IH = Cons.IH
  let ?s = "s\<lparr>vs_current := t, vs_tuples := vs_tuples s @ [t], vs_value := []\<rparr>"
  have t: "fold values_step (tuple_text t) s = ?s" using values_tuple Cons.prems by simp
  show ?case
  proof (cases ts)
    case Nil
    then show ?thesis using t Cons.prems by simp
  next
    case (Cons u us)
    have "values_step (CHR '','') ?s = ?s\<lparr>vs_current := t @ [[]]\<rparr>" using prems by (simp add: values_step_def)
    then show ?thesis using IH [of "?s\<lparr>vs_current := t @ [[]]\<rparr>"] prems t Cons by simp
  qed
qed simp

lemma parseValuesList_text:
  assumes "\<forall>t \<in> set ts. t \<noteq> [] \<and> (\<forall>v \<in> set t. plain_value v)"
  shows "parseValuesList (values_text ts) = ts"
proof -
  let ?s = "fold values_step (join_on (CHR '','') (map tuple_text ts)) values_start"
  have "vs_tuples ?s = ts" "\<not> vs_inString ?s" "\<not> vs_escaped ?s"
    using values_tuples [OF assms, of values_start] by (simp_all add: values_start_def)
  then show ?thesis by (simp add: parseValuesList_def values_text_def values_step_def)
qed

definition tuple_columns :: "gostring list \<Rightarrow> (gostring \<times> gostring) list" where
  "tuple_columns values = map (\<lambda>(i, v). (''col_'' @ itoa i, tuple_value v)) (enumerate 0 values)"

lemma tuple_decodes: "unmarshal_map (tupleToJSON values) = Some (tuple_columns values)"
proof -
  have "string_body k \<and> unquote k = Some (id k) \<and> embeds 0 v \<and> strip v = v" if m: "(k, v) \<in> set (tuple_columns values)" for k v
  proof -
    obtain y where "(k, v) = (case y of (i, x) \<Rightarrow> (''col_'' @ itoa i, tuple_value x))"
      using m unfolding tuple_columns_def set_map by blast
    then obtain i x where k: "k = ''col_'' @ itoa i" and v: "v = tuple_value x" by (cases y) simp
    have "c \<in> set (itoa i) \<Longrightarrow> byte c < 128 \<and> 32 \<le> byte c \<and> c \<noteq> CHR 0x22 \<and> c \<noteq> CHR 0x5C" for c
      using itoa_digits [of c i] by (auto simp: is_digit_def)
    then have "\<forall>c \<in> set k. byte c < 128 \<and> 32 \<le> byte c \<and> c \<noteq> CHR 0x22 \<and> c \<noteq> CHR 0x5C" by (auto simp: k)
    then have "string_body k" "unquote k = Some k" by (rule field_name)+
    moreover have "embeds 0 v \<and> strip v = v"
      unfolding v tuple_value_def
      by (auto simp: embeds_null embeds_string EscapeString_body intro!: strip_no_space) (auto simp: is_space_def)
    ultimately show ?thesis by simp
  qed
  from unmarshal_json_object [of "tuple_columns values" id 0 "'', ''", OF this] show ?thesis
    by (simp add: tupleToJSON_def tuple_columns_def max_nesting_depth_def case_prod_unfold)
qed

lemma insertRegex_text:
  assumes "table \<noteq> []" "CHR 0x60 \<notin> set table"
  shows "insertRegex (''INSERT INTO '' @ [CHR 0x60] @ table @ [CHR 0x60] @ '' VALUES '' @ s) = Some (table, s)"
proof -
  have "lit (''INSERT INTO '' @ [CHR 0x60]) (''INSERT INTO '' @ [CHR 0x60] @ table @ [CHR 0x60] @ '' VALUES '' @ s) =
      Some (table @ [CHR 0x60] @ '' VALUES '' @ s)"
    using lit_append [of "''INSERT INTO '' @ [CHR 0x60]"] by simp
  moreover have "run1 (\<lambda>c. c \<noteq> CHR 0x60) (table @ [CHR 0x60] @ '' VALUES '' @ s) = Some (table, [CHR 0x60] @ '' VALUES '' @ s)"
    by (rule run1_append) (use assms in auto)
  moreover have "lit ([CHR 0x60] @ '' VALUES '') ([CHR 0x60] @ '' VALUES '' @ s) = Some s"
    using lit_append [of "[CHR 0x60] @ '' VALUES ''" s] by simp
  ultimately show ?thesis by (simp only: insertRegex_def option.case Option.bind.simps prod.case)
qed



text \<open>
  A value that is not quoted is lost: the reader takes a number for the empty string and a NULL as well.
\<close>

theorem unquoted_values_lost: "parseValuesList ''(1,NULL,2.5);'' = [[[], [], []]]"
  by (simp add: parseValuesList_def values_start_def values_step_def)

text \<open>The escape sequences mysqldump writes stay in the value, and the string NULL becomes null.\<close>

theorem escapes_kept: "parseValuesList [CHR ''('', CHR 0x27, CHR 0x5C, CHR 0x27, CHR 0x27, CHR '')''] = [[[CHR 0x5C, CHR 0x27]]]"
  by (simp add: parseValuesList_def values_start_def values_step_def)

end
