(* ===== verification/Mysql_Listener.thy ===== *)
theory Mysql_Listener
  imports Mysql_Offset Mysql_Dump Cdc_Service
begin

text \<open>
  The MySQL listener (\<^verbatim>\<open>internal/mysql/listener.go\<close>): the handler the canal library calls for binlog events, and the
  life of the listener around it. Values the library decodes are \<open>go_value\<close>s; for types whose text comes from
  \<^verbatim>\<open>fmt\<close>, \<^verbatim>\<open>time\<close> or \<^verbatim>\<open>json.Marshal\<close> the value holds that text. \<open>h_out\<close> records the events the bus accepted.
\<close>

subsection \<open>Rows as JSON\<close>

datatype go_value =
    GNil
  | GInt int
  | GUint nat
  | GFloat (float_text: gostring)
  | GBool bool
  | GBytes gostring
  | GString gostring
  | GTime (formatted: gostring) (time_text: gostring)
  | GOther (marshaled: "gostring option") (other_text: gostring)

definition quote :: "gostring \<Rightarrow> gostring" where
  "quote s = CHR 0x22 # s @ [CHR 0x22]"

fun plain_text :: "go_value \<Rightarrow> gostring" where
  "plain_text GNil = ''<nil>''"
| "plain_text (GInt i) = itoa_int i"
| "plain_text (GUint n) = itoa n"
| "plain_text (GFloat t) = t"
| "plain_text (GBool b) = (if b then ''true'' else ''false'')"
| "plain_text (GBytes s) = s"
| "plain_text (GString s) = s"
| "plain_text (GTime f t) = t"
| "plain_text (GOther m t) = t"

fun switch_value :: "go_value \<Rightarrow> gostring" where
  "switch_value (GInt i) = itoa_int i"
| "switch_value (GUint n) = itoa n"
| "switch_value (GFloat t) = t"
| "switch_value (GBool b) = (if b then ''true'' else ''false'')"
| "switch_value (GBytes s) = quote (EscapeString s)"
| "switch_value (GString s) = quote (EscapeString s)"
| "switch_value (GTime f t) = quote f"
| "switch_value (GOther m t) = (case m of None \<Rightarrow> quote t | Some data \<Rightarrow> data)"
| "switch_value GNil = ''null''"

text \<open>The flag says that the column's type is JSON.\<close>

definition appendValue :: "go_value \<Rightarrow> bool \<Rightarrow> gostring" where
  "appendValue v is_json =
     (if is_json \<and> json_valid (plain_text v) then plain_text v else switch_value v)"

record table_column =
  tc_Name :: gostring
  tc_json :: bool

definition render_value :: "go_value \<times> bool \<Rightarrow> gostring" where
  "render_value x = (case x of (v, is_json) \<Rightarrow> if v = GNil then ''null'' else appendValue v is_json)"

definition row_columns :: "table_column list \<Rightarrow> go_value list \<Rightarrow> (gostring \<times> go_value \<times> bool) list" where
  "row_columns cols row =
     map (\<lambda>(i, c). (tc_Name c, (if i < length row then row ! i else GNil), tc_json c)) (enumerate 0 cols)"

definition rowToJSON :: "table_column list \<Rightarrow> go_value list \<Rightarrow> gostring" where
  "rowToJSON cols row = row_object render_value (row_columns cols row)"

subsection \<open>Binlog events\<close>

record event_header =
  eh_LogPos :: u32
  eh_EventSize :: u32

datatype row_action = InsertAction | UpdateAction | DeleteAction | OtherAction

record RowsEvent =
  re_Schema :: gostring
  re_Table :: gostring
  re_Columns :: "table_column list"
  re_Action :: row_action
  re_Rows :: "go_value list list"
  re_Header :: "event_header option"

record eventHandler =
  h_service :: Service
  h_gate :: commitGate
  h_currentFile :: gostring
  h_txn :: BinlogPosition
  h_txnRows :: nat
  h_out :: "Event list"

definition handler_emit :: "Event \<Rightarrow> eventHandler \<Rightarrow> eventHandler" where
  "handler_emit event h =
     (if fst (HandleEvent (h_service h) event)
      then let h = h\<lparr>h_out := h_out h @ [event]\<rparr> in
           if ownEvent event then h\<lparr>h_gate := commitGate_Hand (h_gate h)\<rparr> else h
      else h)"

definition committed :: "BinlogPosition \<Rightarrow> eventHandler \<Rightarrow> eventHandler" where
  "committed pos h = h\<lparr>h_gate := commitGate_Committed pos (h_gate h)\<rparr>"

definition rowCount :: "RowsEvent \<Rightarrow> nat" where
  "rowCount e = (if re_Action e = UpdateAction then length (re_Rows e) div 2 else length (re_Rows e))"

datatype row_error = ErrUnplacedRow

definition row_id :: "BinlogPosition \<Rightarrow> nat \<Rightarrow> gostring" where
  "row_id p row = sourcePrefix @ BinlogPosition_String p @ '':'' @ itoa row"

definition txn_row_id :: "BinlogPosition \<Rightarrow> nat \<Rightarrow> gostring" where
  "txn_row_id p n = sourcePrefix @ BinlogPosition_String p @ '':txn:'' @ itoa n"

definition ddl_id :: "BinlogPosition \<Rightarrow> gostring" where
  "ddl_id p = sourcePrefix @ BinlogPosition_String p @ '':ddl''"

definition rowIDs :: "RowsEvent \<Rightarrow> eventHandler \<Rightarrow> (row_error + ((nat \<Rightarrow> gostring) option \<times> gostring)) \<times> eventHandler" where
  "rowIDs e h =
     (let file = h_currentFile h in
      case re_Header e of
        None \<Rightarrow> (Inr (None, []), h)
      | Some eh \<Rightarrow>
          if file = [] then (Inr (None, []), h)
          else if eh_LogPos eh \<noteq> 0
          then let p = \<lparr>bp_File = file, bp_Position = eh_LogPos eh\<rparr> in (Inr (Some (row_id p), BinlogPosition_String p), h)
          else if bp_File (h_txn h) = [] then (Inl ErrUnplacedRow, h)
          else let first = h_txnRows h in
               (Inr (Some (\<lambda>row. txn_row_id (h_txn h) (first + row)), BinlogPosition_String (h_txn h)),
                h\<lparr>h_txnRows := first + rowCount e\<rparr>))"

fun row_pairs :: "'r list \<Rightarrow> ('r \<times> 'r) list" where
  "row_pairs (x # y # rs) = (x, y) # row_pairs rs"
| "row_pairs _ = []"

definition update_data :: "table_column list \<Rightarrow> go_value list \<Rightarrow> go_value list \<Rightarrow> gostring" where
  "update_data cols old new = json_object [(''old'', rowToJSON cols old), (''new'', rowToJSON cols new)]"

definition row_events :: "int \<Rightarrow> RowsEvent \<Rightarrow> gostring \<Rightarrow> Event list" where
  "row_events now e lsn =
     (let ev = (\<lambda>t data raw. NewEvent now t (re_Schema e) (re_Table e) data raw lsn) in
      case re_Action e of
        InsertAction \<Rightarrow> map (\<lambda>row. ev Insert (rowToJSON (re_Columns e) row) ''INSERT'') (re_Rows e)
      | UpdateAction \<Rightarrow> map (\<lambda>(old, new). ev Update (update_data (re_Columns e) old new) ''UPDATE'') (row_pairs (re_Rows e))
      | DeleteAction \<Rightarrow> map (\<lambda>row. ev Delete (rowToJSON (re_Columns e) row) ''DELETE'') (re_Rows e)
      | OtherAction \<Rightarrow> [])"

definition with_ids :: "(nat \<Rightarrow> gostring) option \<Rightarrow> Event list \<Rightarrow> Event list" where
  "with_ids rowID es = (case rowID of
      None \<Rightarrow> es
    | Some f \<Rightarrow> map (\<lambda>(i, e). e\<lparr>ev_SourceID := f i\<rparr>) (enumerate 0 es))"

definition OnRow :: "int \<Rightarrow> RowsEvent \<Rightarrow> eventHandler \<Rightarrow> row_error option \<times> eventHandler" where
  "OnRow now e h =
     (case rowIDs e h of
        (Inl err, h) \<Rightarrow> (Some err, h)
      | (Inr (rowID, lsn), h) \<Rightarrow> (None, fold handler_emit (with_ids rowID (row_events now e lsn)) h))"

definition OnGTID :: "event_header option \<Rightarrow> eventHandler \<Rightarrow> eventHandler" where
  "OnGTID header h =
     (let h = h\<lparr>h_txn := zero_position, h_txnRows := 0\<rparr>; file = h_currentFile h in
      case header of
        None \<Rightarrow> h
      | Some eh \<Rightarrow>
          if file = [] \<or> eh_LogPos eh = 0 then h
          else let h = h\<lparr>h_txn := \<lparr>bp_File = file, bp_Position = eh_LogPos eh\<rparr>\<rparr> in
               if eh_LogPos eh \<ge> eh_EventSize eh
               then h\<lparr>h_gate := commitGate_Committed \<lparr>bp_File = file, bp_Position = eh_LogPos eh - eh_EventSize eh\<rparr> (h_gate h)\<rparr>
               else h)"

definition OnRotate :: "gostring \<Rightarrow> u64 \<Rightarrow> eventHandler \<Rightarrow> eventHandler" where
  "OnRotate nextLogName position h =
     committed \<lparr>bp_File = nextLogName, bp_Position = ucast position\<rparr> (h\<lparr>h_currentFile := nextLogName\<rparr>)"

definition OnDDL :: "int \<Rightarrow> BinlogPosition \<Rightarrow> gostring \<Rightarrow> gostring \<Rightarrow> eventHandler \<Rightarrow> eventHandler" where
  "OnDDL now nextPos ddlSchema query h =
     (let event = NewEvent now DDL ddlSchema [] query ''DDL'' [];
          event = (if bp_File nextPos \<noteq> [] then event\<lparr>ev_SourceID := ddl_id nextPos\<rparr> else event)
      in committed nextPos (handler_emit event h))"

definition OnXID :: "int \<Rightarrow> BinlogPosition \<Rightarrow> eventHandler \<Rightarrow> eventHandler" where
  "OnXID now nextPos h =
     (let event = NewEvent now Commit [] [] [] ''COMMIT'' [];
          h = (if fst (HandleEvent (h_service h) event) then h\<lparr>h_out := h_out h @ [event]\<rparr> else h)
      in committed nextPos h)"

definition generateServerID :: "gostring \<Rightarrow> u32" where
  "generateServerID host =
     (let h = fold (\<lambda>c h. h * 31 + of_nat c) (runes host) (0 :: u32) in 65536 + h mod 65536)"

subsection \<open>The listener\<close>

text \<open>\<open>ml_path\<close> is the offset file, when there is a store; \<open>ml_failed\<close> the channel of capacity one.\<close>

record my_Listener =
  ml_handler :: eventHandler
  ml_path :: "gostring option"
  ml_savedOffset :: BinlogPosition
  ml_running :: bool
  ml_failed :: bool

definition my_NewListener :: "gostring \<Rightarrow> Service \<Rightarrow> my_Listener" where
  "my_NewListener offsetFile service =
     \<lparr>ml_handler = \<lparr>h_service = service, h_gate = newCommitGate, h_currentFile = [], h_txn = zero_position, h_txnRows = 0, h_out = []\<rparr>,
      ml_path = (if offsetFile \<noteq> [] then Some offsetFile else None), ml_savedOffset = zero_position,
      ml_running = False, ml_failed = False\<rparr>"

definition my_PublishedObserver :: "my_Listener \<Rightarrow> my_Listener" where
  "my_PublishedObserver l = l\<lparr>ml_handler := (ml_handler l)\<lparr>h_gate := commitGate_Enable (h_gate (ml_handler l))\<rparr>\<rparr>"

definition saveConfirmedOffset :: "save_io \<Rightarrow> my_Listener \<Rightarrow> files \<Rightarrow> offset_error option \<times> my_Listener \<times> files" where
  "saveConfirmedOffset io l fs =
     (let ((pos, ok), g) = commitGate_Confirmable (h_gate (ml_handler l));
          l = l\<lparr>ml_handler := (ml_handler l)\<lparr>h_gate := g\<rparr>\<rparr>
      in case ml_path l of
           None \<Rightarrow> (None, l, fs)
         | Some path \<Rightarrow>
             if \<not> ok \<or> pos = ml_savedOffset l then (None, l, fs)
             else case FileOffsetStore_Save io path pos fs of
                    (Some e, fs) \<Rightarrow> (Some e, l, fs)
                  | (None, fs) \<Rightarrow> (None, l\<lparr>ml_savedOffset := pos\<rparr>, fs))"

definition getStartPosition :: "bool \<Rightarrow> my_Listener \<Rightarrow> files \<Rightarrow> offset_error + BinlogPosition option" where
  "getStartPosition read_ok l fs = (case ml_path l of None \<Rightarrow> Inr None | Some path \<Rightarrow> FileOffsetStore_Load read_ok path fs)"

datatype my_start_error = AlreadyRunning | TlsError | SnapshotFileMissing | SnapshotParse dump_error | SnapshotSave offset_error
  | CanalError | StartPositionError offset_error | MasterPositionError

definition resolveStartPosition ::
    "bool \<Rightarrow> BinlogPosition option \<Rightarrow> save_io \<Rightarrow> my_Listener \<Rightarrow> files \<Rightarrow> (my_start_error + BinlogPosition) \<times> my_Listener \<times> files" where
  "resolveStartPosition read_ok master io l fs =
     (case getStartPosition read_ok l fs of
        Inl e \<Rightarrow> (Inl (StartPositionError e), l, fs)
      | Inr (Some p) \<Rightarrow> (Inr p, l, fs)
      | Inr None \<Rightarrow>
          (case master of
             None \<Rightarrow> (Inl MasterPositionError, l, fs)
           | Some p \<Rightarrow>
               (case ml_path l of
                  None \<Rightarrow> (Inr p, l, fs)
                | Some path \<Rightarrow>
                    (case FileOffsetStore_Save io path p fs of
                       (Some e, fs) \<Rightarrow> (Inr p, l, fs)
                     | (None, fs) \<Rightarrow> (Inr p, l\<lparr>ml_savedOffset := p\<rparr>, fs)))))"

text \<open>The snapshot events go to the bus without a source id, so the gate does not count them.\<close>

definition snapshot_to_bus :: "Event \<Rightarrow> eventHandler \<Rightarrow> eventHandler" where
  "snapshot_to_bus e h = (if fst (HandleEvent (h_service h) e) then h\<lparr>h_out := h_out h @ [e]\<rparr> else h)"

definition my_runSnapshot ::
    "int \<Rightarrow> gostring \<Rightarrow> gostring \<Rightarrow> gostring \<Rightarrow> gostring option \<Rightarrow> save_io \<Rightarrow> my_Listener \<Rightarrow> files \<Rightarrow>
      my_start_error option \<times> my_Listener \<times> files" where
  "my_runSnapshot now mode backupFile schema content io l fs =
     (if mode \<noteq> ''backup_file'' then (None, l, fs)
      else if backupFile = [] then (Some SnapshotFileMissing, l, fs)
      else let (err, pos, es) = ParseMysqlDumpFile now content schema;
               l = l\<lparr>ml_handler := fold snapshot_to_bus es (ml_handler l)\<rparr>
           in case err of
                Some e \<Rightarrow> (Some (SnapshotParse e), l, fs)
              | None \<Rightarrow>
                  (case ml_path l of
                     None \<Rightarrow> (None, l, fs)
                   | Some path \<Rightarrow>
                       if bp_File pos = [] then (None, l, fs)
                       else case FileOffsetStore_Save io path pos fs of
                              (Some e, fs) \<Rightarrow> (Some (SnapshotSave e), l, fs)
                            | (None, fs) \<Rightarrow> (None, l, fs)))"

text \<open>What \<^verbatim>\<open>Start\<close> needs from outside: the configuration and the outcomes of the calls it makes.\<close>

record my_start_env =
  se_now :: int
  se_tls_ok :: bool
  se_mode :: gostring
  se_backupFile :: gostring
  se_schema :: gostring
  se_content :: "gostring option"
  se_snapshot_io :: save_io
  se_canal_ok :: bool
  se_read_ok :: bool
  se_master :: "BinlogPosition option"
  se_offset_io :: save_io

definition my_Start :: "my_start_env \<Rightarrow> my_Listener \<Rightarrow> files \<Rightarrow> my_start_error option \<times> my_Listener \<times> files" where
  "my_Start env l fs =
     (if ml_running l then (Some AlreadyRunning, l, fs)
      else if \<not> se_tls_ok env then (Some TlsError, l, fs)
      else case my_runSnapshot (se_now env) (se_mode env) (se_backupFile env) (se_schema env) (se_content env) (se_snapshot_io env) l fs of
             (Some e, l, fs) \<Rightarrow> (Some e, l, fs)
           | (None, l, fs) \<Rightarrow>
               if \<not> se_canal_ok env then (Some CanalError, l, fs)
               else case resolveStartPosition (se_read_ok env) (se_master env) (se_offset_io env) l fs of
                      (Inl e, l, fs) \<Rightarrow> (Some e, l, fs)
                    | (Inr p, l, fs) \<Rightarrow>
                        (None, l\<lparr>ml_handler := (ml_handler l)\<lparr>h_currentFile := bp_File p\<rparr>, ml_running := True\<rparr>, fs))"

definition canal_stopped :: "bool \<Rightarrow> my_Listener \<Rightarrow> my_Listener" where
  "canal_stopped run_err l = (if run_err \<and> ml_running l then l\<lparr>ml_failed := True\<rparr> else l)"

definition my_Stop :: "save_io \<Rightarrow> my_Listener \<Rightarrow> files \<Rightarrow> my_Listener \<times> files" where
  "my_Stop io l fs =
     (if \<not> ml_running l then (l, fs)
      else let l = l\<lparr>ml_running := False\<rparr> in
           case ml_path l of None \<Rightarrow> (l, fs) | Some path \<Rightarrow> snd (saveConfirmedOffset io l fs))"

section \<open>Properties\<close>

subsection \<open>Rows\<close>

text \<open>
  A value fits when it renders as JSON: numbers the library prints as JSON numbers (so no NaN or infinity), times and other
  text without quotes, JSON columns within the nesting depth.
\<close>

fun value_fits :: "nat \<Rightarrow> go_value \<times> bool \<Rightarrow> bool" where
  "value_fits n (v, is_json) =
     (if v \<noteq> GNil \<and> is_json \<and> json_valid (plain_text v) then embeds n (plain_text v) \<and> strip (plain_text v) = plain_text v
      else case v of
             GFloat t \<Rightarrow> embeds n t \<and> strip t = t
           | GTime f t \<Rightarrow> string_body f
           | GOther None t \<Rightarrow> string_body t
           | GOther (Some d) t \<Rightarrow> embeds n d \<and> strip d = d
           | _ \<Rightarrow> True)"

lemma quote_embeds: "string_body s \<Longrightarrow> embeds n (quote s) \<and> strip (quote s) = quote s"
  using embeds_string [of s n] by (auto simp: quote_def intro!: strip_no_space) (auto simp: is_space_def)

lemma literal_embeds:
  "embeds n ''null'' \<and> strip ''null'' = ''null''" "embeds n ''true'' \<and> strip ''true'' = ''true''"
  "embeds n ''false'' \<and> strip ''false'' = ''false''"
  by (auto simp: embeds_null embeds_true embeds_false strip_def is_space_def)

lemma number_embeds:
  "embeds n (itoa_int i) \<and> strip (itoa_int i) = itoa_int i" "embeds n (itoa k) \<and> strip (itoa k) = itoa k"
proof -
  show "embeds n (itoa_int i) \<and> strip (itoa_int i) = itoa_int i" by (simp add: embeds_itoa_int)
  have "strip (itoa k) = itoa k" using strip_itoa_int [of "int k"] by (simp add: itoa_int_def)
  then show "embeds n (itoa k) \<and> strip (itoa k) = itoa k" by (simp add: embeds_itoa)
qed

lemma render_fits: "value_fits n x \<Longrightarrow> embeds n (render_value x) \<and> strip (render_value x) = render_value x"
proof (cases x)
  case (Pair v is_json)
  assume "value_fits n x"
  then show ?thesis
    unfolding Pair
    by (cases v) (auto simp: render_value_def appendValue_def literal_embeds number_embeds quote_embeds EscapeString_body
        split: if_splits option.splits)
qed

interpretation my_row: value_renderer render_value value_fits
  by unfold_locales (auto dest: render_fits)

definition row_fits :: "nat \<Rightarrow> table_column list \<Rightarrow> go_value list \<Rightarrow> bool" where
  "row_fits n cols row \<longleftrightarrow> (\<forall>(k, x) \<in> set (row_columns cols row). value_fits n x)"

definition my_members :: "table_column list \<Rightarrow> go_value list \<Rightarrow> (gostring \<times> gostring) list" where
  "my_members cols row = map (\<lambda>(k, x). (decoded_name k, render_value x)) (row_columns cols row)"

lemma rowToJSON_decodes:
  "row_fits n cols row \<Longrightarrow> Suc n \<le> max_nesting_depth \<Longrightarrow> unmarshal_map (rowToJSON cols row) = Some (my_members cols row)"
  unfolding rowToJSON_def my_members_def row_fits_def by (rule my_row.row_decodes)

lemma update_data_decodes:
  assumes "row_fits n cols old" "row_fits n cols new" "Suc (Suc n) \<le> max_nesting_depth"
  shows "unmarshal_map (update_data cols old new) = Some [(''old'', rowToJSON cols old), (''new'', rowToJSON cols new)]"
  using my_row.update_decodes [of "[(''old'', row_columns cols old), (''new'', row_columns cols new)]" n] assms
  by (simp add: update_data_def my_row.update_object_def rowToJSON_def row_fits_def)

lemma decodes_valid: "unmarshal_map s = Some ms \<Longrightarrow> json_valid s"
  by (auto simp: unmarshal_map_def split: if_splits)

lemma row_pairs_members: "(x, y) \<in> set (row_pairs rs) \<Longrightarrow> x \<in> set rs \<and> y \<in> set rs"
  by (induction rs rule: row_pairs.induct) auto

lemma row_events_valid:
  assumes "\<forall>row \<in> set (re_Rows e). row_fits n (re_Columns e) row" "Suc (Suc n) \<le> max_nesting_depth" "ev \<in> set (row_events now e lsn)"
  shows "json_valid (ev_Data ev) \<and> IsPublishable (ev_Type ev)"
proof -
  have 1: "json_valid (rowToJSON (re_Columns e) row)" if "row \<in> set (re_Rows e)" for row
    using rowToJSON_decodes [of n] assms(1,2) that by (auto intro: decodes_valid)
  have 2: "json_valid (update_data (re_Columns e) x y)" if "(x, y) \<in> set (row_pairs (re_Rows e))" for x y
    using update_data_decodes [of n] assms(1,2) row_pairs_members [OF that] by (auto intro: decodes_valid)
  show ?thesis
    using assms(3) 1 2 by (auto simp: row_events_def NewEvent_def IsPublishable_def Let_def split: row_action.splits)
qed

subsection \<open>Emitting\<close>

lemma handler_emits_accepted:
  assumes "\<not> svc_closed (h_service h)" "\<forall>e \<in> set es. json_valid (ev_Data e)"
  shows "h_out (fold handler_emit es h) = h_out h @ es"
  using assms
proof (induction es arbitrary: h)
  case (Cons e es)
  have "fst (HandleEvent (h_service h) e)" using Cons.prems by (simp add: HandleEvent_def accepts_def)
  moreover have "h_service (handler_emit e h) = h_service h" by (simp add: handler_emit_def Let_def)
  ultimately show ?case using Cons by (simp add: handler_emit_def Let_def)
qed simp

lemma with_ids_Data: "map ev_Data (with_ids f es) = map ev_Data es"
proof (cases f)
  case (Some g)
  have "map (\<lambda>x. ev_Data (snd x)) (enumerate n es) = map ev_Data es" for n
    by (induction es arbitrary: n) simp_all
  then show ?thesis using Some by (simp add: with_ids_def comp_def case_prod_unfold)
qed (simp add: with_ids_def)


definition demo_rows :: RowsEvent where
  "demo_rows = \<lparr>re_Schema = ''shop'', re_Table = ''t'', re_Columns = [\<lparr>tc_Name = ''id'', tc_json = False\<rparr>, \<lparr>tc_Name = ''x'', tc_json = False\<rparr>],
     re_Action = InsertAction, re_Rows = [[GInt 7, GString ''a'']], re_Header = Some \<lparr>eh_LogPos = 100, eh_EventSize = 20\<rparr>\<rparr>"

definition demo_handler :: eventHandler where
  "demo_handler = \<lparr>h_service = NewService, h_gate = newCommitGate, h_currentFile = ''b.1'', h_txn = zero_position, h_txnRows = 0, h_out = []\<rparr>"


subsection \<open>Source ids\<close>

lemma BinlogPosition_String_inject: "BinlogPosition_String p = BinlogPosition_String q \<longleftrightarrow> p = q"
  by (cases p, cases q) (auto simp: BinlogPosition_String_def itoa_suffix_inject word_unat_eq_iff)

lemma colon_suffix_unique:
  assumes "CHR '':'' \<notin> set s" "CHR '':'' \<notin> set t"
  shows "xs @ CHR '':'' # s = ys @ CHR '':'' # t \<longleftrightarrow> xs = ys \<and> s = t"
  using last_separator_unique [of xs "CHR '':''" s ys t] assms by blast

lemma row_id_alt: "row_id p i = (sourcePrefix @ BinlogPosition_String p) @ CHR '':'' # itoa i"
  by (simp add: row_id_def)

lemma txn_row_id_alt: "txn_row_id p i = ((sourcePrefix @ BinlogPosition_String p) @ CHR '':'' # ''txn'') @ CHR '':'' # itoa i"
  by (simp add: txn_row_id_def)

lemma ddl_id_alt: "ddl_id p = (sourcePrefix @ BinlogPosition_String p) @ CHR '':'' # ''ddl''"
  by (simp add: ddl_id_def)

lemma position_not_txn: "sourcePrefix @ BinlogPosition_String p \<noteq> xs @ CHR '':'' # ''txn''"
proof
  assume "sourcePrefix @ BinlogPosition_String p = xs @ CHR '':'' # ''txn''"
  then have "(sourcePrefix @ bp_File p) @ CHR '':'' # itoa (unat (bp_Position p)) = xs @ CHR '':'' # ''txn''"
    by (simp add: BinlogPosition_String_def)
  then have "itoa (unat (bp_Position p)) = ''txn''"
    using colon_suffix_unique [of "itoa (unat (bp_Position p))" "''txn''"] by (simp add: itoa_no_colon del: append_assoc)
  then have "is_digit CHR ''t''" using itoa_digits [of "CHR ''t''" "unat (bp_Position p)"] by simp
  then show False by (simp add: is_digit_def)
qed

lemma itoa_not_ddl: "itoa n \<noteq> ''ddl''"
proof
  assume "itoa n = ''ddl''"
  then have "is_digit CHR ''d''" using itoa_digits [of "CHR ''d''" n] by simp
  then show False by (simp add: is_digit_def)
qed

text \<open>What an id names: a row at its event's position, a row of a compressed transaction, a statement.\<close>

datatype change_name = RowAt BinlogPosition nat | TxnRow BinlogPosition nat | Statement BinlogPosition

fun change_id :: "change_name \<Rightarrow> gostring" where
  "change_id (RowAt p i) = row_id p i"
| "change_id (TxnRow p i) = txn_row_id p i"
| "change_id (Statement p) = ddl_id p"

text \<open>
  C13. No two changes of the binlog share a message id: the id of a row, of a row inside a compressed transaction, and of a
  statement determines which of the three it is, the position and the index. A duplicate the stream drops is
  therefore always the same change.
\<close>

theorem change_ids_unique: "change_id a = change_id b \<longleftrightarrow> a = b"
  using itoa_no_colon itoa_not_ddl position_not_txn position_not_txn [symmetric] itoa_not_ddl [symmetric]
  by (cases a; cases b)
    (auto simp: row_id_alt txn_row_id_alt ddl_id_alt colon_suffix_unique BinlogPosition_String_inject simp del: append_assoc)

lemma map_shift: "map (\<lambda>i. g (k + i)) [0..<m] = map g [k..<k + m]"
  by (induction m) simp_all

lemma with_ids_SourceID: "map ev_SourceID (with_ids (Some f) es) = map f [0..<length es]"
proof -
  have "map (\<lambda>x. f (fst x)) (enumerate n es) = map f [n..<n + length es]" for n
    by (induction es arbitrary: n) (simp_all add: upt_rec)
  then show ?thesis by (simp add: with_ids_def comp_def case_prod_unfold)
qed

lemma length_row_pairs: "length (row_pairs rs) = length rs div 2"
  by (induction rs rule: row_pairs.induct) auto

lemma length_row_events: "re_Action e \<noteq> OtherAction \<Longrightarrow> length (row_events now e lsn) = rowCount e"
  by (auto simp: row_events_def rowCount_def length_row_pairs Let_def split: row_action.split)

lemma handler_emit_frame [simp]:
  "h_service (handler_emit e h) = h_service h" "h_currentFile (handler_emit e h) = h_currentFile h"
  "h_txn (handler_emit e h) = h_txn h" "h_txnRows (handler_emit e h) = h_txnRows h"
  by (simp_all add: handler_emit_def Let_def)

lemma handler_emits_frame [simp]:
  "h_service (fold handler_emit es h) = h_service h" "h_currentFile (fold handler_emit es h) = h_currentFile h"
  "h_txn (fold handler_emit es h) = h_txn h" "h_txnRows (fold handler_emit es h) = h_txnRows h"
  by (induction es arbitrary: h) simp_all

definition unplaced :: "nat \<Rightarrow> RowsEvent \<Rightarrow> bool" where
  "unplaced n e \<longleftrightarrow> (\<exists>eh. re_Header e = Some eh \<and> eh_LogPos eh = 0) \<and> re_Action e \<noteq> OtherAction \<and>
     (\<forall>row \<in> set (re_Rows e). row_fits n (re_Columns e) row)"

lemma with_ids_valid:
  assumes "\<forall>e \<in> set es. json_valid (ev_Data e)"
  shows "\<forall>e \<in> set (with_ids f es). json_valid (ev_Data e)"
proof -
  have "ev_Data e \<in> set (map ev_Data (with_ids f es))" if "e \<in> set (with_ids f es)" for e using that by simp
  then show ?thesis using assms unfolding with_ids_Data by fastforce
qed

lemma OnRow_unplaced:
  assumes "unplaced n e" "Suc (Suc n) \<le> max_nesting_depth" "\<not> svc_closed (h_service h)" "h_currentFile h \<noteq> []" "bp_File (h_txn h) \<noteq> []"
  shows "\<exists>h' out. OnRow now e h = (None, h') \<and> h_out h' = h_out h @ out \<and>
     map ev_SourceID out = map (txn_row_id (h_txn h)) [h_txnRows h..<h_txnRows h + rowCount e] \<and>
     h_txnRows h' = h_txnRows h + rowCount e \<and> h_txn h' = h_txn h \<and> h_service h' = h_service h \<and> h_currentFile h' = h_currentFile h"
proof -
  let ?f = "\<lambda>row. txn_row_id (h_txn h) (h_txnRows h + row)" and ?lsn = "BinlogPosition_String (h_txn h)"
  let ?h = "h\<lparr>h_txnRows := h_txnRows h + rowCount e\<rparr>"
  let ?es = "with_ids (Some ?f) (row_events now e ?lsn)"
  have r: "rowIDs e h = (Inr (Some ?f, ?lsn), ?h)"
    using assms(1,4,5) by (auto simp: rowIDs_def unplaced_def Let_def)
  have "\<forall>ev \<in> set (row_events now e ?lsn). json_valid (ev_Data ev)"
    using row_events_valid [OF _ assms(2)] assms(1) unfolding unplaced_def by blast
  then have "h_out (fold handler_emit ?es ?h) = h_out h @ ?es"
    using handler_emits_accepted [of ?h ?es] with_ids_valid assms(3) by simp
  moreover have "map ev_SourceID ?es = map (txn_row_id (h_txn h)) [h_txnRows h..<h_txnRows h + rowCount e]"
    using assms(1) by (simp add: with_ids_SourceID length_row_events unplaced_def map_shift)
  ultimately show ?thesis
    by (intro exI [of _ "fold handler_emit ?es ?h"] exI [of _ ?es]) (simp add: OnRow_def r)
qed

definition run_rows :: "int \<Rightarrow> RowsEvent list \<Rightarrow> eventHandler \<Rightarrow> eventHandler" where
  "run_rows now es h = fold (\<lambda>e h. snd (OnRow now e h)) es h"

lemma run_rows_unplaced:
  assumes "\<forall>e \<in> set es. unplaced n e" "Suc (Suc n) \<le> max_nesting_depth" "\<not> svc_closed (h_service h)" "h_currentFile h \<noteq> []"
    "bp_File (h_txn h) \<noteq> []"
  shows "\<exists>out. h_out (run_rows now es h) = h_out h @ out \<and>
     map ev_SourceID out = map (txn_row_id (h_txn h)) [h_txnRows h..<h_txnRows h + sum_list (map rowCount es)]"
  using assms
proof (induction es arbitrary: h)
  case (Cons e es)
  obtain h' out where 1: "OnRow now e h = (None, h')" "h_out h' = h_out h @ out"
    "map ev_SourceID out = map (txn_row_id (h_txn h)) [h_txnRows h..<h_txnRows h + rowCount e]"
    "h_txnRows h' = h_txnRows h + rowCount e" "h_txn h' = h_txn h" "h_service h' = h_service h" "h_currentFile h' = h_currentFile h"
    using OnRow_unplaced [of n e h now] Cons.prems by auto
  obtain out' where 2: "h_out (run_rows now es h') = h_out h' @ out'"
    "map ev_SourceID out' = map (txn_row_id (h_txn h)) [h_txnRows h'..<h_txnRows h' + sum_list (map rowCount es)]"
    using Cons.IH [of h'] Cons.prems 1 by auto
  have "[h_txnRows h..<h_txnRows h + (rowCount e + sum_list (map rowCount es))] =
      [h_txnRows h..<h_txnRows h + rowCount e] @ [h_txnRows h + rowCount e..<h_txnRows h + rowCount e + sum_list (map rowCount es)]"
    using upt_add_eq_append [of "h_txnRows h" "h_txnRows h + rowCount e" "sum_list (map rowCount es)"] by (simp add: add.assoc)
  then show ?case
    using 1 2 by (intro exI [of _ "out @ out'"]) (simp add: run_rows_def)
qed (simp add: run_rows_def)

text \<open>
  C14. Rows of a compressed transaction, whose events carry no position of their own, are named by the enclosing transaction and their
  order in it: after the transaction's GTID event the rows get the indexes 0, 1, 2, ... without gap or repeat across all
  its rows events, whatever was read before. The same transaction read again gets the same ids.
\<close>

theorem compressed_rows_numbered:
  assumes "\<forall>e \<in> set es. unplaced n e" "Suc (Suc n) \<le> max_nesting_depth" "\<not> svc_closed (h_service h)" "h_currentFile h \<noteq> []"
    "eh_LogPos eh \<noteq> 0"
  shows "\<exists>out. h_out (run_rows now es (OnGTID (Some eh) h)) = h_out h @ out \<and>
     map ev_SourceID out = map (txn_row_id \<lparr>bp_File = h_currentFile h, bp_Position = eh_LogPos eh\<rparr>) [0..<sum_list (map rowCount es)]"
proof -
  let ?h = "OnGTID (Some eh) h"
  have "h_service ?h = h_service h" "h_out ?h = h_out h" "h_currentFile ?h = h_currentFile h" "h_txnRows ?h = 0"
    "h_txn ?h = \<lparr>bp_File = h_currentFile h, bp_Position = eh_LogPos eh\<rparr>"
    using assms(4,5) by (simp_all add: OnGTID_def Let_def)
  then show ?thesis using run_rows_unplaced [OF assms(1,2), of ?h now] assms(3,4) by simp
qed

theorem compressed_rows_numbered_witness:
  "\<exists>out. h_out (run_rows 0 [demo_rows\<lparr>re_Header := Some \<lparr>eh_LogPos = 0, eh_EventSize = 0\<rparr>\<rparr>, demo_rows\<lparr>re_Header := Some \<lparr>eh_LogPos = 0, eh_EventSize = 0\<rparr>\<rparr>]
       (OnGTID (Some \<lparr>eh_LogPos = 300, eh_EventSize = 60\<rparr>) demo_handler)) = out \<and>
     map ev_SourceID out = map (txn_row_id \<lparr>bp_File = ''b.1'', bp_Position = 300\<rparr>) [0, 1]"
proof -
  let ?e = "demo_rows\<lparr>re_Header := Some \<lparr>eh_LogPos = 0, eh_EventSize = 0\<rparr>\<rparr>"
  have "unplaced 0 ?e" by (simp add: unplaced_def demo_rows_def row_fits_def row_columns_def)
  moreover have "rowCount ?e = 1" by (simp add: rowCount_def demo_rows_def)
  ultimately show ?thesis
    using compressed_rows_numbered [of "[?e, ?e]" 0 demo_handler "\<lparr>eh_LogPos = 300, eh_EventSize = 60\<rparr>" 0]
    by (simp add: demo_handler_def NewService_def max_nesting_depth_def upt_rec)
qed

subsection \<open>The listener in its environment\<close>

text \<open>
  A running listener with the offset file, and the environment of \<open>my_step\<close>. A rows event stands for as many changes of the
  binlog as it has rows; a statement for a change and the boundary after it.
\<close>

type_synonym my_lsys = "my_Listener \<times> files \<times> mysys"

definition on_handler :: "(eventHandler \<Rightarrow> eventHandler) \<Rightarrow> my_Listener \<Rightarrow> my_Listener" where
  "on_handler f l = l\<lparr>ml_handler := f (ml_handler l)\<rparr>"

fun changes_sent :: "Service \<Rightarrow> Event list \<Rightarrow> mysys \<Rightarrow> mysys" where
  "changes_sent service [] env = env"
| "changes_sent service (e # es) env = changes_sent service es
     (if fst (HandleEvent service e)
      then env\<lparr>my_log := my_log env @ [cursor env], cursor := Suc (cursor env)\<rparr>
      else env\<lparr>my_refused := insert (cursor env) (my_refused env), cursor := Suc (cursor env)\<rparr>)"

definition changes_at :: "bitem list \<Rightarrow> nat \<Rightarrow> nat \<Rightarrow> bool" where
  "changes_at B i n \<longleftrightarrow> i + n \<le> length B \<and> (\<forall>k < n. B ! (i + k) = Change)"

definition boundary_at :: "bitem list \<Rightarrow> nat \<Rightarrow> BinlogPosition \<Rightarrow> bool" where
  "boundary_at B i p \<longleftrightarrow> i < length B \<and> B ! i = Boundary p"

inductive binlog_step :: "bitem list \<Rightarrow> gostring \<Rightarrow> my_lsys \<Rightarrow> my_lsys \<Rightarrow> bool" for B path where
  rows: "rowIDs e (ml_handler l) = (Inr (Some f, lsn), h1) \<Longrightarrow> re_Action e \<noteq> OtherAction \<Longrightarrow> changes_at B (cursor env) (rowCount e) \<Longrightarrow>
     binlog_step B path (l, fs, env) (on_handler (\<lambda>h. snd (OnRow now e h)) l, fs,
       changes_sent (h_service (ml_handler l)) (with_ids (Some f) (row_events now e lsn)) env)"
| xid: "boundary_at B (cursor env) p \<Longrightarrow>
     binlog_step B path (l, fs, env) (on_handler (OnXID now p) l, fs, env\<lparr>cursor := Suc (cursor env)\<rparr>)"
| rotate: "boundary_at B (cursor env) \<lparr>bp_File = file, bp_Position = ucast pos\<rparr> \<Longrightarrow>
     binlog_step B path (l, fs, env) (on_handler (OnRotate file pos) l, fs, env\<lparr>cursor := Suc (cursor env)\<rparr>)"
| gtid: "h_currentFile (ml_handler l) \<noteq> [] \<Longrightarrow> eh_LogPos eh \<noteq> 0 \<Longrightarrow> eh_EventSize eh \<le> eh_LogPos eh \<Longrightarrow>
     boundary_at B (cursor env) \<lparr>bp_File = h_currentFile (ml_handler l), bp_Position = eh_LogPos eh - eh_EventSize eh\<rparr> \<Longrightarrow>
     binlog_step B path (l, fs, env) (on_handler (OnGTID (Some eh)) l, fs, env\<lparr>cursor := Suc (cursor env)\<rparr>)"
| ddl: "bp_File p \<noteq> [] \<Longrightarrow> changes_at B (cursor env) 1 \<Longrightarrow> boundary_at B (Suc (cursor env)) p \<Longrightarrow>
     ev = (NewEvent now DDL schema [] query ''DDL'' [])\<lparr>ev_SourceID := ddl_id p\<rparr> \<Longrightarrow>
     env' = changes_sent (h_service (ml_handler l)) [ev] env \<Longrightarrow>
     binlog_step B path (l, fs, env) (on_handler (OnDDL now p schema query) l, fs, env'\<lparr>cursor := Suc (cursor env')\<rparr>)"
| save_tick: "saveConfirmedOffset io l fs = (err, l', fs') \<Longrightarrow>
     binlog_step B path (l, fs, env) (l', fs',
       env\<lparr>saved := (case FileOffsetStore_Load True path fs' of Inr (Some p) \<Rightarrow> p | _ \<Rightarrow> saved env)\<rparr>)"

text \<open>A step of the listener on its own, an acknowledgement by the publisher, or a restart of the process.\<close>

inductive my_listener_step :: "bitem list \<Rightarrow> gostring \<Rightarrow> my_lsys \<Rightarrow> my_lsys \<Rightarrow> bool" for B path where
  own: "binlog_step B path S S' \<Longrightarrow> my_listener_step B path S S'"
| published: "cg_acked (h_gate (ml_handler l)) < length (my_log env) \<Longrightarrow> ownEvent e \<Longrightarrow>
     my_listener_step B path (l, fs, env) (on_handler (\<lambda>h. h\<lparr>h_gate := commitGate_ObservePublished e (h_gate h)\<rparr>) l, fs,
       env\<lparr>my_delivered := insert (my_log env ! cg_acked (h_gate (ml_handler l))) (my_delivered env)\<rparr>)"
| restart: "my_Start se (my_PublishedObserver (my_NewListener path service)) fs = (None, l', fs') \<Longrightarrow>
     se_mode se \<noteq> ''backup_file'' \<Longrightarrow> se_read_ok se \<Longrightarrow> restart_ok B env k \<Longrightarrow>
     my_listener_step B path (l, fs, env) (l', fs', env\<lparr>cursor := k, my_log := []\<rparr>)"

text \<open>The relation that is kept: the environment's gate is the listener's, and the offset file holds the saved position.\<close>

definition my_linked :: "bitem list \<Rightarrow> gostring \<Rightarrow> my_lsys \<Rightarrow> bool" where
  "my_linked B path S = (case S of (l, fs, env) \<Rightarrow>
     ml_path l = Some path \<and> \<not> uncounted env \<and> FileOffsetStore_Load True path fs = Inr (Some (saved env)) \<and>
     my_inv B (env\<lparr>mgate := h_gate (ml_handler l)\<rparr>))"

definition my_abs :: "my_lsys \<Rightarrow> mysys" where
  "my_abs S = (case S of (l, fs, env) \<Rightarrow> env\<lparr>mgate := h_gate (ml_handler l)\<rparr>)"

lemma mgate_first:
  "env\<lparr>cursor := i, mgate := g\<rparr> = env\<lparr>mgate := g, cursor := i\<rparr>" "env\<lparr>my_log := xs, mgate := g\<rparr> = env\<lparr>mgate := g, my_log := xs\<rparr>"
  "env\<lparr>uncounted := b, mgate := g\<rparr> = env\<lparr>mgate := g, uncounted := b\<rparr>" "env\<lparr>my_delivered := X, mgate := g\<rparr> = env\<lparr>mgate := g, my_delivered := X\<rparr>"
  "env\<lparr>my_refused := X, mgate := g\<rparr> = env\<lparr>mgate := g, my_refused := X\<rparr>" "env\<lparr>saved := p, mgate := g\<rparr> = env\<lparr>mgate := g, saved := p\<rparr>"
  for env :: mysys
  by simp_all

lemma counted_id: "\<not> uncounted env \<Longrightarrow> env\<lparr>uncounted := False\<rparr> = env" for env :: mysys
  by (cases env) simp

lemma changes_sent_frame [simp]:
  "uncounted (changes_sent service es env) = uncounted env" "saved (changes_sent service es env) = saved env"
  "cursor (changes_sent service es env) = cursor env + length es"
  by (induction service es env rule: changes_sent.induct) simp_all

lemma own_gate: "ownEvent e \<Longrightarrow> h_gate (handler_emit e h) =
    (if fst (HandleEvent (h_service h) e) then commitGate_Hand (h_gate h) else h_gate h)"
  by (simp add: handler_emit_def Let_def)

lemma change_step:
  assumes "ownEvent e" "\<not> uncounted env" "cursor env < length B" "B ! cursor env = Change"
  shows "my_reach B (env\<lparr>mgate := h_gate h\<rparr>) ((changes_sent (h_service h) [e] env)\<lparr>mgate := h_gate (handler_emit e h)\<rparr>)"
proof (cases "fst (HandleEvent (h_service h) e)")
  case True
  let ?s = "env\<lparr>mgate := h_gate h\<rparr>"
  let ?s1 = "?s\<lparr>my_log := my_log env @ [cursor env], uncounted := True, cursor := Suc (cursor env)\<rparr>"
  have 1: "my_step B ?s ?s1" using my_step.accept [of ?s B] assms by simp
  have "my_step B ?s1 (?s1\<lparr>mgate := commitGate_Hand (h_gate h), uncounted := False\<rparr>)" using my_step.hand [of ?s1 B] by simp
  moreover have "?s1\<lparr>mgate := commitGate_Hand (h_gate h), uncounted := False\<rparr> =
      (changes_sent (h_service h) [e] env)\<lparr>mgate := h_gate (handler_emit e h)\<rparr>"
    using True assms(2) by (cases env) (simp add: own_gate [OF assms(1)])
  ultimately show ?thesis using 1 by (metis my_reach_step r_into_rtranclp)
next
  case False
  then show ?thesis
    using my_step.refuse [of "env\<lparr>mgate := h_gate h\<rparr>" B] assms by (auto simp: own_gate mgate_first)
qed

lemma changes_steps:
  assumes "\<forall>e \<in> set es. ownEvent e" "\<not> uncounted env" "changes_at B (cursor env) (length es)"
  shows "my_reach B (env\<lparr>mgate := h_gate h\<rparr>) ((changes_sent (h_service h) es env)\<lparr>mgate := h_gate (fold handler_emit es h)\<rparr>)"
  using assms
proof (induction es arbitrary: h env)
  case (Cons e es)
  let ?env = "changes_sent (h_service h) [e] env"
  have at: "cursor env < length B" "B ! cursor env = Change"
    using Cons.prems(3) by (auto simp: changes_at_def dest: spec [of _ 0])
  have "changes_at B (Suc (cursor env)) (length es)"
    using Cons.prems(3) unfolding changes_at_def by (auto dest: spec [of _ "Suc _"])
  then have "my_reach B (?env\<lparr>mgate := h_gate (handler_emit e h)\<rparr>)
      ((changes_sent (h_service h) es ?env)\<lparr>mgate := h_gate (fold handler_emit es (handler_emit e h))\<rparr>)"
    using Cons.IH [of ?env "handler_emit e h"] Cons.prems(1,2) by simp
  moreover have "my_reach B (env\<lparr>mgate := h_gate h\<rparr>) (?env\<lparr>mgate := h_gate (handler_emit e h)\<rparr>)"
    using change_step [OF _ _ at] Cons.prems by simp
  ultimately show ?case by simp
qed simp

lemma boundary_step:
  assumes "\<not> uncounted env" "boundary_at B (cursor env) p"
  shows "my_step B (env\<lparr>mgate := g\<rparr>) (env\<lparr>mgate := commitGate_Committed p g, cursor := Suc (cursor env)\<rparr>)"
  using my_step.boundary [of "env\<lparr>mgate := g\<rparr>" B p] assms by (simp add: boundary_at_def)

lemma rowIDs_own:
  assumes "rowIDs e h = (Inr (Some f, lsn), h1)"
  shows "\<forall>ev \<in> set (with_ids (Some f) (row_events now e lsn)). ownEvent ev"
    "h_gate h1 = h_gate h" "h_service h1 = h_service h"
proof -
  have "has_prefix (f i) sourcePrefix" for i
    using assms by (auto simp: rowIDs_def row_id_def txn_row_id_def Let_def split: option.splits if_splits)
  moreover have "IsPublishable (ev_Type ev)" if "ev \<in> set (row_events now e lsn)" for ev
    using that by (auto simp: row_events_def NewEvent_def IsPublishable_def Let_def split: row_action.splits)
  ultimately show "\<forall>ev \<in> set (with_ids (Some f) (row_events now e lsn)). ownEvent ev"
    by (auto simp: with_ids_def ownEvent_def dest!: in_set_enumerate_eq [THEN iffD1])
  show "h_gate h1 = h_gate h" "h_service h1 = h_service h"
    using assms by (auto simp: rowIDs_def Let_def split: option.splits if_splits)
qed

definition names_ok :: "bitem list \<Rightarrow> bool" where
  "names_ok B \<longleftrightarrow> (\<forall>p. Boundary p \<in> set B \<longrightarrow> utf8_valid (bp_File p))"

lemma save_tick_step:
  assumes "names_ok B" "my_linked B path (l, fs, env)" "saveConfirmedOffset io l fs = (err, l', fs')"
    "env' = env\<lparr>saved := (case FileOffsetStore_Load True path fs' of Inr (Some p) \<Rightarrow> p | _ \<Rightarrow> saved env)\<rparr>"
  shows "my_step B (my_abs (l, fs, env)) (my_abs (l', fs', env'))" "ml_path l' = Some path"
    "FileOffsetStore_Load True path fs' = Inr (Some (saved env'))"
proof -
  let ?g = "h_gate (ml_handler l)" and ?s = "env\<lparr>mgate := h_gate (ml_handler l)\<rparr>"
  have l: "ml_path l = Some path" "FileOffsetStore_Load True path fs = Inr (Some (saved env))" "my_inv B ?s"
    using assms(2) by (simp_all add: my_linked_def)
  obtain pos ok g where c: "commitGate_Confirmable ?g = ((pos, ok), g)" by (metis prod.exhaust)
  have g: "h_gate (ml_handler l') = g" and path: "ml_path l' = Some path"
    using assms(3) l(1) by (auto simp: saveConfirmedOffset_def c Let_def split: if_splits prod.splits option.splits)
  consider (kept) "FileOffsetStore_Load True path fs' = FileOffsetStore_Load True path fs"
    | (stored) "ok" "FileOffsetStore_Load True path fs' = Inr (Some pos)"
  proof (cases "ok \<and> pos \<noteq> ml_savedOffset l")
    case True
    obtain e fs1 where s: "FileOffsetStore_Save io path pos fs = (e, fs1)" by (rule prod.exhaust)
    have "fst (fst (commitGate_Confirmable (mgate ?s))) = pos" "bp_File pos \<noteq> []"
      using c True by (auto simp: commitGate_Confirmable_def Let_def split: prod.splits)
    then have "reached B pos (my_settled ?s)" by (rule confirmable_reached [OF l(3)])
    then have u: "utf8_valid (bp_File pos)"
      using assms(1) unfolding names_ok_def reached_def by (metis nth_mem)
    have fs': "fs' = fs1" using assms(3) True l(1) s by (auto simp: saveConfirmedOffset_def c Let_def split: option.splits)
    show ?thesis
    proof (cases e)
      case None
      then show ?thesis using kept stored True file_offset.fetch_saved [OF u, of io path fs] s fs' by simp
    next
      case (Some x)
      then show ?thesis using kept file_offset.fetch_failed [of io path pos fs] s fs' by simp
    qed
  next
    case False
    then show ?thesis using kept assms(3) l(1) by (auto simp: saveConfirmedOffset_def c Let_def split: if_splits)
  qed
  note load = this
  then show "my_step B (my_abs (l, fs, env)) (my_abs (l', fs', env'))"
  proof cases
    case kept
    then have "env' = env" using assms(4) l(2) by (cases env) simp
    then show ?thesis using my_step.confirm_unsaved [of B ?s] by (simp add: my_abs_def g c)
  next
    case stored
    then have "env' = env\<lparr>saved := pos\<rparr>" using assms(4) by simp
    then show ?thesis using my_step.save [of ?s pos ok g B] c stored(1) by (simp add: my_abs_def g mgate_first)
  qed
  show "ml_path l' = Some path" by (rule path)
  show "FileOffsetStore_Load True path fs' = Inr (Some (saved env'))"
    using load assms(4) l(2) by cases simp_all
qed

lemma my_Start_resumes:
  assumes "my_Start se (my_PublishedObserver (my_NewListener path service)) fs = (None, l', fs')" "path \<noteq> []"
    "se_mode se \<noteq> ''backup_file''" "se_read_ok se" "FileOffsetStore_Load True path fs = Inr (Some p)"
  shows "h_gate (ml_handler l') = commitGate_Enable newCommitGate" "ml_path l' = Some path" "fs' = fs"
  using assms
  by (auto simp: my_Start_def my_runSnapshot_def resolveStartPosition_def getStartPosition_def my_PublishedObserver_def
      my_NewListener_def split: if_splits)

lemma linked_reach:
  assumes "binlog_ok B" "my_linked B path (l, fs, env)" "my_reach B (my_abs (l, fs, env)) (my_abs (l', fs', env'))"
    "ml_path l' = Some path" "\<not> uncounted env'" "FileOffsetStore_Load True path fs' = Inr (Some (saved env'))"
  shows "my_linked B path (l', fs', env')"
  using assms my_inv_reach [OF assms(3,1)] by (simp add: my_linked_def my_abs_def)

text \<open>A handler that only records a boundary, and one that emits changes before it.\<close>

lemma linked_boundary:
  assumes "my_linked B path (l, fs, env)" "boundary_at B (cursor env) p" "h_gate (f (ml_handler l)) = commitGate_Committed p (h_gate (ml_handler l))"
  shows "my_reach B (my_abs (l, fs, env)) (my_abs (on_handler f l, fs, env\<lparr>cursor := Suc (cursor env)\<rparr>))"
  using boundary_step [of env B p "h_gate (ml_handler l)"] assms
  by (auto simp: my_linked_def my_abs_def on_handler_def mgate_first)

lemma linked_handler:
  assumes "binlog_ok B" "my_linked B path (l, fs, env)" "my_reach B (my_abs (l, fs, env)) (my_abs (on_handler f l, fs, env'))"
    "\<not> uncounted env'" "saved env' = saved env"
  shows "my_linked B path (on_handler f l, fs, env')"
  by (rule linked_reach [OF assms(1-3)]) (use assms(2,4,5) in \<open>simp_all add: my_linked_def on_handler_def\<close>)

lemma binlog_step_sim:
  assumes "binlog_step B path S S'" "binlog_ok B" "names_ok B" "path \<noteq> []" "my_linked B path S"
  shows "my_reach B (my_abs S) (my_abs S') \<and> my_linked B path S'"
  using assms(1)
proof (cases rule: binlog_step.cases)
  case (rows e l f lsn h1 env fs now)
  let ?es = "with_ids (Some f) (row_events now e lsn)"
  have len: "length ?es = rowCount e" using length_row_events [OF rows(4), of now lsn] by (simp add: with_ids_def)
  have "my_reach B (env\<lparr>mgate := h_gate h1\<rparr>) ((changes_sent (h_service h1) ?es env)\<lparr>mgate := h_gate (fold handler_emit ?es h1)\<rparr>)"
    using changes_steps [OF rowIDs_own(1) [OF rows(3)], of env B now h1] assms(5) rows(1,5) len by (simp add: my_linked_def)
  then have r: "my_reach B (my_abs S) (my_abs S')"
    using rowIDs_own(2,3) [OF rows(3)] rows(1-3) by (simp add: my_abs_def on_handler_def OnRow_def)
  then show ?thesis
    using linked_handler [OF assms(2) _ r [unfolded rows(1,2)]] assms(5) rows by (simp add: my_linked_def)
next
  case (xid env p l fs now)
  then have r: "my_reach B (my_abs S) (my_abs S')"
    using linked_boundary [of B path l fs env p "OnXID now p"] assms(5) by (simp add: OnXID_def committed_def Let_def)
  then show ?thesis
    using linked_handler [OF assms(2) _ r [unfolded xid(1,2)]] assms(5) xid by (simp add: my_linked_def)
next
  case (rotate env name pos l fs)
  then have r: "my_reach B (my_abs S) (my_abs S')"
    using linked_boundary [of B path l fs env _ "OnRotate name pos"] assms(5) by (simp add: OnRotate_def committed_def)
  then show ?thesis
    using linked_handler [OF assms(2) _ r [unfolded rotate(1,2)]] assms(5) rotate by (simp add: my_linked_def)
next
  case (gtid l eh env fs)
  then have r: "my_reach B (my_abs S) (my_abs S')"
    using linked_boundary [of B path l fs env _ "OnGTID (Some eh)"] assms(5) by (simp add: OnGTID_def Let_def)
  then show ?thesis
    using linked_handler [OF assms(2) _ r [unfolded gtid(1,2)]] assms(5) gtid by (simp add: my_linked_def)
next
  case (ddl p env ev now schema query env' l fs)
  have own: "ownEvent ev"
    using ddl(6) by (simp add: ownEvent_def ddl_id_def NewEvent_def IsPublishable_def)
  have u: "\<not> uncounted env" using assms(5) ddl(1) by (simp add: my_linked_def)
  let ?h = "handler_emit ev (ml_handler l)"
  have "my_reach B (env\<lparr>mgate := h_gate (ml_handler l)\<rparr>) (env'\<lparr>mgate := h_gate ?h\<rparr>)"
    using changes_steps [of "[ev]" env B "ml_handler l"] own u ddl(4,7) by simp
  moreover have "my_step B (env'\<lparr>mgate := h_gate ?h\<rparr>) (env'\<lparr>mgate := commitGate_Committed p (h_gate ?h), cursor := Suc (cursor env')\<rparr>)"
    using boundary_step [of env' B p] u ddl(5,7) by simp
  moreover have "h_gate (OnDDL now p schema query (ml_handler l)) = commitGate_Committed p (h_gate ?h)"
    using ddl(3,6) by (simp add: OnDDL_def committed_def Let_def)
  ultimately have r: "my_reach B (my_abs S) (my_abs S')"
    using ddl(1,2) by (simp add: my_abs_def on_handler_def mgate_first)
  then show ?thesis
    using linked_handler [OF assms(2) _ r [unfolded ddl(1,2)]] assms(5) ddl u by (simp add: my_linked_def)
next
  case (save_tick io l fs err l' fs' env)
  then have S: "my_linked B path (l, fs, env)" using assms(5) by simp
  have r: "my_reach B (my_abs S) (my_abs S')"
    using save_tick_step(1) [OF assms(3) S save_tick(3) refl] save_tick(1,2) by blast
  moreover have "my_linked B path S'"
    unfolding save_tick(2)
    by (rule linked_reach [OF assms(2) S r [unfolded save_tick(1,2)] save_tick_step(2) [OF assms(3) S save_tick(3) refl] _
        save_tick_step(3) [OF assms(3) S save_tick(3) refl]]) (use S in \<open>simp add: my_linked_def\<close>)
  ultimately show ?thesis by blast
qed

lemma my_listener_sim:
  assumes "my_listener_step B path S S'" "binlog_ok B" "names_ok B" "path \<noteq> []" "my_linked B path S"
  shows "my_reach B (my_abs S) (my_abs S') \<and> my_linked B path S'"
  using assms(1)
proof (cases rule: my_listener_step.cases)
  case own
  then show ?thesis using assms(2-5) by (rule binlog_step_sim)
next
  case (published l env e fs)
  then have r: "my_reach B (my_abs S) (my_abs S')"
    using my_step.ack [of "my_abs S" e B] by (auto simp: my_abs_def on_handler_def mgate_first)
  then show ?thesis
    using linked_handler [OF assms(2) _ r [unfolded published(1,2)]] assms(5) published by (simp add: my_linked_def)
next
  case (restart se service fs l' fs' env k l)
  have "FileOffsetStore_Load True path fs = Inr (Some (saved env))" "\<not> uncounted env"
    using assms(5) restart(1) by (simp_all add: my_linked_def)
  note st = my_Start_resumes [OF restart(3) assms(4) restart(4,5) this(1)]
  have r: "my_reach B (my_abs S) (my_abs S')"
    using my_step.crash [of B "my_abs S" k] restart(1,2,6) st(1) \<open>\<not> uncounted env\<close>
    by (cases env) (auto simp: my_abs_def restart_ok_def)
  moreover have "my_linked B path S'"
    unfolding restart(2)
    by (rule linked_reach [OF assms(2) _ r [unfolded restart(1,2)] st(2)])
      (use assms(5) restart(1) st(3) in \<open>simp_all add: my_linked_def\<close>)
  ultimately show ?thesis by blast
qed

abbreviation my_listener_reach :: "bitem list \<Rightarrow> gostring \<Rightarrow> my_lsys \<Rightarrow> my_lsys \<Rightarrow> bool" where
  "my_listener_reach B path \<equiv> (my_listener_step B path)\<^sup>*\<^sup>*"

lemma my_listener_reach_sim:
  assumes "my_listener_reach B path S S'" "binlog_ok B" "names_ok B" "path \<noteq> []" "my_linked B path S"
  shows "my_reach B (my_abs S) (my_abs S') \<and> my_linked B path S'"
  using assms(1)
proof (induction rule: rtranclp_induct)
  case (step T U)
  then show ?case using my_listener_sim [OF step(2) assms(2-4)] by (meson rtranclp_trans)
qed (use assms(5) in simp)

lemma my_linked_init:
  assumes "B \<noteq> []" "hd B = Boundary p0" "path \<noteq> []" "FileOffsetStore_Load True path fs = Inr (Some p0)"
  shows "my_linked B path (my_PublishedObserver (my_NewListener path service), fs, mysys_init p0)"
proof -
  have "my_inv B ((mysys_init p0)\<lparr>mgate := commitGate_Enable newCommitGate\<rparr>)"
    using my_inv_init [OF assms(1,2)] by (simp add: mysys_init_def)
  then show ?thesis
    using assms(3,4) by (simp add: my_linked_def my_PublishedObserver_def my_NewListener_def mysys_init_def)
qed

text \<open>A run: a rotate to the first file, one row, its commit, the acknowledgement, and a save.\<close>

definition demo_listener :: my_Listener where
  "demo_listener = my_PublishedObserver (my_NewListener ''o'' NewService)"

definition demo_files :: files where
  "demo_files = [''o'' \<mapsto> marshal_position (demo_position 4)]"

definition demo_insert :: RowsEvent where
  "demo_insert = \<lparr>re_Schema = ''shop'', re_Table = ''t'', re_Columns = [], re_Action = InsertAction, re_Rows = [[]],
     re_Header = Some \<lparr>eh_LogPos = 150, eh_EventSize = 20\<rparr>\<rparr>"

definition demo_row_event :: Event where
  "demo_row_event = (NewEvent 0 Insert ''shop'' ''t'' ''{}'' ''INSERT'' (BinlogPosition_String (demo_position 150)))
     \<lparr>ev_SourceID := row_id (demo_position 150) 0\<rparr>"

definition demo_saved_files :: files where
  "demo_saved_files = [''o'' \<mapsto> marshal_position (demo_position 200)]"

lemma demo_roundtrip: "unmarshal_position (marshal_position (demo_position n)) = Some (demo_position n)"
  by (rule position_roundtrip) (simp add: demo_position_def decode_rune.simps(2) rune_error_def)

lemma demo_loads:
  "FileOffsetStore_Load True ''o'' demo_files = Inr (Some (demo_position 4))"
  "FileOffsetStore_Load True ''o'' demo_saved_files = Inr (Some (demo_position 200))"
  by (simp_all add: FileOffsetStore_Load_def demo_files_def demo_saved_files_def demo_roundtrip)

lemma empty_object_valid: "json_valid ''{}''"
  using my_row.row_valid [of "[]" 0] by (simp add: row_object_def json_object_sep_def max_nesting_depth_def)

lemma demo_insert_events:
  "with_ids (Some (row_id (demo_position 150))) (row_events 0 demo_insert (BinlogPosition_String (demo_position 150))) = [demo_row_event]"
  by (simp add: row_events_def demo_insert_def rowToJSON_def row_columns_def row_object_def json_object_sep_def with_ids_def
      demo_row_event_def NewEvent_def Let_def)

lemma demo_row_accepted: "fst (HandleEvent NewService demo_row_event)" "ownEvent demo_row_event"
  by (simp_all add: HandleEvent_def accepts_def demo_row_event_def NewEvent_def NewService_def empty_object_valid ownEvent_def row_id_def
      IsPublishable_def)

lemma save_moved:
  assumes "commitGate_Confirmable (h_gate (ml_handler l)) = ((p, True), g)" "ml_path l = Some path" "ml_savedOffset l \<noteq> p"
  shows "\<exists>l'. saveConfirmedOffset SaveDone l fs = (None, l', (fs(path @ ''.tmp'' := None))(path \<mapsto> marshal_position p))"
  using assms by (auto simp: saveConfirmedOffset_def FileOffsetStore_Save_def Let_def)

text \<open>The listener and the environment after each of the steps; the acknowledgement is the fourth.\<close>

fun my_demo_listener :: "nat \<Rightarrow> my_Listener" where
  "my_demo_listener 0 = demo_listener"
| "my_demo_listener (Suc 0) = on_handler (OnRotate ''binlog.000001'' 4) demo_listener"
| "my_demo_listener (Suc (Suc 0)) = on_handler (\<lambda>h. snd (OnRow 0 demo_insert h)) (my_demo_listener 1)"
| "my_demo_listener (Suc (Suc (Suc 0))) = on_handler (OnXID 0 (demo_position 200)) (my_demo_listener 2)"
| "my_demo_listener n = on_handler (\<lambda>h. h\<lparr>h_gate := commitGate_ObservePublished demo_row_event (h_gate h)\<rparr>) (my_demo_listener 3)"

definition my_demo_env :: "nat \<Rightarrow> mysys" where
  "my_demo_env n = (mysys_init (demo_position 4))\<lparr>cursor := min n 3, my_log := (if n < 2 then [] else [1]),
     my_delivered := (if n < 4 then {} else {1}), saved := demo_position (if n < 5 then 4 else 200)\<rparr>"

lemmas demo_listener_defs = on_handler_def demo_listener_def my_PublishedObserver_def my_NewListener_def OnRotate_def committed_def

lemma demo_row_ids:
  "rowIDs demo_insert (ml_handler (my_demo_listener 1)) =
     (Inr (Some (row_id (demo_position 150)), BinlogPosition_String (demo_position 150)), ml_handler (my_demo_listener 1))"
  by (simp add: rowIDs_def demo_listener_defs demo_insert_def demo_position_def Let_def)

lemma demo_service: "h_service (ml_handler (my_demo_listener 1)) = NewService"
  by (simp add: demo_listener_defs)

lemma demo_row_handled:
  "ml_handler (my_demo_listener 2) = handler_emit demo_row_event (ml_handler (my_demo_listener 1))"
  using demo_row_ids by (simp add: numeral_2_eq_2 on_handler_def OnRow_def demo_insert_events)

lemma demo_gates:
  "h_gate (ml_handler (my_demo_listener 1)) = commitGate_Committed (demo_position 4) (commitGate_Enable newCommitGate)"
  "h_gate (ml_handler (my_demo_listener 2)) = commitGate_Hand (h_gate (ml_handler (my_demo_listener 1)))"
  "h_gate (ml_handler (my_demo_listener 3)) = commitGate_Committed (demo_position 200) (h_gate (ml_handler (my_demo_listener 2)))"
  "h_gate (ml_handler (my_demo_listener 4)) = commitGate_ObservePublished demo_row_event (h_gate (ml_handler (my_demo_listener 3)))"
  subgoal by (simp add: demo_listener_defs demo_position_def)
  subgoal using demo_row_accepted by (simp add: demo_row_handled handler_emit_def demo_service Let_def del: One_nat_def)
  subgoal by (simp add: numeral_eq_Suc on_handler_def OnXID_def committed_def Let_def)
  subgoal by (simp add: numeral_eq_Suc on_handler_def)
  done

lemma demo_confirmable:
  "commitGate_Confirmable (h_gate (ml_handler (my_demo_listener 4))) =
     ((demo_position 200, True), \<lparr>cg_gated = True, cg_acked = 1, cg_handed = 1, cg_commits = [], cg_confirmable = demo_position 200\<rparr>)"
  using demo_row_accepted(2)
  by (simp add: demo_gates del: One_nat_def) (simp add: commitGate_defs demo_position_def minBinlogPosition_def Let_def zero_position_def
      commitGate_Confirmable_def acked_events_def)

lemma demo_save:
  "\<exists>l. saveConfirmedOffset SaveDone (my_demo_listener 4) demo_files = (None, l, demo_saved_files)"
proof -
  have "ml_path (my_demo_listener 4) = Some ''o''" "ml_savedOffset (my_demo_listener 4) \<noteq> demo_position 200"
    by (simp_all add: numeral_eq_Suc demo_listener_defs zero_position_def demo_position_def)
  moreover have "(demo_files(''o'' @ ''.tmp'' := None))(''o'' \<mapsto> marshal_position (demo_position 200)) = demo_saved_files"
    by (auto simp: demo_files_def demo_saved_files_def fun_eq_iff)
  ultimately show ?thesis using save_moved [OF demo_confirmable, of "''o''" demo_files] by metis
qed

lemma demo_binlog_steps:
  shows "binlog_step demo_binlog ''o'' (demo_listener, demo_files, my_demo_env 0) (my_demo_listener 1, demo_files, my_demo_env 1)"
    and "binlog_step demo_binlog ''o'' (my_demo_listener 1, demo_files, my_demo_env 1) (my_demo_listener 2, demo_files, my_demo_env 2)"
    and "binlog_step demo_binlog ''o'' (my_demo_listener 2, demo_files, my_demo_env 2) (my_demo_listener 3, demo_files, my_demo_env 3)"
    and "\<exists>l. binlog_step demo_binlog ''o'' (my_demo_listener 4, demo_files, my_demo_env 4) (l, demo_saved_files, my_demo_env 5)"
proof -
  show "binlog_step demo_binlog ''o'' (demo_listener, demo_files, my_demo_env 0) (my_demo_listener 1, demo_files, my_demo_env 1)"
    using binlog_step.rotate [of demo_binlog "my_demo_env 0" "''binlog.000001''" 4 "''o''" demo_listener demo_files]
    by (simp add: boundary_at_def demo_binlog_def mysys_init_def demo_position_def my_demo_env_def)
  show "binlog_step demo_binlog ''o'' (my_demo_listener 1, demo_files, my_demo_env 1) (my_demo_listener 2, demo_files, my_demo_env 2)"
    using binlog_step.rows [OF demo_row_ids, of demo_binlog "my_demo_env 1" "''o''" demo_files 0] demo_row_accepted(1)
    by (simp add: demo_insert_events demo_service changes_at_def demo_binlog_def mysys_init_def rowCount_def my_demo_env_def del: One_nat_def)
      (simp add: demo_insert_def numeral_2_eq_2)
  show "binlog_step demo_binlog ''o'' (my_demo_listener 2, demo_files, my_demo_env 2) (my_demo_listener 3, demo_files, my_demo_env 3)"
    using binlog_step.xid [of demo_binlog "my_demo_env 2" "demo_position 200" "''o''" "my_demo_listener 2" demo_files 0]
    by (simp add: boundary_at_def demo_binlog_def mysys_init_def my_demo_env_def numeral_2_eq_2 numeral_3_eq_3)
  obtain l where s: "saveConfirmedOffset SaveDone (my_demo_listener 4) demo_files = (None, l, demo_saved_files)" using demo_save by blast
  have "(my_demo_env 4)\<lparr>saved := demo_position 200\<rparr> = my_demo_env 5" by (simp add: my_demo_env_def)
  then show "\<exists>l. binlog_step demo_binlog ''o'' (my_demo_listener 4, demo_files, my_demo_env 4) (l, demo_saved_files, my_demo_env 5)"
    using binlog_step.save_tick [OF s, of demo_binlog "''o''" "my_demo_env 4"] by (auto simp: demo_loads)
qed

lemma demo_unacked: "cg_acked (h_gate (ml_handler (my_demo_listener 3))) = 0"
  by (simp add: demo_gates del: One_nat_def) (simp add: commitGate_defs Let_def)

lemma demo_listener_run:
  "\<exists>l. my_listener_reach demo_binlog ''o'' (demo_listener, demo_files, mysys_init (demo_position 4)) (l, demo_saved_files, my_demo_env 5)"
proof -
  let ?step = "my_listener_step demo_binlog ''o''"
  have start: "my_demo_env 0 = mysys_init (demo_position 4)" by (simp add: my_demo_env_def mysys_init_def)
  note steps = demo_binlog_steps(1-3) [THEN my_listener_step.own]
  have 4: "?step (my_demo_listener 3, demo_files, my_demo_env 3) (my_demo_listener 4, demo_files, my_demo_env 4)"
    using my_listener_step.published [of "my_demo_listener 3" "my_demo_env 3" demo_row_event demo_binlog "''o''" demo_files] demo_row_accepted(2) demo_unacked
    by (simp add: my_demo_env_def mysys_init_def numeral_eq_Suc del: One_nat_def)
  obtain l where "binlog_step demo_binlog ''o'' (my_demo_listener 4, demo_files, my_demo_env 4) (l, demo_saved_files, my_demo_env 5)"
    using demo_binlog_steps(4) by blast
  from my_listener_step.own [OF this] show ?thesis
    using steps 4 unfolding start [symmetric] by (meson converse_rtranclp_into_rtranclp r_into_rtranclp)
qed

text \<open>
  A restarted MySQL listener skips nothing. Whatever rows, statements, rotates, commits, acknowledgements, saves (failing or
  torn ones included) and restarts a listener has gone through, the position a new process resolves as its start is a
  boundary before which every row and statement of the binlog is stored by JetStream or was refused by the bus as
  invalid.
\<close>

theorem mysql_resume_skips_nothing:
  assumes "binlog_ok B" "names_ok B" "B \<noteq> []" "hd B = Boundary p0" "path \<noteq> []" "FileOffsetStore_Load True path fs0 = Inr (Some p0)"
    "my_listener_reach B path (my_PublishedObserver (my_NewListener path service), fs0, mysys_init p0) (l, fs, env)"
    "resolveStartPosition True master io (my_NewListener path service') fs = (Inr p, l', fs')"
    "i < length B" "B ! i = Boundary p" "j < i" "B ! j = Change"
  shows "j \<in> my_delivered env \<union> my_refused env"
proof -
  have "my_linked B path (l, fs, env)"
    using my_listener_reach_sim [OF assms(7,1,2,5) my_linked_init [OF assms(3,4,5,6)]] by blast
  then have s: "FileOffsetStore_Load True path fs = Inr (Some (saved env))" and inv: "my_inv B (env\<lparr>mgate := h_gate (ml_handler l)\<rparr>)"
    by (simp_all add: my_linked_def)
  have "p = saved env"
    using assms(5,8) s by (simp add: resolveStartPosition_def getStartPosition_def my_NewListener_def)
  moreover have "reached B (saved env) (my_settled env)" using inv by (simp add: my_inv_def my_settled_def)
  ultimately have "j \<in> my_settled env" using reached_unique [OF assms(1) _ assms(9,10,11,12)] by blast
  then show ?thesis by (simp add: my_settled_def)
qed

theorem mysql_resume_skips_nothing_witness:
  "\<exists>l fs. resolveStartPosition True None SaveDone (my_NewListener ''o'' NewService) demo_saved_files = (Inr (demo_position 200), l, fs) \<and>
     1 \<in> my_delivered (my_demo_env 5)"
proof -
  obtain l fs where r: "resolveStartPosition True None SaveDone (my_NewListener ''o'' NewService) demo_saved_files = (Inr (demo_position 200), l, fs)"
    by (simp add: resolveStartPosition_def getStartPosition_def my_NewListener_def demo_loads)
  obtain l1 where run: "my_listener_reach demo_binlog ''o'' (my_PublishedObserver (my_NewListener ''o'' NewService), demo_files, mysys_init (demo_position 4))
     (l1, demo_saved_files, my_demo_env 5)"
    using demo_listener_run unfolding demo_listener_def by blast
  have "names_ok demo_binlog"
    by (auto simp: names_ok_def demo_binlog_def demo_position_def decode_rune.simps(2) rune_error_def)
  then show ?thesis
    using mysql_resume_skips_nothing [OF demo_binlog_ok _ _ _ _ demo_loads(1) run r, of 2 1] r
    by (simp add: demo_binlog_def my_demo_env_def mysys_init_def)
qed

text \<open>
  With a backup file as snapshot the dump is read again at every start, and its position replaces the saved one: a listener
  whose offset had moved on starts from the dump's position.
\<close>

theorem snapshot_rewinds_offset:
  assumes "mode = ''backup_file''" "backupFile \<noteq> []" "ml_path l = Some path" "utf8_valid (bp_File pos)" "bp_File pos \<noteq> []"
    "ParseMysqlDumpFile now content schema = (None, pos, es)" "my_runSnapshot now mode backupFile schema content SaveDone l fs = (None, l', fs')"
  shows "FileOffsetStore_Load True path fs' = Inr (Some pos)"
  using assms file_offset.fetch_saved [OF assms(4), of SaveDone path fs]
  by (auto simp: my_runSnapshot_def Let_def FileOffsetStore_Save_def split: prod.splits)

subsection \<open>Server id\<close>

text \<open>
  The replication server id the listener registers with is always in the range 65536 to 131071, for any host name, so it is
  never zero and never collides with the small ids MySQL servers are configured with.
\<close>

lemma server_id_range: "65536 \<le> generateServerID host \<and> generateServerID host \<le> 131071"
proof -
  define y where "y = fold (\<lambda>c h. h * 31 + of_nat c) (runes host) (0 :: u32) mod 65536"
  have y: "unat y < 65536" unfolding y_def by (simp add: unat_mod)
  then have "unat (65536 + y) = 65536 + unat y" using unat_add_lem [of "65536 :: u32" y] by simp
  moreover have "generateServerID host = 65536 + y" by (simp add: generateServerID_def y_def Let_def)
  ultimately show ?thesis using y by (simp add: word_le_nat_alt)
qed

end
