(* ===== verification/Mysql_Delivery.thy ===== *)
theory Mysql_Delivery
  imports Delivery Mysql_Listener
begin

text \<open>
  The MySQL listener as a source of \<open>Delivery\<close>: its gate counts acknowledgements without looking at which event was acknowledged, so it
  relies on the order of the bus and of the publisher. The interpretation of \<open>event_source\<close> on the definitions of \<open>Mysql_Listener\<close>
  shows that this is enough.
\<close>

section \<open>What the handlers hand over\<close>

text \<open>
  From \<open>h\<close> to \<open>h'\<close> the handler only appended to the bus, its gate counted no acknowledgement, and there are \<open>n\<close> own events among the new ones, none with a sequence number.
\<close>

definition gives :: "nat \<Rightarrow> eventHandler \<Rightarrow> eventHandler \<Rightarrow> bool" where
  "gives n h h' \<longleftrightarrow> (\<exists>new. h_out h' = h_out h @ new \<and> length (filter ownEvent new) = n \<and> (\<forall>e \<in> set new. ev_Sequence e = 0)) \<and> cg_acked (h_gate h') = cg_acked (h_gate h)"

lemma gives_same: "h_out h' = h_out h \<Longrightarrow> cg_acked (h_gate h') = cg_acked (h_gate h) \<Longrightarrow> gives 0 h h'"
  by (simp add: gives_def)

lemma gives_trans: "gives m h h' \<Longrightarrow> gives n h' h'' \<Longrightarrow> gives (m + n) h h''"
  by (fastforce simp: gives_def)

lemma gives_emit: "ev_Sequence e = 0 \<Longrightarrow> gives (if ownEvent e \<and> fst (HandleEvent (h_service h) e) then 1 else 0) h (handler_emit e h)"
  by (auto simp: gives_def handler_emit_def commitGate_Hand_def Let_def)

lemma gives_committed: "gives 0 h (committed p h)"
  by (rule gives_same) (simp_all add: committed_def commitGate_Committed_def Let_def)

lemma gives_emits:
  assumes "\<forall>e \<in> set es. ownEvent e \<and> ev_Sequence e = 0"
  shows "\<exists>n xs. gives n h (fold handler_emit es h) \<and> my_log (changes_sent (h_service h) es env) = my_log env @ xs \<and> length xs = n"
  using assms
proof (induction es arbitrary: h env)
  case Nil
  then show ?case by (auto intro: gives_same)
next
  case (Cons e es)
  let ?env = "changes_sent (h_service h) [e] env"
  obtain n xs where n: "gives n (handler_emit e h) (fold handler_emit es (handler_emit e h))"
      "my_log (changes_sent (h_service h) es ?env) = my_log ?env @ xs" "length xs = n"
    using Cons.IH [of "handler_emit e h" ?env] Cons.prems by auto
  show ?case
    using gives_trans [OF gives_emit n(1)] n(2,3) Cons.prems by (cases "fst (HandleEvent (h_service h) e)") auto
qed

lemma changes_sent_delivered [simp]: "my_delivered (changes_sent service es env) = my_delivered env"
  by (induction service es env rule: changes_sent.induct) simp_all

lemma gives_OnRow:
  assumes "rowIDs e h = (Inr (Some f, lsn), h1)"
  shows "\<exists>n xs. gives n h (snd (OnRow now e h)) \<and>
    my_log (changes_sent (h_service h) (with_ids (Some f) (row_events now e lsn)) env) = my_log env @ xs \<and> length xs = n"
proof -
  have "gives 0 h h1" using assms by (auto simp: rowIDs_def Let_def split: option.splits if_splits intro: gives_same)
  moreover have "\<forall>ev \<in> set (with_ids (Some f) (row_events now e lsn)). ev_Sequence ev = 0"
    by (auto simp: with_ids_def row_events_def NewEvent_def Let_def enumerate_eq_zip split: row_action.splits dest!: set_zip_rightD)
  moreover from this obtain n xs where "gives n h1 (fold handler_emit (with_ids (Some f) (row_events now e lsn)) h1)"
      "my_log (changes_sent (h_service h) (with_ids (Some f) (row_events now e lsn)) env) = my_log env @ xs" "length xs = n"
    using gives_emits [of "with_ids (Some f) (row_events now e lsn)" h1 env] rowIDs_own(1,3) [OF assms] by auto
  ultimately show ?thesis using gives_trans [of 0 h h1 n] assms by (auto simp: OnRow_def)
qed

lemma gives_OnXID: "gives 0 h (OnXID now p h)"
proof -
  have "\<not> ownEvent e" if "ev_Type e = Commit" for e using that by (simp add: ownEvent_def IsPublishable_def)
  then have "gives 0 h (h\<lparr>h_out := h_out h @ [e]\<rparr>)" if "ev_Type e = Commit" "ev_Sequence e = 0" for e using that by (auto simp: gives_def)
  then show ?thesis
    using gives_trans [OF _ gives_committed, of 0 h] gives_committed [of h p] by (auto simp: OnXID_def NewEvent_def Let_def)
qed

lemma gives_OnDDL:
  assumes "bp_File p \<noteq> []" "ev = (NewEvent now DDL schema [] query ''DDL'' [])\<lparr>ev_SourceID := ddl_id p\<rparr>"
  shows "\<exists>n xs. gives n h (OnDDL now p schema query h) \<and> my_log (changes_sent (h_service h) [ev] env) = my_log env @ xs \<and> length xs = n"
proof -
  have "ownEvent ev \<and> ev_Sequence ev = 0" by (simp add: assms(2) ownEvent_def ddl_id_def NewEvent_def IsPublishable_def)
  then obtain n xs where "gives n h (handler_emit ev h)" "my_log (changes_sent (h_service h) [ev] env) = my_log env @ xs" "length xs = n"
    using gives_emits [of "[ev]" h env] by auto
  moreover have "OnDDL now p schema query h = committed p (handler_emit ev h)" using assms by (simp add: OnDDL_def Let_def)
  ultimately show ?thesis using gives_trans [OF _ gives_committed, of n h] by auto
qed

lemma binlog_step_gives:
  assumes "binlog_step B path (l, fs, env) (l', fs', env')"
  shows "\<exists>n xs. gives n (ml_handler l) (ml_handler l') \<and> my_log env' = my_log env @ xs \<and> length xs = n" and "my_delivered env' = my_delivered env"
proof -
  show "my_delivered env' = my_delivered env" using assms by cases auto
  show "\<exists>n xs. gives n (ml_handler l) (ml_handler l') \<and> my_log env' = my_log env @ xs \<and> length xs = n"
    using assms
  proof cases
    case rows
    then show ?thesis using gives_OnRow by (simp add: on_handler_def)
  next
    case xid
    then show ?thesis using gives_OnXID by (auto simp: on_handler_def)
  next
    case rotate
    then show ?thesis by (auto simp: on_handler_def OnRotate_def committed_def commitGate_Committed_def Let_def intro!: gives_same)
  next
    case gtid
    then show ?thesis by (auto simp: on_handler_def OnGTID_def commitGate_Committed_def Let_def intro!: gives_same)
  next
    case ddl
    then show ?thesis using gives_OnDDL by (simp add: on_handler_def)
  next
    case save_tick
    then show ?thesis
      by (auto simp: saveConfirmedOffset_def commitGate_Confirmable_def Let_def split: if_splits prod.splits option.splits intro!: gives_same)
  qed
qed

section \<open>The listener as a source\<close>

definition my_acknowledge :: "Event \<Rightarrow> my_lsys \<Rightarrow> my_lsys" where
  "my_acknowledge e S = (case S of (l, fs, env) \<Rightarrow>
     (on_handler (\<lambda>h. h\<lparr>h_gate := commitGate_ObservePublished e (h_gate h)\<rparr>) l, fs,
      if ownEvent e then env\<lparr>my_delivered := insert (my_log env ! cg_acked (h_gate (ml_handler l))) (my_delivered env)\<rparr> else env))"

definition my_restarts :: "bitem list \<Rightarrow> gostring \<Rightarrow> my_lsys \<Rightarrow> my_lsys \<Rightarrow> bool" where
  "my_restarts B path S S' \<longleftrightarrow> (case S of (l, fs, env) \<Rightarrow> \<exists>se service l' fs' k.
     my_Start se (my_PublishedObserver (my_NewListener path service)) fs = (None, l', fs') \<and> se_mode se \<noteq> ''backup_file'' \<and> se_read_ok se \<and>
     restart_ok B env k \<and> S' = (l', fs', env\<lparr>cursor := k, my_log := []\<rparr>))"

definition my_source :: "bitem list \<Rightarrow> gostring \<Rightarrow> (my_lsys, nat) source" where
  "my_source B path = \<lparr>src_out = \<lambda>S. h_out (ml_handler (fst S)), src_changes = \<lambda>S. my_log (snd (snd S)), src_own = ownEvent,
     src_acked = \<lambda>S. cg_acked (h_gate (ml_handler (fst S))), src_stored = \<lambda>S. my_delivered (snd (snd S)),
     src_runs = binlog_step B path, src_ack = my_acknowledge, src_restarts = my_restarts B path\<rparr>"

lemma my_source_simps [simp]:
  "src_out (my_source B path) S = h_out (ml_handler (fst S))" "src_changes (my_source B path) S = my_log (snd (snd S))"
  "src_own (my_source B path) = ownEvent" "src_acked (my_source B path) S = cg_acked (h_gate (ml_handler (fst S)))"
  "src_stored (my_source B path) S = my_delivered (snd (snd S))" "src_runs (my_source B path) = binlog_step B path"
  "src_ack (my_source B path) = my_acknowledge" "src_restarts (my_source B path) = my_restarts B path"
  by (simp_all add: my_source_def)

definition my_valid :: "bitem list \<Rightarrow> gostring \<Rightarrow> my_lsys \<Rightarrow> bool" where
  "my_valid B path S \<longleftrightarrow> binlog_ok B \<and> names_ok B \<and> path \<noteq> [] \<and> my_linked B path S \<and>
     length (filter ownEvent (h_out (ml_handler (fst S)))) = length (my_log (snd (snd S)))"

lemma my_valid_step:
  assumes "my_valid B path S" "my_listener_step B path S S'" "length (filter ownEvent (h_out (ml_handler (fst S')))) = length (my_log (snd (snd S')))"
  shows "my_valid B path S'"
  using assms my_listener_sim [OF assms(2)] by (simp add: my_valid_def)

lemma my_runs:
  assumes "my_valid B path S" "binlog_step B path S S'"
  shows "my_valid B path S' \<and> cg_acked (h_gate (ml_handler (fst S'))) = cg_acked (h_gate (ml_handler (fst S))) \<and>
    my_delivered (snd (snd S')) = my_delivered (snd (snd S)) \<and> (\<exists>new. h_out (ml_handler (fst S')) = h_out (ml_handler (fst S)) @ new) \<and>
    (\<exists>xs. my_log (snd (snd S')) = my_log (snd (snd S)) @ xs)"
proof -
  obtain l fs env l' fs' env' where S: "S = (l, fs, env)" "S' = (l', fs', env')" by (metis prod.exhaust)
  note g = binlog_step_gives [OF assms(2) [unfolded S]]
  obtain new xs where n: "h_out (ml_handler l') = h_out (ml_handler l) @ new" "my_log env' = my_log env @ xs" "length (filter ownEvent new) = length xs"
      "cg_acked (h_gate (ml_handler l')) = cg_acked (h_gate (ml_handler l))"
    using g(1) by (auto simp: gives_def)
  have "my_valid B path S'"
    by (rule my_valid_step [OF assms(1) my_listener_step.own [OF assms(2)]]) (use assms(1) n in \<open>simp add: S my_valid_def\<close>)
  then show ?thesis using n g(2) by (simp add: S)
qed

lemma my_ack_next:
  assumes "my_valid B path (l, fs, env)" "cg_acked (h_gate (ml_handler l)) < length (my_log env)" "ownEvent e"
  shows "my_valid B path (my_acknowledge e (l, fs, env))"
proof -
  have "my_listener_step B path (l, fs, env) (my_acknowledge e (l, fs, env))"
    using my_listener_step.published [OF assms(2,3)] assms(3) by (simp add: my_acknowledge_def)
  then show ?thesis
    by (rule my_valid_step [OF assms(1)]) (use assms(1,3) in \<open>simp add: my_valid_def my_acknowledge_def on_handler_def\<close>)
qed

lemma my_restarted:
  assumes "my_valid B path S" "my_restarts B path S S'"
  shows "my_valid B path S'" "h_out (ml_handler (fst S')) = []" "my_log (snd (snd S')) = []" "cg_acked (h_gate (ml_handler (fst S'))) = 0"
    "my_delivered (snd (snd S')) = my_delivered (snd (snd S))"
proof -
  obtain l fs env where S: "S = (l, fs, env)" by (metis prod.exhaust)
  obtain se service l' fs' k where r: "my_Start se (my_PublishedObserver (my_NewListener path service)) fs = (None, l', fs')"
      "se_mode se \<noteq> ''backup_file''" "se_read_ok se" "restart_ok B env k" "S' = (l', fs', env\<lparr>cursor := k, my_log := []\<rparr>)"
    using assms(2) by (auto simp: my_restarts_def S)
  have v: "path \<noteq> []" "FileOffsetStore_Load True path fs = Inr (Some (saved env))" using assms(1) by (simp_all add: my_valid_def my_linked_def S)
  show out: "h_out (ml_handler (fst S')) = []"
    using r(1-3) v
    by (auto simp: r(5) my_Start_def my_runSnapshot_def resolveStartPosition_def getStartPosition_def my_PublishedObserver_def my_NewListener_def
        split: if_splits)
  show "cg_acked (h_gate (ml_handler (fst S'))) = 0"
    using my_Start_resumes(1) [OF r(1) v(1) r(2,3) v(2)] by (simp add: r(5) commitGate_defs)
  have "my_listener_step B path S S'" unfolding S r(5) by (rule my_listener_step.restart [OF r(1-4)])
  then show "my_valid B path S'" by (rule my_valid_step [OF assms(1)]) (use out in \<open>simp add: r(5)\<close>)
qed (use assms(2) in \<open>auto simp: my_restarts_def split: prod.splits\<close>)

interpretation my_path: event_source "my_source B path" "my_valid B path"
proof unfold_locales
  show "publishable e" if "src_own (my_source B path) e" for e using that by (simp add: ownEvent_def)
  show "src_acked (my_source B path) S \<le> length (src_changes (my_source B path) S) \<and>
      length (filter (src_own (my_source B path)) (src_out (my_source B path) S)) = length (src_changes (my_source B path) S)"
    if "my_valid B path S" for S
    using that by (auto simp: my_valid_def my_linked_def my_inv_def split: prod.splits)
next
  fix S S' assume "my_valid B path S" "src_runs (my_source B path) S S'"
  then show "my_valid B path S' \<and> src_acked (my_source B path) S' = src_acked (my_source B path) S \<and>
      src_stored (my_source B path) S' = src_stored (my_source B path) S \<and> (\<exists>new. src_out (my_source B path) S' = src_out (my_source B path) S @ new) \<and>
      (\<exists>xs. src_changes (my_source B path) S' = src_changes (my_source B path) S @ xs)"
    using my_runs by simp
next
  fix S :: my_lsys and e
  obtain l fs env where S: "S = (l, fs, env)" by (metis prod.exhaust)
  assume a: "my_valid B path S" "src_acked (my_source B path) S < length (src_changes (my_source B path) S)"
    "e = filter (src_own (my_source B path)) (src_out (my_source B path) S) ! src_acked (my_source B path) S"
  then have "cg_acked (h_gate (ml_handler l)) < length (filter ownEvent (h_out (ml_handler l)))" by (simp add: S my_valid_def)
  from nth_mem [OF this] have "e \<in> set (filter ownEvent (h_out (ml_handler l)))" unfolding a(3) by (simp add: S)
  then have own: "ownEvent e" by simp
  have "my_valid B path (my_acknowledge e S)" using my_ack_next [of B path l fs env e] a(1,2) own by (simp add: S)
  then show "my_valid B path (src_ack (my_source B path) e S) \<and> src_out (my_source B path) (src_ack (my_source B path) e S) = src_out (my_source B path) S \<and>
      src_changes (my_source B path) (src_ack (my_source B path) e S) = src_changes (my_source B path) S \<and>
      src_acked (my_source B path) (src_ack (my_source B path) e S) = Suc (src_acked (my_source B path) S) \<and>
      src_stored (my_source B path) (src_ack (my_source B path) e S) =
        insert (src_changes (my_source B path) S ! src_acked (my_source B path) S) (src_stored (my_source B path) S)"
    using own by (simp add: S) (simp add: my_acknowledge_def on_handler_def commitGate_ObservePublished_def)
next
  fix e and S :: my_lsys assume "\<not> src_own (my_source B path) e"
  then show "src_ack (my_source B path) e S = S"
    by (auto simp: my_acknowledge_def on_handler_def commitGate_ObservePublished_def split: prod.split)
next
  fix S S' assume "my_valid B path S" "src_restarts (my_source B path) S S'"
  then show "my_valid B path S' \<and> src_out (my_source B path) S' = [] \<and> src_changes (my_source B path) S' = [] \<and> src_acked (my_source B path) S' = 0 \<and>
      src_stored (my_source B path) S' = src_stored (my_source B path) S"
    using my_restarted by simp
qed


section \<open>Properties\<close>

definition my_observer :: nat where
  "my_observer = 1"

text \<open>
  C2. Nothing before the position a restarted MySQL listener resumes from is lost on the way to NATS. Listener, offset file, bus and publisher together, in any
  interleaving with each other, with other event sources, failing and repeated publish calls, torn or failing saves, lost connections and restarts of the process:
  for every row and statement of the binlog before the position a new process resolves as its start, either the bus refused the event as invalid, or the
  stream holds a message that carries it (whole, reduced to its key, or stripped) under its subject and id. Runs in which the publisher passes
  over an event it cannot send even stripped are excluded.
\<close>

theorem resumed_changes_stored:
  assumes "binlog_ok B" "names_ok B" "B \<noteq> []" "hd B = Boundary p0" "path \<noteq> []" "FileOffsetStore_Load True path fs0 = Inr (Some p0)"
    "script_ok rs" "distinct obs" "my_observer \<in> set obs"
    "cdc_reach (my_source B path) my_observer
       (cdc_init (my_PublishedObserver (my_NewListener path service), fs0, mysys_init p0) subjectPrefix obs rs) C"
    "c_src C = (l, fs, env)" "resolveStartPosition True master io (my_NewListener path service') fs = (Inr p, l', fs')"
    "i < length B" "B ! i = Boundary p" "j < i" "B ! j = Change"
  shows "j \<in> my_refused env \<or>
    (\<exists>e nuid. (j, e) \<in> set (c_history C) \<and> set (p_stored (c_pub C)) \<inter> carries nuid subjectPrefix e \<noteq> {})"
proof -
  let ?l = "my_PublishedObserver (my_NewListener path service)"
  have start: "h_out (ml_handler ?l) = []" by (simp add: my_PublishedObserver_def my_NewListener_def)
  then have "my_valid B path (?l, fs0, mysys_init p0)"
    using assms(1,2,5) my_linked_init [OF assms(3-6)] by (simp add: my_valid_def mysys_init_def)
  from my_path.stored_in_stream [OF assms(10) this _ _ _ assms(7-9)] start
  have v: "my_valid B path (l, fs, env)" "\<forall>x \<in> my_delivered env. in_stream subjectPrefix C x"
    by (simp_all add: assms(11) mysys_init_def)
  then have s: "FileOffsetStore_Load True path fs = Inr (Some (saved env))" and "reached B (saved env) (my_settled env)"
    by (simp_all add: my_valid_def my_linked_def my_inv_def my_settled_def)
  moreover have "p = saved env" using assms(5,12) s by (simp add: resolveStartPosition_def getStartPosition_def my_NewListener_def)
  ultimately have "j \<in> my_settled env" using reached_unique [OF assms(1) _ assms(13-16)] by blast
  then show ?thesis using v(2) by (auto simp: my_settled_def in_stream_def)
qed


text \<open>A run of the system: the row of \<open>demo_listener_run\<close>, published before the offset is saved.\<close>

abbreviation my_demo_source :: "(my_lsys, nat) source" where
  "my_demo_source \<equiv> my_source demo_binlog ''o''"

definition my_demo_start :: "(my_lsys, nat) cdcsys" where
  "my_demo_start = cdc_init (demo_listener, demo_files, mysys_init (demo_position 4)) ''cdc'' [my_observer] [ack_round]"

definition unpublished :: "my_lsys \<Rightarrow> (my_lsys, nat) cdcsys \<Rightarrow> bool" where
  "unpublished S C \<longleftrightarrow> c_src C = S \<and> c_queue C = h_out (ml_handler (fst S)) \<and> c_rounds C = [ack_round] \<and> p_observers (c_pub C) = [my_observer]"

lemma binlog_follows:
  assumes "binlog_step B path S S'" "unpublished S C"
  shows "\<exists>C'. cdc_step (my_source B path) my_observer C C' \<and> unpublished S' C'"
proof -
  obtain l fs env l' fs' env' where S: "S = (l, fs, env)" "S' = (l', fs', env')" by (metis prod.exhaust)
  obtain new xs where n: "h_out (ml_handler l') = h_out (ml_handler l) @ new" "my_log env' = my_log env @ xs"
    using binlog_step_gives(1) [OF assms(1) [unfolded S]] by (auto simp: gives_def)
  show ?thesis
    using cdc_step.listening [of "my_source B path" C S' new xs my_observer] assms n
    by (intro exI [of _ "C\<lparr>c_src := S', c_queue := c_queue C @ new, c_history := c_history C @ zip xs (filter ownEvent new)\<rparr>"])
      (auto simp: S unpublished_def)
qed

lemma my_demo_out: "\<exists>q. h_out (ml_handler (my_demo_listener 3)) = demo_row_event # q"
proof -
  have "h_out (ml_handler (my_demo_listener 1)) = []" by (simp add: demo_listener_defs)
  then have "h_out (ml_handler (my_demo_listener 2)) = [demo_row_event]"
    using demo_row_accepted by (simp add: demo_row_handled handler_emit_def demo_service Let_def del: One_nat_def)
  then show ?thesis by (simp add: numeral_eq_Suc on_handler_def OnXID_def committed_def Let_def)
qed

lemma my_demo_acknowledge:
  "my_acknowledge demo_row_event (my_demo_listener 3, demo_files, my_demo_env 3) = (my_demo_listener 4, demo_files, my_demo_env 4)"
  using demo_row_accepted(2) demo_unacked
  by (simp add: my_acknowledge_def my_demo_env_def mysys_init_def) (simp add: numeral_eq_Suc)

lemma my_demo_published:
  assumes "unpublished (my_demo_listener 3, demo_files, my_demo_env 3) C"
  shows "\<exists>C'. cdc_step my_demo_source my_observer C C' \<and> c_src C' = (my_demo_listener 4, demo_files, my_demo_env 4)"
proof -
  obtain q where C: "c_src C = (my_demo_listener 3, demo_files, my_demo_env 3)" "c_queue C = demo_row_event # q"
      "c_rounds C = [ack_round]" "p_observers (c_pub C) = [my_observer]"
    using assms my_demo_out by (auto simp: unpublished_def)
  have "shouldPublish (ev_Type demo_row_event)" by (simp add: demo_row_event_def NewEvent_def shouldPublish_def IsPublishable_def)
  then obtain r where "deliver [] demo_row_event [ack_round] (c_pub C) = (Some True, [], notify demo_row_event r)" and
      f: "p_notified r = p_notified (c_pub C)" "p_observers r = p_observers (c_pub C)" "p_gaveUp r = p_gaveUp (c_pub C)"
    by (simp add: deliver_def publish_def send_def ack_round_def attempted_def too_large_def isTooLarge_def Let_def)
  moreover have "p_gaveUp (notify demo_row_event r) = p_gaveUp (c_pub C)" using f(3) by (simp add: notify_def)
  ultimately have "\<exists>C'. cdc_step my_demo_source my_observer C C' \<and>
      c_src C' = observer_calls my_acknowledge my_observer (c_pub C) (notify demo_row_event r) (c_src C)"
    using cdc_step.publishing [of C demo_row_event q "[]" "[]" "notify demo_row_event r" my_demo_source my_observer] C(2,3) by fastforce
  moreover have "observer_calls my_acknowledge my_observer (c_pub C) (notify demo_row_event r) (c_src C) = (my_demo_listener 4, demo_files, my_demo_env 4)"
    using observer_calls_notify [OF f(1,2), of my_observer my_acknowledge] C(1,4) my_demo_acknowledge by simp
  ultimately show ?thesis by simp
qed

lemma my_demo_run:
  "\<exists>C l. cdc_reach my_demo_source my_observer my_demo_start C \<and> c_src C = (l, demo_saved_files, my_demo_env 5)"
proof -
  let ?step = "cdc_step my_demo_source my_observer"
  have "mysys_init (demo_position 4) = my_demo_env 0" by (simp add: my_demo_env_def mysys_init_def)
  then have "unpublished (demo_listener, demo_files, my_demo_env 0) my_demo_start"
    by (simp add: unpublished_def my_demo_start_def cdc_init_def demo_listener_defs)
  from binlog_follows [OF demo_binlog_steps(1) this]
  obtain A1 where 1: "?step my_demo_start A1" "unpublished (my_demo_listener 1, demo_files, my_demo_env 1) A1" by blast
  from binlog_follows [OF demo_binlog_steps(2) 1(2)]
  obtain A2 where 2: "?step A1 A2" "unpublished (my_demo_listener 2, demo_files, my_demo_env 2) A2" by blast
  from binlog_follows [OF demo_binlog_steps(3) 2(2)]
  obtain A3 where 3: "?step A2 A3" "unpublished (my_demo_listener 3, demo_files, my_demo_env 3) A3" by blast
  obtain A4 where 4: "?step A3 A4" "c_src A4 = (my_demo_listener 4, demo_files, my_demo_env 4)" using my_demo_published [OF 3(2)] by blast
  obtain l where s: "binlog_step demo_binlog ''o'' (c_src A4) (l, demo_saved_files, my_demo_env 5)" using demo_binlog_steps(4) 4(2) by auto
  obtain new xs where "h_out (ml_handler l) = h_out (ml_handler (my_demo_listener 4)) @ new" "my_log (my_demo_env 5) = my_log (my_demo_env 4) @ xs"
    using binlog_step_gives(1) [OF s [unfolded 4(2)]] by (auto simp: gives_def)
  then have "\<exists>C. ?step A4 C \<and> c_src C = (l, demo_saved_files, my_demo_env 5)"
    using cdc_step.listening [of my_demo_source A4 "(l, demo_saved_files, my_demo_env 5)" new xs my_observer] s by (fastforce simp: 4(2))
  then obtain C where "?step A4 C" "c_src C = (l, demo_saved_files, my_demo_env 5)" by blast
  moreover have "cdc_reach my_demo_source my_observer my_demo_start A4"
    using 1(1) 2(1) 3(1) 4(1) by (meson converse_rtranclp_into_rtranclp r_into_rtranclp)
  ultimately show ?thesis by (meson rtranclp.rtrancl_into_rtrancl)
qed

theorem resumed_changes_stored_witness:
  "\<exists>C l fs e nuid. cdc_reach my_demo_source my_observer my_demo_start C \<and>
     resolveStartPosition True None SaveDone (my_NewListener ''o'' NewService) (fst (snd (c_src C))) = (Inr (demo_position 200), l, fs) \<and>
     (1, e) \<in> set (c_history C) \<and> set (p_stored (c_pub C)) \<inter> carries nuid ''cdc'' e \<noteq> {}"
proof -
  obtain C l1 where run: "cdc_reach my_demo_source my_observer my_demo_start C" and C: "c_src C = (l1, demo_saved_files, my_demo_env 5)"
    using my_demo_run by blast
  obtain l fs where r: "resolveStartPosition True None SaveDone (my_NewListener ''o'' NewService) demo_saved_files = (Inr (demo_position 200), l, fs)"
    by (simp add: resolveStartPosition_def getStartPosition_def my_NewListener_def demo_loads)
  have "names_ok demo_binlog"
    by (auto simp: names_ok_def demo_binlog_def demo_position_def decode_rune.simps(2) rune_error_def)
  moreover have "script_ok [ack_round]" by (simp add: ack_round_def round_done_def dead_def)
  ultimately have "\<exists>e nuid. (1, e) \<in> set (c_history C) \<and> set (p_stored (c_pub C)) \<inter> carries nuid ''cdc'' e \<noteq> {}"
    using resumed_changes_stored [OF demo_binlog_ok _ _ _ _ demo_loads(1) _ _ _ run [unfolded my_demo_start_def demo_listener_def] C r, of 2 1]
    by (simp add: demo_binlog_def my_demo_env_def mysys_init_def)
  then show ?thesis using run r C by (metis fst_conv snd_conv)
qed

end
