(* ===== verification/Pg_Slots.thy ===== *)
theory Pg_Slots
  imports Pg_Listener
begin

text \<open>
  Start-up and slot maintenance of the PostgreSQL listener: \<^verbatim>\<open>setup.go\<close>, \<^verbatim>\<open>dbwait.go\<close>, \<^verbatim>\<open>slotregistry.go\<close>, \<^verbatim>\<open>slotcleanup.go\<close>,
  \<^verbatim>\<open>slotstats.go\<close> and the parts of \<^verbatim>\<open>listener.go\<close> that call them (all in \<^verbatim>\<open>internal/postgres\<close>). What the server
  answers is an argument; the owner table is a map from slot names to rows, changed as the SQL statements of the
  source say. Times are nanoseconds.
\<close>

subsection \<open>Identifiers and slots\<close>

definition is_letter :: "char \<Rightarrow> bool" where
  "is_letter c \<longleftrightarrow> (65 \<le> byte c \<and> byte c \<le> 90) \<or> (97 \<le> byte c \<and> byte c \<le> 122) \<or> c = CHR ''_''"

definition validateIdentifier :: "gostring \<Rightarrow> bool" where
  "validateIdentifier name = (case name of
      [] \<Rightarrow> False
    | c # cs \<Rightarrow> is_letter c \<and> list_all (\<lambda>c. is_letter c \<or> is_digit c) cs)"

text \<open>What a statement answered: an error, or whether the object exists.\<close>

datatype setup_error = InvalidIdentifier | QueryError | ExecError

text \<open>
  \<^verbatim>\<open>createPublicationIfNotExists\<close> and \<^verbatim>\<open>createReplicationSlotIfNotExists\<close> have one shape: validate, look, create when missing. The
  flag of the result says whether the create statement ran with success.
\<close>

definition create_if_missing :: "gostring \<Rightarrow> bool option \<Rightarrow> bool \<Rightarrow> setup_error option \<times> bool" where
  "create_if_missing name exists exec_ok =
     (if \<not> validateIdentifier name then (Some InvalidIdentifier, False)
      else case exists of
             None \<Rightarrow> (Some QueryError, False)
           | Some True \<Rightarrow> (None, False)
           | Some False \<Rightarrow> if exec_ok then (None, True) else (Some ExecError, False))"

definition createPublicationIfNotExists :: "gostring \<Rightarrow> bool option \<Rightarrow> bool \<Rightarrow> setup_error option \<times> bool" where
  "createPublicationIfNotExists pubName exists exec_ok = create_if_missing pubName exists exec_ok"

definition createReplicationSlotIfNotExists :: "gostring \<Rightarrow> bool option \<Rightarrow> bool \<Rightarrow> setup_error option \<times> bool" where
  "createReplicationSlotIfNotExists slotName exists exec_ok = create_if_missing slotName exists exec_ok"

subsection \<open>Waiting for the database\<close>

record startupBackoff =
  sb_next :: int
  sb_max :: int

definition startupBackoff_step :: "startupBackoff \<Rightarrow> int \<times> startupBackoff" where
  "startupBackoff_step b = (sb_next b, b\<lparr>sb_next := min (sb_next b * 2) (sb_max b)\<rparr>)"

datatype connect_error = CtxCanceled | CtxDeadline | PgError gostring | OtherConnect

definition startupSQLStates :: "gostring set" where
  "startupSQLStates = {''57P01'', ''57P02'', ''57P03'', ''53300''}"

definition databaseNotReady :: "connect_error \<Rightarrow> bool" where
  "databaseNotReady err = (case err of
      CtxCanceled \<Rightarrow> False | CtxDeadline \<Rightarrow> False | PgError code \<Rightarrow> code \<in> startupSQLStates | OtherConnect \<Rightarrow> True)"

text \<open>One attempt: the dial's result, whether the context has ended after it, and whether it ends during the pause.\<close>

record dial =
  di_result :: "connect_error option"
  di_done :: bool
  di_done_asleep :: bool

datatype wait_db = DbBlocked | DbConnected | DbContext | DbRejected connect_error

fun waitForDatabase :: "dial list \<Rightarrow> startupBackoff \<Rightarrow> wait_db \<times> int list" where
  "waitForDatabase [] b = (DbBlocked, [])"
| "waitForDatabase (d # ds) b =
     (case di_result d of
        None \<Rightarrow> (DbConnected, [])
      | Some err \<Rightarrow>
          if di_done d then (DbContext, [])
          else if \<not> databaseNotReady err then (DbRejected err, [])
          else let (delay, b) = startupBackoff_step b in
               if di_done_asleep d then (DbContext, [delay])
               else let (r, delays) = waitForDatabase ds b in (r, delay # delays))"

subsection \<open>The owner registry\<close>

record owner_row =
  ow_owner :: gostring
  ow_heartbeat :: int
  ow_released :: "int option"

type_synonym owners = "gostring \<Rightarrow> owner_row option"

record slotRegistry =
  sr_slot :: gostring
  sr_owner :: gostring

definition register :: "int \<Rightarrow> slotRegistry \<Rightarrow> owners \<Rightarrow> owners" where
  "register now r t = t(sr_slot r \<mapsto> \<lparr>ow_owner = sr_owner r, ow_heartbeat = now, ow_released = None\<rparr>)"

definition update_own :: "slotRegistry \<Rightarrow> (owner_row \<Rightarrow> owner_row) \<Rightarrow> owners \<Rightarrow> owners" where
  "update_own r f t = (case t (sr_slot r) of
      None \<Rightarrow> t
    | Some row \<Rightarrow> if ow_owner row = sr_owner r then t(sr_slot r \<mapsto> f row) else t)"

definition heartbeat :: "int \<Rightarrow> slotRegistry \<Rightarrow> owners \<Rightarrow> owners" where
  "heartbeat now r = update_own r (\<lambda>row. row\<lparr>ow_heartbeat := now\<rparr>)"

definition release :: "int \<Rightarrow> slotRegistry \<Rightarrow> owners \<Rightarrow> owners" where
  "release now r = update_own r (\<lambda>row. row\<lparr>ow_released := Some now\<rparr>)"

text \<open>The ticks until the context ends, each with its time and whether the statement succeeded; a failure is only logged.\<close>

definition runHeartbeat :: "(int \<times> bool) list \<Rightarrow> slotRegistry \<Rightarrow> owners \<Rightarrow> owners" where
  "runHeartbeat ticks r t = fold (\<lambda>(now, exec_ok) t. if exec_ok then heartbeat now r t else t) ticks t"

subsection \<open>Slot statistics\<close>

record SlotStats =
  ss_ConfirmedFlushLSN :: u64
  ss_RestartLSN :: u64
  ss_WALLSN :: u64
  ss_Active :: bool
  ss_WALStatus :: gostring
  ss_SafeWALBytes :: int

definition RetainedWALBytes :: "SlotStats \<Rightarrow> u64" where
  "RetainedWALBytes s =
     (if ss_RestartLSN s = 0 \<or> ss_WALLSN s < ss_RestartLSN s then 0 else ss_WALLSN s - ss_RestartLSN s)"

text \<open>\<open>parse\<close> is \<^verbatim>\<open>pglogrepl.ParseLSN\<close>.\<close>

definition parseLSNText :: "(gostring \<Rightarrow> u64 option) \<Rightarrow> gostring \<Rightarrow> u64 option" where
  "parseLSNText parse text = (if text = [] then Some 0 else parse text)"

datatype lookup_error = SlotMissing | LookupError

record slot_row =
  row_confirmed :: gostring
  row_restart :: gostring
  row_active :: bool
  row_wal :: gostring
  row_status :: gostring
  row_safe :: int

text \<open>\<open>answer\<close> is what the query returned: an error, no row, or a row.\<close>

definition querySlotStats :: "(gostring \<Rightarrow> u64 option) \<Rightarrow> slot_row option option \<Rightarrow> lookup_error + SlotStats" where
  "querySlotStats parse answer =
     (case answer of
        None \<Rightarrow> Inl LookupError
      | Some None \<Rightarrow> Inl SlotMissing
      | Some (Some r) \<Rightarrow>
          (case (parseLSNText parse (row_confirmed r), parseLSNText parse (row_restart r), parseLSNText parse (row_wal r)) of
             (Some c, Some s, Some w) \<Rightarrow>
               Inr \<lparr>ss_ConfirmedFlushLSN = c, ss_RestartLSN = s, ss_WALLSN = w, ss_Active = row_active r, ss_WALStatus = row_status r,
                    ss_SafeWALBytes = row_safe r\<rparr>
           | _ \<Rightarrow> Inl LookupError))"

definition walStatusLost :: gostring where
  "walStatusLost = ''lost''"

definition slotNeedsRecreating :: "lookup_error + SlotStats \<Rightarrow> bool option" where
  "slotNeedsRecreating lookup = (case lookup of
      Inl SlotMissing \<Rightarrow> Some True
    | Inl LookupError \<Rightarrow> None
    | Inr stats \<Rightarrow> Some (ss_WALStatus stats = walStatusLost))"

record slotSampler =
  sp_unusable :: bool
  sp_errors_logged :: nat

definition SlotUsable :: "slotSampler \<Rightarrow> bool" where
  "SlotUsable s = (\<not> sp_unusable s)"

definition setUsable :: "bool \<Rightarrow> slotSampler \<Rightarrow> slotSampler" where
  "setUsable usable s =
     s\<lparr>sp_unusable := \<not> usable, sp_errors_logged := sp_errors_logged s + (if \<not> sp_unusable s \<and> \<not> usable then 1 else 0)\<rparr>"

text \<open>The gauges of \<^verbatim>\<open>metrics.go\<close> a sample sets; a gauge is a number, exact here. The lag is in nanoseconds.\<close>

record slot_gauges =
  ga_confirmed :: int
  ga_restart :: int
  ga_retained :: int
  ga_status :: "gostring \<Rightarrow> int"
  ga_safe :: int
  ga_lag :: int

definition slotWALStatuses :: "gostring list" where
  "slotWALStatuses = [''reserved'', ''extended'', ''unreserved'', ''lost'']"

definition SetSlotStats :: "u64 \<Rightarrow> u64 \<Rightarrow> u64 \<Rightarrow> slot_gauges \<Rightarrow> slot_gauges" where
  "SetSlotStats c r w g = g\<lparr>ga_confirmed := uint c, ga_restart := uint r, ga_retained := uint w\<rparr>"

definition SetSlotWALStatus :: "gostring \<Rightarrow> int \<Rightarrow> slot_gauges \<Rightarrow> slot_gauges" where
  "SetSlotWALStatus status safe g =
     (fold (\<lambda>candidate g. g\<lparr>ga_status := (ga_status g)(candidate := (if candidate = status then 1 else 0))\<rparr>) slotWALStatuses g)
       \<lparr>ga_safe := safe\<rparr>"

definition sampleOnce :: "int \<Rightarrow> lagTracker \<Rightarrow> lookup_error + SlotStats \<Rightarrow> slotSampler \<times> slot_gauges \<Rightarrow> lookup_error option \<times> slotSampler \<times> slot_gauges" where
  "sampleOnce now lag lookup x =
     (let (s, g) = x;
          g = g\<lparr>ga_lag := Lag now lag\<rparr>;
          s = (case slotNeedsRecreating lookup of None \<Rightarrow> s | Some needs \<Rightarrow> setUsable (\<not> needs) s)
      in case lookup of
           Inl e \<Rightarrow> (Some e, s, g)
         | Inr stats \<Rightarrow>
             (None, s, SetSlotWALStatus (ss_WALStatus stats) (ss_SafeWALBytes stats)
                (SetSlotStats (ss_ConfirmedFlushLSN stats) (ss_RestartLSN stats) (RetainedWALBytes stats) g)))"

text \<open>The samples of the sampler's goroutine: time, lag tracker and the answer to the lookup of each.\<close>

definition sampler_run :: "(int \<times> lagTracker \<times> (lookup_error + SlotStats)) list \<Rightarrow> slotSampler \<times> slot_gauges \<Rightarrow> slotSampler \<times> slot_gauges" where
  "sampler_run samples s = fold (\<lambda>(now, lag, looked) s. snd (sampleOnce now lag looked s)) samples s"

subsection \<open>Cleanup of orphaned slots\<close>

record slotCandidate =
  ca_Name :: gostring
  ca_Active :: bool
  ca_Retained :: u64
  ca_Owner :: "owner_row option"

text \<open>A row of \<^verbatim>\<open>slotCandidatesSQL\<close>; the owner columns come from the left join.\<close>

record candidate_row =
  cr_name :: gostring
  cr_active :: bool
  cr_restart :: gostring
  cr_wal :: gostring
  cr_owner :: "gostring option"
  cr_heartbeat :: "int option"
  cr_released :: "int option"

definition scanSlotCandidate :: "(gostring \<Rightarrow> u64 option) \<Rightarrow> candidate_row \<Rightarrow> slotCandidate option" where
  "scanSlotCandidate parse r =
     (case (parseLSNText parse (cr_restart r), parseLSNText parse (cr_wal r)) of
        (Some restart, Some wal) \<Rightarrow>
          Some \<lparr>ca_Name = cr_name r, ca_Active = cr_active r,
            ca_Retained = RetainedWALBytes \<lparr>ss_ConfirmedFlushLSN = 0, ss_RestartLSN = restart, ss_WALLSN = wal, ss_Active = False,
              ss_WALStatus = [], ss_SafeWALBytes = 0\<rparr>,
            ca_Owner = (case (cr_owner r, cr_heartbeat r) of
                (Some owner, Some beat) \<Rightarrow> Some \<lparr>ow_owner = owner, ow_heartbeat = beat, ow_released = cr_released r\<rparr>
              | _ \<Rightarrow> None)\<rparr>
      | _ \<Rightarrow> None)"

fun fetchSlotCandidates :: "(gostring \<Rightarrow> u64 option) \<Rightarrow> candidate_row list \<Rightarrow> slotCandidate list option" where
  "fetchSlotCandidates parse [] = Some []"
| "fetchSlotCandidates parse (r # rs) =
     Option.bind (scanSlotCandidate parse r) (\<lambda>c. Option.bind (fetchSlotCandidates parse rs) (\<lambda>cs. Some (c # cs)))"

record orphanRules =
  or_ownSlot :: gostring
  or_pattern :: "gostring \<Rightarrow> bool"
  or_staleAfter :: int
  or_retainedThreshold :: u64

datatype orphanDecision = Keep (reason: gostring) | Drop (reason: gostring)

definition decide :: "int \<Rightarrow> orphanRules \<Rightarrow> slotCandidate \<Rightarrow> int \<Rightarrow> orphanDecision" where
  "decide now r c firstSeenInactive =
     (if ca_Name c = or_ownSlot r then Keep ''own slot''
      else if \<not> or_pattern r (ca_Name c) then Keep ''name does not match pattern''
      else if ca_Active c then Keep ''active''
      else if or_retainedThreshold r > 0 \<and> ca_Retained c \<le> or_retainedThreshold r then Keep ''retained wal below threshold''
      else if (case ca_Owner c of None \<Rightarrow> False | Some own \<Rightarrow> ow_released own \<noteq> None) then Drop ''released by owner''
      else let lastAlive = (case ca_Owner c of None \<Rightarrow> firstSeenInactive | Some own \<Rightarrow> ow_heartbeat own) in
           if now - lastAlive < or_staleAfter r then Keep ''recent heartbeat'' else Drop ''heartbeat stale'')"

type_synonym inactive_marks = "gostring \<Rightarrow> int option"

text \<open>The zero time of Go; it is returned for candidates whose decision does not use it.\<close>

definition zero_time :: int where
  "zero_time = -62135596800000000000"

definition observeInactive :: "int \<Rightarrow> slotCandidate \<Rightarrow> inactive_marks \<Rightarrow> int \<times> inactive_marks" where
  "observeInactive now c m =
     (if ca_Active c \<or> ca_Owner c \<noteq> None then (zero_time, m(ca_Name c := None))
      else case m (ca_Name c) of
             Some t \<Rightarrow> (t, m)
           | None \<Rightarrow> (now, m(ca_Name c \<mapsto> now)))"

record slotCleaner =
  sc_rules :: orphanRules
  sc_dryRun :: bool
  sc_marks :: inactive_marks

text \<open>\<open>drop_ok\<close> says for which names the drop statement succeeds; the result lists the slots that were dropped.\<close>

definition dropSlot :: "(gostring \<Rightarrow> bool) \<Rightarrow> slotCandidate \<Rightarrow> slotCleaner \<Rightarrow> bool \<times> gostring list \<times> slotCleaner" where
  "dropSlot drop_ok c s =
     (if sc_dryRun s then (True, [], s)
      else if \<not> drop_ok (ca_Name c) then (False, [], s)
      else (True, [ca_Name c], s\<lparr>sc_marks := (sc_marks s)(ca_Name c := None)\<rparr>))"

fun cleanup_loop :: "int \<Rightarrow> (gostring \<Rightarrow> bool) \<Rightarrow> slotCandidate list \<Rightarrow> slotCleaner \<Rightarrow> bool \<times> gostring list \<times> slotCleaner" where
  "cleanup_loop now drop_ok [] s = (True, [], s)"
| "cleanup_loop now drop_ok (c # cs) s =
     (let (seen, m) = observeInactive now c (sc_marks s); s = s\<lparr>sc_marks := m\<rparr>;
          (ok, dropped, s) = (case decide now (sc_rules s) c seen of
              Keep _ \<Rightarrow> (True, [], s)
            | Drop _ \<Rightarrow> dropSlot drop_ok c s);
          (ok', dropped', s) = cleanup_loop now drop_ok cs s
      in (ok \<and> ok', dropped @ dropped', s))"

definition cleanupOnce :: "int \<Rightarrow> (gostring \<Rightarrow> bool) \<Rightarrow> slotCandidate list option \<Rightarrow> slotCleaner \<Rightarrow> bool \<times> gostring list \<times> slotCleaner" where
  "cleanupOnce now drop_ok fetched s = (case fetched of None \<Rightarrow> (False, [], s) | Some cs \<Rightarrow> cleanup_loop now drop_ok cs s)"

text \<open>
  The passes of the cleaner's goroutine, the first at once and one per tick, with what was fetched and which drops succeed; an error is only logged.
  The result lists the dropped slots.
\<close>

type_synonym cleanup_pass = "int \<times> (gostring \<Rightarrow> bool) \<times> slotCandidate list option"

fun cleaner_run :: "cleanup_pass list \<Rightarrow> slotCleaner \<Rightarrow> gostring list \<times> slotCleaner" where
  "cleaner_run [] s = ([], s)"
| "cleaner_run ((now, drop_ok, fetched) # ps) s =
     (let (ok, dropped, s) = cleanupOnce now drop_ok fetched s; (dropped', s) = cleaner_run ps s in (dropped @ dropped', s))"

text \<open>\<open>compiled\<close> is what \<^verbatim>\<open>regexp.Compile\<close> returned for the pattern.\<close>

definition compileSlotPattern :: "gostring \<Rightarrow> (gostring \<Rightarrow> bool) option \<Rightarrow> (gostring \<Rightarrow> bool) option" where
  "compileSlotPattern pattern compiled = (if pattern = [] then None else compiled)"

record cleanup_config =
  cc_Enabled :: bool
  cc_SlotName :: gostring
  cc_OwnerID :: gostring
  cc_SlotPattern :: gostring
  cc_StaleAfterMinutes :: int
  cc_RetainedThreshold :: int
  cc_DryRun :: bool

definition pg_newSlotCleaner :: "cleanup_config \<Rightarrow> (gostring \<Rightarrow> bool) option \<Rightarrow> slotCleaner option" where
  "pg_newSlotCleaner cfg compiled =
     map_option (\<lambda>p. \<lparr>sc_rules = \<lparr>or_ownSlot = cc_SlotName cfg, or_pattern = p,
          or_staleAfter = minutesOrDefault (cc_StaleAfterMinutes cfg) (seconds (30 * 60)),
          or_retainedThreshold = word_of_int (max (cc_RetainedThreshold cfg) 0)\<rparr>,
        sc_dryRun = cc_DryRun cfg, sc_marks = Map.empty\<rparr>)
       (compileSlotPattern (cc_SlotPattern cfg) compiled)"

definition setupSlotOwnership ::
    "int \<Rightarrow> cleanup_config \<Rightarrow> (gostring \<Rightarrow> bool) option \<Rightarrow> bool \<Rightarrow> bool \<Rightarrow> owners \<Rightarrow> (slotRegistry option \<times> slotCleaner option) \<times> owners" where
  "setupSlotOwnership now cfg compiled table_ok register_ok t =
     (if \<not> cc_Enabled cfg \<or> \<not> table_ok \<or> \<not> register_ok then ((None, None), t)
      else let r = \<lparr>sr_slot = cc_SlotName cfg, sr_owner = cc_OwnerID cfg\<rparr>
           in ((Some r, pg_newSlotCleaner cfg compiled), register now r t))"

subsection \<open>A slot that can no longer stream\<close>

datatype slot_action = DropOwnSlot | CreateOwnSlot

datatype recreate_error = RecLookup lookup_error | RecDrop | RecCreate setup_error

text \<open>The outcomes of the drop statement, of the existence query and of the create statement are arguments.\<close>

definition recreateUnusableSlot ::
    "bool \<Rightarrow> gostring \<Rightarrow> lookup_error + SlotStats \<Rightarrow> bool \<Rightarrow> bool option \<Rightarrow> bool \<Rightarrow> recreate_error option \<times> slot_action list" where
  "recreateUnusableSlot createSlot slotName lookup drop_ok exists exec_ok =
     (if \<not> createSlot then (None, [])
      else case slotNeedsRecreating lookup of
             None \<Rightarrow> (Some (RecLookup LookupError), [])
           | Some False \<Rightarrow> (None, [])
           | Some True \<Rightarrow>
               if lookup \<noteq> Inl SlotMissing \<and> \<not> drop_ok then (Some RecDrop, [])
               else let acts = (if lookup \<noteq> Inl SlotMissing then [DropOwnSlot] else []);
                        (err, created) = createReplicationSlotIfNotExists slotName exists exec_ok
                    in (map_option RecCreate err, acts @ (if created then [CreateOwnSlot] else [])))"

text \<open>\<^verbatim>\<open>startStreaming\<close> always reports the failed start; recreating only prepares the next attempt.\<close>

definition startStreaming ::
    "bool \<Rightarrow> bool \<Rightarrow> gostring \<Rightarrow> lookup_error + SlotStats \<Rightarrow> bool \<Rightarrow> bool option \<Rightarrow> bool \<Rightarrow> bool \<times> slot_action list" where
  "startStreaming start_ok createSlot slotName lookup drop_ok exists exec_ok =
     (if start_ok then (True, []) else (False, snd (recreateUnusableSlot createSlot slotName lookup drop_ok exists exec_ok)))"

subsection \<open>Start and stop\<close>

text \<open>The steps of \<^verbatim>\<open>Start\<close> that change something, in order; each outcome is an argument.\<close>

datatype start_action = ActPublication | ActRegister | ActSlot | ActDDL | ActSnapshot | ActStream | ActHeartbeat | ActCleaner

record pg_start_env =
  ps_running :: bool
  ps_dials :: "dial list"
  ps_createPublication :: bool
  ps_publication :: gostring
  ps_pub_exists :: "bool option"
  ps_pub_ok :: bool
  ps_cleanup :: cleanup_config
  ps_pattern :: "(gostring \<Rightarrow> bool) option"
  ps_table_ok :: bool
  ps_register_ok :: bool
  ps_createSlot :: bool
  ps_slot_exists :: "bool option"
  ps_slot_ok :: bool
  ps_captureDDL :: bool
  ps_ddl_ok :: bool
  ps_snapshot_ok :: bool
  ps_pool_ok :: bool

datatype pg_start_error = PgAlreadyRunning | PgConnect | PgPublication | PgSlot | PgTriggers | PgSnapshot | PgPool

definition pg_Start :: "pg_start_env \<Rightarrow> pg_start_error option \<times> start_action list" where
  "pg_Start e =
     (if ps_running e then (Some PgAlreadyRunning, [])
      else if fst (waitForDatabase (ps_dials e) \<lparr>sb_next = seconds 1, sb_max = maxReconnectDelay\<rparr>) \<noteq> DbConnected
      then (Some PgConnect, [])
      else
        let pub = (if ps_createPublication e then createPublicationIfNotExists (ps_publication e) (ps_pub_exists e) (ps_pub_ok e) else (None, False));
            acts = (if snd pub then [ActPublication] else [])
        in if fst pub \<noteq> None then (Some PgPublication, acts)
        else
          let own = fst (setupSlotOwnership 0 (ps_cleanup e) (ps_pattern e) (ps_table_ok e) (ps_register_ok e) Map.empty);
              acts = acts @ (if fst own \<noteq> None then [ActRegister] else []);
              slot = (if ps_createSlot e then createReplicationSlotIfNotExists (cc_SlotName (ps_cleanup e)) (ps_slot_exists e) (ps_slot_ok e)
                      else (None, False));
              acts = acts @ (if snd slot then [ActSlot] else [])
          in if fst slot \<noteq> None then (Some PgSlot, acts)
          else if ps_captureDDL e \<and> \<not> ps_ddl_ok e then (Some PgTriggers, acts)
          else
            let acts = acts @ (if ps_captureDDL e then [ActDDL] else [])
            in if \<not> ps_snapshot_ok e then (Some PgSnapshot, acts)
            else if \<not> ps_pool_ok e then (Some PgPool, acts @ [ActSnapshot])
            else (None, acts @ [ActSnapshot, ActStream] @ (if fst own \<noteq> None then [ActHeartbeat] else []) @
                        (if fst own \<noteq> None \<and> snd own \<noteq> None then [ActCleaner] else [])))"

definition releaseSlotOwnership :: "int \<Rightarrow> bool \<Rightarrow> slotRegistry option \<Rightarrow> owners \<Rightarrow> owners" where
  "releaseSlotOwnership now exec_ok r t = (case r of None \<Rightarrow> t | Some r \<Rightarrow> if exec_ok then release now r t else t)"

section \<open>Properties\<close>

subsection \<open>Cleanup\<close>

type_synonym pass = "int \<times> (gostring \<Rightarrow> bool) \<times> slotCandidate list"

definition seen_alive :: "gostring \<Rightarrow> slotCandidate list \<Rightarrow> bool" where
  "seen_alive n cs \<longleftrightarrow> (\<exists>c \<in> set cs. ca_Name c = n \<and> (ca_Active c \<or> ca_Owner c \<noteq> None))"

definition seen_inactive :: "gostring \<Rightarrow> slotCandidate list \<Rightarrow> bool" where
  "seen_inactive n cs \<longleftrightarrow> (\<exists>c \<in> set cs. ca_Name c = n \<and> \<not> ca_Active c \<and> ca_Owner c = None)"

definition run_passes :: "pass list \<Rightarrow> slotCleaner \<Rightarrow> slotCleaner" where
  "run_passes ps s = fold (\<lambda>(now, ok, cs) s. snd (snd (cleanup_loop now ok cs s))) ps s"

lemma dropSlot_frame [simp]:
  "sc_rules (snd (snd (dropSlot ok c s))) = sc_rules s" "sc_dryRun (snd (snd (dropSlot ok c s))) = sc_dryRun s"
  by (simp_all add: dropSlot_def)

text \<open>One candidate: what is dropped and what is remembered.\<close>

definition cleanup_step :: "int \<Rightarrow> (gostring \<Rightarrow> bool) \<Rightarrow> slotCandidate \<Rightarrow> slotCleaner \<Rightarrow> bool \<times> gostring list \<times> slotCleaner" where
  "cleanup_step now drop_ok c s =
     (let (seen, m) = observeInactive now c (sc_marks s); s = s\<lparr>sc_marks := m\<rparr>
      in case decide now (sc_rules s) c seen of Keep _ \<Rightarrow> (True, [], s) | Drop _ \<Rightarrow> dropSlot drop_ok c s)"

lemma cleanup_loop_step:
  "cleanup_loop now ok (c # cs) s =
     (let (a, d, s) = cleanup_step now ok c s; (b, d', s) = cleanup_loop now ok cs s in (a \<and> b, d @ d', s))"
  by (simp add: cleanup_step_def Let_def case_prod_unfold)

lemma cleanup_step_frame [simp]:
  "sc_rules (snd (snd (cleanup_step now ok c s))) = sc_rules s" "sc_dryRun (snd (snd (cleanup_step now ok c s))) = sc_dryRun s"
  by (simp_all add: cleanup_step_def Let_def case_prod_unfold split: orphanDecision.split)

lemma cleanup_step_other: "n \<noteq> ca_Name c \<Longrightarrow> sc_marks (snd (snd (cleanup_step now ok c s))) n = sc_marks s n"
  by (auto simp: cleanup_step_def observeInactive_def dropSlot_def Let_def split: orphanDecision.split option.split if_splits prod.splits)

lemma cleanup_step_mark:
  assumes "sc_marks (snd (snd (cleanup_step now ok c s))) (ca_Name c) = Some t"
  shows "\<not> ca_Active c \<and> ca_Owner c = None \<and> (sc_marks s (ca_Name c) = Some t \<or> sc_marks s (ca_Name c) = None \<and> t = now)"
  using assms
  by (auto simp: cleanup_step_def observeInactive_def dropSlot_def Let_def split: orphanDecision.splits option.splits if_splits)

text \<open>The conditions under which a slot may go; \<open>since\<close> is when it was first seen unused, for a slot without an owner row.\<close>

definition may_drop :: "int \<Rightarrow> slotCleaner \<Rightarrow> slotCandidate \<Rightarrow> int \<Rightarrow> bool" where
  "may_drop now s c since \<longleftrightarrow>
     \<not> sc_dryRun s \<and> ca_Name c \<noteq> or_ownSlot (sc_rules s) \<and> or_pattern (sc_rules s) (ca_Name c) \<and> \<not> ca_Active c \<and>
     (or_retainedThreshold (sc_rules s) = 0 \<or> or_retainedThreshold (sc_rules s) < ca_Retained c) \<and>
     (case ca_Owner c of
        Some own \<Rightarrow> ow_released own \<noteq> None \<or> or_staleAfter (sc_rules s) \<le> now - ow_heartbeat own
      | None \<Rightarrow> or_staleAfter (sc_rules s) \<le> now - since)"

lemma decide_Drop:
  assumes "decide now r c since = Drop x"
  shows "ca_Name c \<noteq> or_ownSlot r \<and> or_pattern r (ca_Name c) \<and> \<not> ca_Active c \<and>
    (or_retainedThreshold r = 0 \<or> or_retainedThreshold r < ca_Retained c) \<and>
    (case ca_Owner c of Some own \<Rightarrow> ow_released own \<noteq> None \<or> or_staleAfter r \<le> now - ow_heartbeat own
      | None \<Rightarrow> or_staleAfter r \<le> now - since)"
proof (cases "ca_Owner c")
  case None
  then show ?thesis using assms by (auto simp: decide_def word_gt_0 not_le split: if_splits)
next
  case (Some own)
  then show ?thesis using assms by (auto simp: decide_def word_gt_0 not_le split: if_splits)
qed

lemma cleanup_step_dropped:
  assumes "n \<in> set (fst (snd (cleanup_step now ok c s)))"
  shows "n = ca_Name c \<and> (\<exists>since. may_drop now s c since \<and>
     (ca_Owner c = None \<longrightarrow> sc_marks s n = Some since \<or> sc_marks s n = None \<and> since = now))"
proof -
  obtain seen m where o: "observeInactive now c (sc_marks s) = (seen, m)" by (rule prod.exhaust)
  obtain x where "decide now (sc_rules s) c seen = Drop x" and *: "\<not> sc_dryRun s" "n = ca_Name c"
    using assms by (auto simp: cleanup_step_def o dropSlot_def Let_def split: orphanDecision.splits if_splits)
  note d = decide_Drop [OF this(1)]
  then have inactive: "\<not> ca_Active c" by simp
  note *
  moreover have "sc_marks s n = Some seen \<or> sc_marks s n = None \<and> seen = now" if "ca_Owner c = None"
    using o that inactive *(2) by (auto simp: observeInactive_def split: option.splits if_splits)
  ultimately show ?thesis using d by (auto simp: may_drop_def)
qed

lemma cleanup_loop_Cons:
  "fst (snd (cleanup_loop now ok (c # cs) s)) =
     fst (snd (cleanup_step now ok c s)) @ fst (snd (cleanup_loop now ok cs (snd (snd (cleanup_step now ok c s)))))"
  "snd (snd (cleanup_loop now ok (c # cs) s)) = snd (snd (cleanup_loop now ok cs (snd (snd (cleanup_step now ok c s)))))"
  by (simp_all only: cleanup_loop_step) (simp_all add: Let_def case_prod_unfold)

declare cleanup_loop.simps(2) [simp del]

lemma cleanup_loop_frame [simp]:
  "sc_rules (snd (snd (cleanup_loop now ok cs s))) = sc_rules s" "sc_dryRun (snd (snd (cleanup_loop now ok cs s))) = sc_dryRun s"
  by (induction cs arbitrary: s) (simp_all add: cleanup_loop_Cons)

lemma cleanup_loop_other:
  "n \<notin> ca_Name ` set cs \<Longrightarrow> sc_marks (snd (snd (cleanup_loop now ok cs s))) n = sc_marks s n"
  by (induction cs arbitrary: s) (simp_all add: cleanup_loop_Cons cleanup_step_other)

lemma cleanup_loop_mark:
  assumes "distinct (map ca_Name cs)" "sc_marks (snd (snd (cleanup_loop now ok cs s))) n = Some t"
  shows "\<not> seen_alive n cs \<and> (sc_marks s n = Some t \<or> t = now \<and> seen_inactive n cs)"
  using assms
proof (induction cs arbitrary: s)
  case (Cons c cs)
  let ?s = "snd (snd (cleanup_step now ok c s))"
  show ?case
  proof (cases "n = ca_Name c")
    case True
    then have "sc_marks ?s n = Some t" "n \<notin> ca_Name ` set cs"
      using Cons.prems cleanup_loop_other [of n cs now ok ?s] by (auto simp: cleanup_loop_Cons)
    then show ?thesis
      using cleanup_step_mark [of now ok c s t] True by (auto simp: seen_alive_def seen_inactive_def image_iff)
  next
    case False
    then show ?thesis
      using Cons.IH [of ?s] Cons.prems cleanup_step_other [OF False, of now ok s]
      by (auto simp: cleanup_loop_Cons seen_alive_def seen_inactive_def)
  qed
qed (simp add: seen_alive_def)

lemma cleanup_loop_dropped:
  assumes "distinct (map ca_Name cs)" "n \<in> set (fst (snd (cleanup_loop now ok cs s)))"
  shows "\<exists>c \<in> set cs. ca_Name c = n \<and> (\<exists>since. may_drop now s c since \<and>
     (ca_Owner c = None \<longrightarrow> sc_marks s n = Some since \<or> sc_marks s n = None \<and> since = now))"
  using assms
proof (induction cs arbitrary: s)
  case (Cons c cs)
  let ?s = "snd (snd (cleanup_step now ok c s))"
  have md: "may_drop now ?s c' x = may_drop now s c' x" for c' x by (simp add: may_drop_def split: option.split)
  show ?case
  proof (cases "n \<in> set (fst (snd (cleanup_step now ok c s)))")
    case True
    then show ?thesis using cleanup_step_dropped [OF True] by auto
  next
    case False
    then have d: "n \<in> set (fst (snd (cleanup_loop now ok cs ?s)))" using Cons.prems(2) by (simp add: cleanup_loop_Cons)
    then obtain c' since where "c' \<in> set cs" "ca_Name c' = n" "may_drop now s c' since"
      "ca_Owner c' = None \<longrightarrow> sc_marks ?s n = Some since \<or> sc_marks ?s n = None \<and> since = now"
      using Cons.IH [OF _ d] Cons.prems(1) md by auto
    moreover have "n \<noteq> ca_Name c" using calculation(1,2) Cons.prems(1) by (auto simp: image_iff)
    ultimately have "may_drop now s c' since \<and> (ca_Owner c' = None \<longrightarrow> sc_marks s n = Some since \<or> sc_marks s n = None \<and> since = now)"
      using cleanup_step_other [of n c now ok s] by simp
    then show ?thesis using \<open>c' \<in> set cs\<close> \<open>ca_Name c' = n\<close> by (intro bexI [of _ c'] conjI exI [of _ since]) simp_all
  qed
qed simp

text \<open>
  Slot \<open>n\<close> was unused since \<open>t\<close>: a pass at \<open>t\<close> saw it inactive without an owner row, and no pass since has seen it active or
  owned.
\<close>

definition unused_since :: "gostring \<Rightarrow> int \<Rightarrow> pass list \<Rightarrow> bool" where
  "unused_since n t ps \<longleftrightarrow> (\<exists>ps1 ok cs ps2. ps = ps1 @ (t, ok, cs) # ps2 \<and> seen_inactive n cs \<and>
     (\<forall>(t', ok', cs') \<in> set ((t, ok, cs) # ps2). \<not> seen_alive n cs'))"

lemma unused_since_snoc: "unused_since n t ps \<Longrightarrow> \<not> seen_alive n cs \<Longrightarrow> unused_since n t (ps @ [(now, ok, cs)])"
  unfolding unused_since_def
proof (elim exE conjE)
  fix ps1 ok0 cs0 ps2
  assume "\<not> seen_alive n cs" "ps = ps1 @ (t, ok0, cs0) # ps2" "seen_inactive n cs0"
    "\<forall>(t', ok', cs') \<in> set ((t, ok0, cs0) # ps2). \<not> seen_alive n cs'"
  then show "\<exists>ps1 ok1 cs1 ps2. ps @ [(now, ok, cs)] = ps1 @ (t, ok1, cs1) # ps2 \<and> seen_inactive n cs1 \<and>
      (\<forall>(t', ok', cs') \<in> set ((t, ok1, cs1) # ps2). \<not> seen_alive n cs')"
    by (intro exI [of _ ps1] exI [of _ ok0] exI [of _ cs0] exI [of _ "ps2 @ [(now, ok, cs)]"]) auto
qed

lemma unused_since_now: "seen_inactive n cs \<Longrightarrow> \<not> seen_alive n cs \<Longrightarrow> unused_since n now (ps @ [(now, ok, cs)])"
  unfolding unused_since_def by (intro exI [of _ ps] exI [of _ ok] exI [of _ cs] exI [of _ "[]"]) auto

lemma run_passes_snoc: "run_passes (ps @ [(now, ok, cs)]) s = snd (snd (cleanup_loop now ok cs (run_passes ps s)))"
  by (simp add: run_passes_def)

lemma run_passes_frame [simp]: "sc_rules (run_passes ps s) = sc_rules s" "sc_dryRun (run_passes ps s) = sc_dryRun s"
  by (induction ps arbitrary: s) (simp_all add: run_passes_def case_prod_unfold)

lemma run_passes_marks:
  assumes "\<forall>(now, ok, cs) \<in> set ps. distinct (map ca_Name cs)" "sc_marks s = Map.empty" "sc_marks (run_passes ps s) n = Some t"
  shows "unused_since n t ps"
  using assms
proof (induction ps arbitrary: t rule: rev_induct)
  case (snoc p ps)
  obtain now ok cs where p: "p = (now, ok, cs)" by (rule prod_cases3)
  have "\<not> seen_alive n cs \<and> (sc_marks (run_passes ps s) n = Some t \<or> t = now \<and> seen_inactive n cs)"
    using cleanup_loop_mark [of cs now ok "run_passes ps s" n t] snoc.prems by (simp add: p run_passes_snoc)
  then show ?case
    using snoc.IH snoc.prems unused_since_snoc unused_since_now unfolding p by auto
qed (simp add: run_passes_def)

lemma cleanup_loop_abandoned:
  assumes "\<forall>(now, ok, cs) \<in> set (ps @ [(now, ok, cs)]). distinct (map ca_Name cs)" "sc_marks s = Map.empty"
    "cleanup_loop now ok cs (run_passes ps s) = (good, dropped, s')" "n \<in> set dropped"
  shows "\<exists>c \<in> set cs. ca_Name c = n \<and> (\<exists>since. may_drop now s c since \<and>
     (ca_Owner c = None \<longrightarrow> unused_since n since (ps @ [(now, ok, cs)])))"
proof -
  let ?s = "run_passes ps s"
  have d: "distinct (map ca_Name cs)" using assms(1) by auto
  obtain c since where c: "c \<in> set cs" "ca_Name c = n" "may_drop now ?s c since"
    "ca_Owner c = None \<longrightarrow> sc_marks ?s n = Some since \<or> sc_marks ?s n = None \<and> since = now"
    using cleanup_loop_dropped [OF d, of n now ok ?s] assms(3,4) by auto
  have md: "may_drop now s c since" using c(3) by (simp add: may_drop_def split: option.splits)
  have "unused_since n since (ps @ [(now, ok, cs)])" if o: "ca_Owner c = None"
  proof -
    have u: "c' = c" if "c' \<in> set cs" "ca_Name c' = n" for c'
      using d c(1,2) that by (auto simp: distinct_map inj_on_def)
    have i: "\<not> ca_Active c" using md by (simp add: may_drop_def)
    have alive: "\<not> seen_alive n cs"
    proof
      assume "seen_alive n cs"
      then obtain c' where c': "c' \<in> set cs" "ca_Name c' = n" "ca_Active c' \<or> ca_Owner c' \<noteq> None" by (auto simp: seen_alive_def)
      have "c' = c" by (rule u [OF c'(1,2)])
      then show False using c'(3) i o by simp
    qed
    have quiet: "seen_inactive n cs" unfolding seen_inactive_def using c(1,2) i o by blast
    consider "sc_marks ?s n = Some since" | "since = now" using c(4) o by blast
    then show ?thesis
    proof cases
      case 1
      have "unused_since n since ps" using run_passes_marks [OF _ assms(2) 1] assms(1) by auto
      then show ?thesis using alive by (rule unused_since_snoc)
    next
      case 2
      then show ?thesis using unused_since_now [OF quiet alive] by simp
    qed
  qed
  then have "may_drop now s c since \<and> (ca_Owner c = None \<longrightarrow> unused_since n since (ps @ [(now, ok, cs)]))" using md by simp
  then show ?thesis using c(1,2) by (intro bexI [of _ c] conjI exI [of _ since]) simp_all
qed

definition demo_cleaner :: slotCleaner where
  "demo_cleaner = \<lparr>sc_rules = \<lparr>or_ownSlot = ''cdc_a'', or_pattern = (\<lambda>n. has_prefix n ''cdc_''), or_staleAfter = seconds 1800,
      or_retainedThreshold = 0\<rparr>, sc_dryRun = False, sc_marks = Map.empty\<rparr>"

definition demo_candidate :: slotCandidate where
  "demo_candidate = \<lparr>ca_Name = ''cdc_b'', ca_Active = False, ca_Retained = 10, ca_Owner = None\<rparr>"

definition fetched_passes :: "cleanup_pass list \<Rightarrow> pass list" where
  "fetched_passes ps = concat (map (\<lambda>(now, ok, fetched). case fetched of None \<Rightarrow> [] | Some cs \<Rightarrow> [(now, ok, cs)]) ps)"

lemma cleaner_run_snoc:
  "cleaner_run (ps @ [(now, ok, fetched)]) s =
     (let (d, s) = cleaner_run ps s; (good, d', s) = cleanupOnce now ok fetched s in (d @ d', s))"
  by (induction ps arbitrary: s) (auto simp: Let_def case_prod_unfold)

lemma cleaner_run_state: "snd (cleaner_run ps s) = run_passes (fetched_passes ps) s"
proof (induction ps arbitrary: s)
  case (Cons p ps)
  obtain now ok fetched where p: "p = (now, ok, fetched)" by (metis prod.exhaust)
  show ?case
    by (cases fetched) (simp_all add: p Cons.IH run_passes_def fetched_passes_def cleanupOnce_def Let_def case_prod_unfold)
qed (simp add: run_passes_def fetched_passes_def)

text \<open>
  C17. The cleanup routine never drops a slot somebody may come back to. Over any run of it, with passes that fail to read the
  slots or to drop one, a slot dropped by a pass is not the watcher's own, matches the naming pattern, was inactive, retained more WAL than the threshold, the routine was not in
  dry-run mode, and either its owner released it, or its owner's heartbeat is at least the stale period old, or,
  without a registered owner, some pass at least the stale period earlier saw it unused and no pass since has seen it active or
  owned.
\<close>

theorem cleanup_drops_only_abandoned:
  assumes "\<forall>(now, ok, cs) \<in> set (fetched_passes ps). distinct (map ca_Name cs)" "sc_marks s = Map.empty" "n \<in> set (fst (cleaner_run ps s))"
  shows "\<exists>before now ok cs after. ps = before @ (now, ok, Some cs) # after \<and>
    (\<exists>c \<in> set cs. ca_Name c = n \<and> (\<exists>since. may_drop now s c since \<and>
       (ca_Owner c = None \<longrightarrow> unused_since n since (fetched_passes before @ [(now, ok, cs)]))))"
  using assms
proof (induction ps rule: rev_induct)
  case (snoc p ps)
  obtain now ok fetched where p: "p = (now, ok, fetched)" by (metis prod.exhaust)
  obtain d s1 where run: "cleaner_run ps s = (d, s1)" by (rule prod.exhaust)
  obtain good d' s2 where once: "cleanupOnce now ok fetched s1 = (good, d', s2)" by (rule prod_cases3)
  have pre: "\<forall>(now, ok, cs) \<in> set (fetched_passes ps). distinct (map ca_Name cs)" using snoc.prems(1) by (simp add: fetched_passes_def)
  consider "n \<in> set d" | "n \<in> set d'" using snoc.prems(3) by (auto simp: p cleaner_run_snoc run once)
  then show ?case
  proof cases
    case 1
    then have "n \<in> set (fst (cleaner_run ps s))" by (simp add: run)
    from snoc.IH [OF pre snoc.prems(2) this] obtain before now ok cs after where
      ih: "ps = before @ (now, ok, Some cs) # after \<and>
        (\<exists>c \<in> set cs. ca_Name c = n \<and> (\<exists>since. may_drop now s c since \<and>
           (ca_Owner c = None \<longrightarrow> unused_since n since (fetched_passes before @ [(now, ok, cs)]))))"
      by (elim exE) (rule that)
    show ?thesis
      by (intro exI [of _ before] exI [of _ now] exI [of _ ok] exI [of _ cs] exI [of _ "after @ [p]"] conjI)
        (use ih [THEN conjunct1] in simp, rule ih [THEN conjunct2])
  next
    case 2
    then obtain cs where cs: "fetched = Some cs" using once by (cases fetched) (auto simp: cleanupOnce_def)
    have "cleanup_loop now ok cs (run_passes (fetched_passes ps) s) = (good, d', s2)"
      using once cleaner_run_state [of ps s] by (simp add: cs cleanupOnce_def run)
    then have "\<exists>c \<in> set cs. ca_Name c = n \<and> (\<exists>since. may_drop now s c since \<and>
        (ca_Owner c = None \<longrightarrow> unused_since n since (fetched_passes ps @ [(now, ok, cs)])))"
      using cleanup_loop_abandoned [of "fetched_passes ps" now ok cs s] snoc.prems(1,2) 2 by (simp add: p cs fetched_passes_def)
    then show ?thesis by (intro exI [of _ ps] exI [of _ now] exI [of _ ok] exI [of _ cs] exI [of _ "[]"]) (simp add: p cs)
  qed
qed simp

definition demo_passes :: "cleanup_pass list" where
  "demo_passes = [(0, \<lambda>_. True, Some [demo_candidate]), (1, \<lambda>_. True, None), (seconds 1800, \<lambda>_. True, Some [demo_candidate])]"

theorem cleanup_drops_only_abandoned_witness:
  "fst (cleaner_run demo_passes demo_cleaner) = [''cdc_b''] \<and>
     (\<exists>before now ok cs after. demo_passes = before @ (now, ok, Some cs) # after \<and>
       (\<exists>since. unused_since ''cdc_b'' since (fetched_passes before @ [(now, ok, cs)])))"
proof -
  have "fst (cleaner_run demo_passes demo_cleaner) = [''cdc_b'']"
    by (simp add: demo_passes_def cleanupOnce_def cleanup_loop.simps(2) demo_candidate_def demo_cleaner_def observeInactive_def decide_def dropSlot_def
        has_prefix_def seconds_def Let_def)
  moreover have "ca_Owner c = None" if "(now, ok, Some cs) \<in> set demo_passes" "c \<in> set cs" for now ok cs c
    using that by (auto simp: demo_passes_def demo_candidate_def)
  moreover have "\<forall>(now, ok, cs) \<in> set (fetched_passes demo_passes). distinct (map ca_Name cs)" "sc_marks demo_cleaner = Map.empty"
    by (simp_all add: fetched_passes_def demo_passes_def demo_cleaner_def)
  ultimately show ?thesis
    using cleanup_drops_only_abandoned [of demo_passes demo_cleaner "''cdc_b''"] by (metis in_set_conv_decomp list.set_intros(1))
qed

subsection \<open>The registry protects a live watcher\<close>

definition candidate_of :: "owners \<Rightarrow> gostring \<Rightarrow> bool \<Rightarrow> u64 \<Rightarrow> slotCandidate" where
  "candidate_of t name active retained = \<lparr>ca_Name = name, ca_Active = active, ca_Retained = retained, ca_Owner = t name\<rparr>"

datatype registry_op = Register slotRegistry | Heartbeat slotRegistry | Release slotRegistry

fun registry_do :: "int \<times> registry_op \<Rightarrow> owners \<Rightarrow> owners" where
  "registry_do (now, Register r) t = register now r t"
| "registry_do (now, Heartbeat r) t = heartbeat now r t"
| "registry_do (now, Release r) t = release now r t"

fun op_slot :: "registry_op \<Rightarrow> gostring" where
  "op_slot (Register r) = sr_slot r"
| "op_slot (Heartbeat r) = sr_slot r"
| "op_slot (Release r) = sr_slot r"

lemma registry_do_other: "op_slot x \<noteq> n \<Longrightarrow> registry_do (now, x) t n = t n"
  by (cases x) (auto simp: register_def heartbeat_def release_def update_own_def split: option.split)

text \<open>The operations of others that leave the row of \<open>r\<close> alone, and the time of the last sign of life of \<open>r\<close>.\<close>

fun keeps_row :: "slotRegistry \<Rightarrow> registry_op \<Rightarrow> bool" where
  "keeps_row r (Register r') = (sr_slot r' \<noteq> sr_slot r)"
| "keeps_row r (Heartbeat r') = True"
| "keeps_row r (Release r') = (sr_slot r' \<noteq> sr_slot r \<or> sr_owner r' \<noteq> sr_owner r)"

definition last_beat :: "slotRegistry \<Rightarrow> int \<Rightarrow> (int \<times> registry_op) list \<Rightarrow> int" where
  "last_beat r t0 ops = fold (\<lambda>(u, x) t. if x = Heartbeat r then u else t) ops t0"

lemma registry_row:
  assumes "t (sr_slot r) = Some \<lparr>ow_owner = sr_owner r, ow_heartbeat = t0, ow_released = None\<rparr>" "\<forall>(u, x) \<in> set ops. keeps_row r x"
  shows "fold registry_do ops t (sr_slot r) = Some \<lparr>ow_owner = sr_owner r, ow_heartbeat = last_beat r t0 ops, ow_released = None\<rparr>"
  using assms
proof (induction ops arbitrary: t t0)
  case (Cons x ops)
  obtain u op where x: "x = (u, op)" by (rule prod.exhaust)
  have "registry_do (u, op) t (sr_slot r) =
      Some \<lparr>ow_owner = sr_owner r, ow_heartbeat = (if op = Heartbeat r then u else t0), ow_released = None\<rparr>"
  proof (cases op)
    case (Heartbeat r')
    then show ?thesis using Cons.prems(1) by (cases r, cases r') (auto simp: heartbeat_def update_own_def split: option.split)
  next
    case (Release r')
    then show ?thesis using Cons.prems by (auto simp: x release_def update_own_def split: option.split)
  next
    case (Register r')
    then show ?thesis using Cons.prems by (auto simp: x register_def)
  qed
  then show ?case using Cons.IH Cons.prems by (simp add: x last_beat_def)
qed (simp add: last_beat_def)

text \<open>
  A running watcher never loses its slot to the cleanup of another one. Once it has registered, and as long as it is not released by
  its own owner and nobody else registers the slot, no cleanup whose stale period exceeds the time since the last
  heartbeat decides to drop the slot, not even while the watcher is reconnecting and the slot is inactive; heartbeats and releases of
  other owners change nothing.
\<close>

theorem live_owner_kept:
  assumes "\<forall>(u, x) \<in> set ops. keeps_row r x" "now - last_beat r t0 ops < or_staleAfter rules"
  shows "\<exists>why. decide now rules (candidate_of (fold registry_do ops (register t0 r t)) (sr_slot r) active retained) seen = Keep why"
  using registry_row [of "register t0 r t" r t0 ops] assms by (simp add: register_def candidate_of_def decide_def)

theorem live_owner_kept_witness:
  "\<exists>why. decide (seconds 100) (sc_rules demo_cleaner)
     (candidate_of (fold registry_do [(seconds 30, Heartbeat \<lparr>sr_slot = ''cdc_b'', sr_owner = ''w''\<rparr>), (seconds 60, Release \<lparr>sr_slot = ''cdc_b'', sr_owner = ''x''\<rparr>)]
       (register 0 \<lparr>sr_slot = ''cdc_b'', sr_owner = ''w''\<rparr> Map.empty)) ''cdc_b'' False 10) 0 = Keep why"
  using live_owner_kept [of "[(seconds 30, Heartbeat \<lparr>sr_slot = ''cdc_b'', sr_owner = ''w''\<rparr>), (seconds 60, Release \<lparr>sr_slot = ''cdc_b'', sr_owner = ''x''\<rparr>)]"
    "\<lparr>sr_slot = ''cdc_b'', sr_owner = ''w''\<rparr>" "seconds 100" 0 "sc_rules demo_cleaner" Map.empty False 10 0]
  by (simp add: last_beat_def demo_cleaner_def seconds_def)

text \<open>The goroutine of the heartbeat keeps the row alive as long as one of its statements succeeds per stale period.\<close>

lemma runHeartbeat_ops:
  "runHeartbeat ticks r t = fold registry_do (map (\<lambda>(now, _). (now, Heartbeat r)) (filter snd ticks)) t"
  by (induction ticks arbitrary: t) (auto simp: runHeartbeat_def)

lemma runHeartbeat_row:
  "runHeartbeat ticks r (register t0 r t) (sr_slot r) =
     Some \<lparr>ow_owner = sr_owner r, ow_heartbeat = last (t0 # map fst (filter snd ticks)), ow_released = None\<rparr>"
proof -
  have "last_beat r t0 (map (\<lambda>(now, _). (now, Heartbeat r)) xs) = last (t0 # map fst xs)" for xs :: "(int \<times> bool) list"
    by (induction xs arbitrary: t0) (auto simp: last_beat_def)
  then show ?thesis
    unfolding runHeartbeat_ops by (subst registry_row [of _ _ t0]) (auto simp: register_def)
qed

text \<open>The readiness answer follows the last sample that decides whether the slot can stream.\<close>

lemma sampler_run_usable:
  "SlotUsable (fst (sampler_run samples s)) =
     last (SlotUsable (fst s) # concat (map (\<lambda>(now, lag, looked). case slotNeedsRecreating looked of None \<Rightarrow> [] | Some b \<Rightarrow> [\<not> b]) samples))"
proof (induction samples arbitrary: s)
  case (Cons x xs)
  obtain now lag looked where x: "x = (now, lag, looked)" by (metis prod.exhaust)
  have "SlotUsable (fst (snd (sampleOnce now lag looked s))) = (case slotNeedsRecreating looked of None \<Rightarrow> SlotUsable (fst s) | Some b \<Rightarrow> \<not> b)"
    by (cases s) (auto simp: sampleOnce_def setUsable_def SlotUsable_def Let_def split: option.splits sum.splits)
  then show ?case using Cons.IH [of "snd (sampleOnce now lag looked s)"] by (auto simp: x sampler_run_def split: option.splits)
qed (simp add: sampler_run_def)

subsection \<open>Recreating a slot\<close>

text \<open>
  C19. A slot is replaced, with the loss of changes that means, only when that is unavoidable: an action is taken only if the watcher may create slots and the
  lookup found the slot missing or its WAL lost; a lookup that failed decides nothing. The old slot is dropped only when it exists, and
  always before the new one is created.
\<close>

theorem recreate_only_unusable:
  assumes "recreateUnusableSlot createSlot slotName lookup drop_ok exists exec_ok = (err, acts)"
  shows "(acts \<noteq> [] \<longrightarrow> createSlot \<and> (lookup = Inl SlotMissing \<or> (\<exists>st. lookup = Inr st \<and> ss_WALStatus st = ''lost''))) \<and>
    acts \<in> {[], [CreateOwnSlot], [DropOwnSlot], [DropOwnSlot, CreateOwnSlot]} \<and> (DropOwnSlot \<in> set acts \<longrightarrow> lookup \<noteq> Inl SlotMissing)"
proof (cases lookup)
  case (Inl e)
  then show ?thesis
    using assms by (cases e) (auto simp: recreateUnusableSlot_def slotNeedsRecreating_def Let_def split: if_splits prod.splits)
next
  case (Inr st)
  then show ?thesis
    using assms by (auto simp: recreateUnusableSlot_def slotNeedsRecreating_def walStatusLost_def Let_def split: if_splits prod.splits bool.splits)
qed

theorem recreate_only_unusable_witness:
  "snd (recreateUnusableSlot True ''cdc_a'' (Inl SlotMissing) True (Some False) True) = [CreateOwnSlot] \<and> Inl SlotMissing \<noteq> (Inl LookupError :: lookup_error + SlotStats)"
proof -
  obtain err acts where r: "recreateUnusableSlot True ''cdc_a'' (Inl SlotMissing) True (Some False) True = (err, acts)" by (rule prod.exhaust)
  have "acts \<noteq> []"
    using r by (auto simp: recreateUnusableSlot_def slotNeedsRecreating_def createReplicationSlotIfNotExists_def create_if_missing_def
        validateIdentifier_def is_letter_def is_digit_def)
  then show ?thesis using recreate_only_unusable [OF r] r by auto
qed

subsection \<open>Waiting for the database\<close>

lemma waitForDatabase_not_ready:
  assumes "\<forall>d \<in> set ds. \<exists>e. di_result d = Some e \<and> databaseNotReady e \<and> \<not> di_done d \<and> \<not> di_done_asleep d"
  shows "waitForDatabase (ds @ later) b = (fst (waitForDatabase later (b\<lparr>sb_next := (double_up_to (sb_max b) ^^ length ds) (sb_next b)\<rparr>)),
     map (\<lambda>n. (double_up_to (sb_max b) ^^ n) (sb_next b)) [0..<length ds] @
       snd (waitForDatabase later (b\<lparr>sb_next := (double_up_to (sb_max b) ^^ length ds) (sb_next b)\<rparr>)))"
  using assms
proof (induction ds arbitrary: b)
  case (Cons d ds)
  let ?b = "b\<lparr>sb_next := double_up_to (sb_max b) (sb_next b)\<rparr>"
  have up: "map f [0..<Suc n] = f 0 # map (\<lambda>n. f (Suc n)) [0..<n]" for f :: "nat \<Rightarrow> int" and n
    using upt_conv_Cons [of 0 "Suc n"] by (simp del: upt_Suc add: map_Suc_upt [symmetric])
  obtain e where "di_result d = Some e" "databaseNotReady e" "\<not> di_done d" "\<not> di_done_asleep d" using Cons.prems by auto
  then show ?case
    using Cons.IH [of ?b] Cons.prems
    by (simp add: startupBackoff_step_def double_up_to_def [of _ "sb_next b", symmetric] up funpow_swap1 case_prod_unfold Let_def del: upt_Suc)
qed (simp add: case_prod_unfold)

text \<open>
  C39. A database that comes up late is waited for, not crashed on: however many connection attempts fail with errors that mean not
  yet, the first one that succeeds ends the wait with a connection, after pauses of one second doubling up to thirty. An error the
  server rejects the connection with ends the wait at once.
\<close>

theorem waits_for_database:
  assumes "\<forall>d \<in> set ds. \<exists>e. di_result d = Some e \<and> databaseNotReady e \<and> \<not> di_done d \<and> \<not> di_done_asleep d"
    "b = \<lparr>sb_next = seconds 1, sb_max = maxReconnectDelay\<rparr>"
  shows "(di_result d = None \<longrightarrow> waitForDatabase (ds @ d # later) b =
       (DbConnected, map (\<lambda>n. min (seconds (2 ^ n)) (seconds 30)) [0..<length ds])) \<and>
     (di_result d = Some e \<longrightarrow> \<not> di_done d \<longrightarrow> \<not> databaseNotReady e \<longrightarrow> fst (waitForDatabase (ds @ d # later) b) = DbRejected e)"
  using waitForDatabase_not_ready [OF assms(1), of "d # later" b] assms(2)
  by (simp add: funpow_double_up_to maxReconnectDelay_def seconds_def mult.commute)

theorem waits_for_database_witness:
  "waitForDatabase [\<lparr>di_result = Some (PgError ''57P03''), di_done = False, di_done_asleep = False\<rparr>, \<lparr>di_result = None, di_done = False, di_done_asleep = False\<rparr>]
     \<lparr>sb_next = seconds 1, sb_max = maxReconnectDelay\<rparr> = (DbConnected, [seconds 1])"
  using waits_for_database [of "[\<lparr>di_result = Some (PgError ''57P03''), di_done = False, di_done_asleep = False\<rparr>]"
    "\<lparr>sb_next = seconds 1, sb_max = maxReconnectDelay\<rparr>" "\<lparr>di_result = None, di_done = False, di_done_asleep = False\<rparr>" "[]" OtherConnect]
  by (simp add: databaseNotReady_def startupSQLStates_def seconds_def)

end
