(* ===== verification/Pg_Snapshot.thy ===== *)
theory Pg_Snapshot
  imports Pg_Slots Go_Text Json_Row
begin

text \<open>
  The initial snapshot of PostgreSQL: the reader of \<^verbatim>\<open>pg_dump\<close> files (\<^verbatim>\<open>postgres/snapshot_dump.go\<close>), the
  chunked reader of live tables (\<^verbatim>\<open>postgres/snapshot_chunked.go\<close>) and \<^verbatim>\<open>runSnapshot\<close>, which picks one.

  The database is a parameter: it maps the number of the query, the SQL text and its arguments to an answer, so that the table may
  change between two chunks. Column values are of a type \<open>'v\<close> with the order of the database; \<open>sprint\<close> is
  \<^verbatim>\<open>fmt.Sprintf("%v", v)\<close> on the dynamic types the driver returns. The chunk loops are
  \<^verbatim>\<open>partial_function (option)\<close>: \<open>None\<close> means that the loop does not end.
\<close>

section \<open>Dump files\<close>

text \<open>
  \<^verbatim>\<open>^COPY\s+(\S+)\.(\S+)\s+\(([^)]+)\)\s+FROM\s+stdin;\<close>. The two name groups share one run of non-space characters;
  the first group is greedy, so the run is divided at the last dot that has a character on each side.
\<close>

definition dot_splits :: "gostring \<Rightarrow> (gostring \<times> gostring) list" where
  "dot_splits w = map (\<lambda>i. (take i w, drop (Suc i) w)) (filter (\<lambda>i. w ! i = CHR ''.'' \<and> 0 < i \<and> Suc i < length w) (rev [0..<length w]))"

definition split_name :: "gostring \<Rightarrow> (gostring \<times> gostring) option" where
  "split_name w = (case dot_splits w of [] \<Rightarrow> None | x # _ \<Rightarrow> Some x)"

definition copyHeaderRegex :: "gostring \<Rightarrow> (gostring \<times> gostring \<times> gostring) option" where
  "copyHeaderRegex s =
     Option.bind (lit ''COPY'' s) (\<lambda>s.
     Option.bind (run1 re_space s) (\<lambda>(_, s).
     Option.bind (run1 (\<lambda>c. \<not> re_space c) s) (\<lambda>(w, s).
     Option.bind (split_name w) (\<lambda>(schema, table).
     Option.bind (run1 re_space s) (\<lambda>(_, s).
     Option.bind (lit ''('' s) (\<lambda>s.
     Option.bind (run1 (\<lambda>c. c \<noteq> CHR '')'') s) (\<lambda>(cols, s).
     Option.bind (lit '')'' s) (\<lambda>s.
     Option.bind (run1 re_space s) (\<lambda>(_, s).
     Option.bind (lit ''FROM'' s) (\<lambda>s.
     Option.bind (run1 re_space s) (\<lambda>(_, s).
     Option.bind (lit ''stdin;'' s) (\<lambda>_. Some (schema, table, cols)))))))))))))"

definition splitColumns :: "gostring \<Rightarrow> gostring list" where
  "splitColumns s = map TrimSpace (split_on (CHR '','') s)"

definition copy_null :: gostring where
  "copy_null = [CHR 0x5C, CHR ''N'']"

definition copy_end :: gostring where
  "copy_end = [CHR 0x5C, CHR ''.'']"

definition copy_value :: "gostring list \<Rightarrow> nat \<Rightarrow> gostring" where
  "copy_value values i =
     (if i < length values
      then if values ! i = copy_null then ''null'' else CHR 0x22 # EscapeString (values ! i) @ [CHR 0x22]
      else ''null'')"

definition parseCopyLine :: "int \<Rightarrow> gostring \<Rightarrow> gostring \<Rightarrow> gostring \<Rightarrow> gostring list \<Rightarrow> gostring \<Rightarrow> Event" where
  "parseCopyLine now line schema table columns lsn =
     (let values = split_on (CHR 0x09) line
      in NewEvent now Insert schema table (json_object (map (\<lambda>(i, col). (col, copy_value values i)) (enumerate 0 columns))) ''INSERT'' lsn)"

record copy_state =
  cp_inCopy :: bool
  cp_schema :: gostring
  cp_table :: gostring
  cp_columns :: "gostring list"

datatype pg_dump_error = PgOpenDump | PgScanDump | InvalidSchema gostring | InvalidTable gostring

definition copy_step :: "int \<Rightarrow> gostring \<Rightarrow> gostring \<Rightarrow> copy_state \<Rightarrow> pg_dump_error + copy_state \<times> Event list" where
  "copy_step now lsn line s =
     (if cp_inCopy s
      then if line = copy_end then Inr (s\<lparr>cp_inCopy := False\<rparr>, [])
           else Inr (s, [parseCopyLine now line (cp_schema s) (cp_table s) (cp_columns s) lsn])
      else case copyHeaderRegex line of
             None \<Rightarrow> Inr (s, [])
           | Some (schema, table, colStr) \<Rightarrow>
               if \<not> validateIdentifier schema then Inl (InvalidSchema schema)
               else if \<not> validateIdentifier table then Inl (InvalidTable table)
               else Inr (\<lparr>cp_inCopy = True, cp_schema = schema, cp_table = table, cp_columns = splitColumns colStr\<rparr>, []))"

fun copy_lines :: "int \<Rightarrow> gostring \<Rightarrow> gostring list \<Rightarrow> copy_state \<Rightarrow> pg_dump_error option \<times> Event list" where
  "copy_lines now lsn [] s = (None, [])"
| "copy_lines now lsn (l # ls) s =
     (case copy_step now lsn l s of
        Inl e \<Rightarrow> (Some e, [])
      | Inr (s, es) \<Rightarrow> let (err, es') = copy_lines now lsn ls s in (err, es @ es'))"

definition pg_max_dump_line :: nat where
  "pg_max_dump_line = 10 * 1024 * 1024"

definition copy_start :: copy_state where
  "copy_start = \<lparr>cp_inCopy = False, cp_schema = [], cp_table = [], cp_columns = []\<rparr>"

text \<open>The file's content is \<open>None\<close> when it cannot be opened.\<close>

definition ParseDumpFile :: "int \<Rightarrow> gostring option \<Rightarrow> gostring \<Rightarrow> pg_dump_error option \<times> Event list" where
  "ParseDumpFile now content startLSN =
     (case content of
        None \<Rightarrow> (Some PgOpenDump, [])
      | Some data \<Rightarrow>
          let (ls, ok) = scan_lines pg_max_dump_line (raw_lines data); (err, es) = copy_lines now startLSN ls copy_start
          in (if err \<noteq> None then err else if ok then None else Some PgScanDump, es))"

section \<open>Chunked snapshots\<close>

subsection \<open>Queries\<close>

record chunkSpec =
  cs_schema :: gostring
  cs_table :: gostring
  cs_pk :: gostring
  cs_columns :: "gostring list"
  cs_chunkSize :: int

datatype 'v sql_arg = ArgInt int | ArgValue 'v

text \<open>What a query answers: an error, or rows and whether reading them ended without one.\<close>

datatype 'v chunk = ChunkRefused | ChunkRows "'v option list list" bool

type_synonym 'v database = "nat \<Rightarrow> gostring \<times> 'v sql_arg list \<Rightarrow> 'v chunk"

definition quote_name :: "gostring \<Rightarrow> gostring" where
  "quote_name s = CHR 0x22 # s @ [CHR 0x22]"

definition colList :: "gostring list \<Rightarrow> gostring" where
  "colList columns = intercalate '', '' (map quote_name columns)"

definition buildChunkQuery ::
    "gostring \<Rightarrow> gostring \<Rightarrow> gostring \<Rightarrow> gostring \<Rightarrow> 'v option \<Rightarrow> int \<Rightarrow> gostring \<times> 'v sql_arg list" where
  "buildChunkQuery cols qSchema qTable qPK lastValue chunkSize =
     (case lastValue of
        None \<Rightarrow> (''SELECT '' @ cols @ '' FROM '' @ qSchema @ ''.'' @ qTable @ '' ORDER BY '' @ qPK @ '' LIMIT $1'', [ArgInt chunkSize])
      | Some v \<Rightarrow>
          (''SELECT '' @ cols @ '' FROM '' @ qSchema @ ''.'' @ qTable @ '' WHERE '' @ qPK @ '' > $1 ORDER BY '' @ qPK @ '' LIMIT $2'',
           [ArgValue v, ArgInt chunkSize]))"

definition pk_query :: "chunkSpec \<Rightarrow> 'v option \<Rightarrow> gostring \<times> 'v sql_arg list" where
  "pk_query s lastValue =
     buildChunkQuery (colList (cs_columns s)) (quote_name (cs_schema s)) (quote_name (cs_table s)) (quote_name (cs_pk s)) lastValue (cs_chunkSize s)"

definition offset_query :: "chunkSpec \<Rightarrow> int \<Rightarrow> gostring \<times> 'v sql_arg list" where
  "offset_query s offset =
     (''SELECT '' @ colList (cs_columns s) @ '' FROM '' @ quote_name (cs_schema s) @ ''.'' @ quote_name (cs_table s) @ '' ORDER BY 1 LIMIT $1 OFFSET $2'',
      [ArgInt (cs_chunkSize s), ArgInt offset])"

subsection \<open>Rows to events\<close>

definition render_cell :: "('v \<Rightarrow> gostring) \<Rightarrow> 'v option \<Rightarrow> gostring" where
  "render_cell sprint v = (case v of None \<Rightarrow> ''null'' | Some v \<Rightarrow> CHR 0x22 # EscapeString (sprint v) @ [CHR 0x22])"

definition cell :: "'v option list \<Rightarrow> nat \<Rightarrow> 'v option" where
  "cell values i = (if i < length values then values ! i else None)"

definition buildSnapshotEvent :: "int \<Rightarrow> ('v \<Rightarrow> gostring) \<Rightarrow> gostring \<Rightarrow> gostring \<Rightarrow> gostring list \<Rightarrow> 'v option list \<Rightarrow> Event" where
  "buildSnapshotEvent now sprint schema table columns values =
     NewEvent now Insert schema table
       (row_object (render_cell sprint) (map (\<lambda>(i, col). (col, cell values i)) (enumerate 0 columns))) ''INSERT'' []"

subsection \<open>Fetching chunks\<close>

datatype snap_error =
    SnapConnect | SnapSchema | SnapTables | SnapTable | SnapColumns | SnapPrimaryKey | SnapBadKey | ChunkQuery | ChunkIterate | SnapPanic
  | SnapNoFile | SnapDump pg_dump_error

fun first_index :: "gostring \<Rightarrow> gostring list \<Rightarrow> nat option" where
  "first_index x [] = None"
| "first_index x (y # ys) = (if y = x then Some 0 else map_option Suc (first_index x ys))"

text \<open>
  The loop over the rows of a chunk: whether indexing the row panicked, the last value of the key column and the events
  handed over. The driver returns one value per selected column, so the panic cannot be reached through it.
\<close>

fun chunk_rows :: "int \<Rightarrow> ('v \<Rightarrow> gostring) \<Rightarrow> chunkSpec \<Rightarrow> 'v option list list \<Rightarrow> 'v option \<Rightarrow> bool \<times> 'v option \<times> Event list" where
  "chunk_rows now sprint s [] lastValue = (False, lastValue, [])"
| "chunk_rows now sprint s (values # rows) lastValue =
     (let e = buildSnapshotEvent now sprint (cs_schema s) (cs_table s) (cs_columns s) values
      in case first_index (cs_pk s) (cs_columns s) of
           None \<Rightarrow> let (p, v, es) = chunk_rows now sprint s rows lastValue in (p, v, e # es)
         | Some i \<Rightarrow>
             if i < length values then let (p, v, es) = chunk_rows now sprint s rows (values ! i) in (p, v, e # es)
             else (True, lastValue, [e]))"

definition fetchChunk :: "int \<Rightarrow> ('v \<Rightarrow> gostring) \<Rightarrow> chunkSpec \<Rightarrow> 'v chunk \<Rightarrow> snap_error option \<times> 'v option \<times> Event list" where
  "fetchChunk now sprint s answer =
     (case answer of
        ChunkRefused \<Rightarrow> (Some ChunkQuery, None, [])
      | ChunkRows rows ok \<Rightarrow>
          let (panic, v, es) = chunk_rows now sprint s rows None
          in (if panic then Some SnapPanic else if ok then None else Some ChunkIterate, v, es))"

definition fetchOffsetChunk :: "int \<Rightarrow> ('v \<Rightarrow> gostring) \<Rightarrow> chunkSpec \<Rightarrow> 'v chunk \<Rightarrow> snap_error option \<times> Event list" where
  "fetchOffsetChunk now sprint s answer =
     (case answer of
        ChunkRefused \<Rightarrow> (Some ChunkQuery, [])
      | ChunkRows rows ok \<Rightarrow>
          (if ok then None else Some ChunkIterate, map (buildSnapshotEvent now sprint (cs_schema s) (cs_table s) (cs_columns s)) rows))"

type_synonym snapshot_result = "(snap_error option \<times> Event list) option"

partial_function (option) pk_loop :: "int \<Rightarrow> ('v \<Rightarrow> gostring) \<Rightarrow> 'v database \<Rightarrow> chunkSpec \<Rightarrow> nat \<Rightarrow> 'v option \<Rightarrow> snapshot_result" where
  "pk_loop now sprint db s k lastValue =
     (case fetchChunk now sprint s (db k (pk_query s lastValue)) of
        (Some e, _, es) \<Rightarrow> Some (Some e, es)
      | (None, newLast, es) \<Rightarrow>
          if int (length es) < cs_chunkSize s then Some (None, es)
          else Option.bind (pk_loop now sprint db s (Suc k) newLast) (\<lambda>(err, es'). Some (err, es @ es')))"

partial_function (option) offset_loop :: "int \<Rightarrow> ('v \<Rightarrow> gostring) \<Rightarrow> 'v database \<Rightarrow> chunkSpec \<Rightarrow> nat \<Rightarrow> int \<Rightarrow> snapshot_result" where
  "offset_loop now sprint db s k offset =
     (case fetchOffsetChunk now sprint s (db k (offset_query s offset)) of
        (Some e, es) \<Rightarrow> Some (Some e, es)
      | (None, es) \<Rightarrow>
          if int (length es) < cs_chunkSize s then Some (None, es)
          else Option.bind (offset_loop now sprint db s (Suc k) (offset + int (length es))) (\<lambda>(err, es'). Some (err, es @ es')))"

definition snapshotByPK :: "int \<Rightarrow> ('v \<Rightarrow> gostring) \<Rightarrow> 'v database \<Rightarrow> chunkSpec \<Rightarrow> snapshot_result" where
  "snapshotByPK now sprint db s = (if \<not> validateIdentifier (cs_pk s) then Some (Some SnapBadKey, []) else pk_loop now sprint db s 0 None)"

definition snapshotByOffset :: "int \<Rightarrow> ('v \<Rightarrow> gostring) \<Rightarrow> 'v database \<Rightarrow> chunkSpec \<Rightarrow> snapshot_result" where
  "snapshotByOffset now sprint db s = offset_loop now sprint db s 0 0"

subsection \<open>Catalog queries\<close>

text \<open>
  The answer to a query for names: \<open>None\<close> when it was refused, otherwise one entry per row, \<open>None\<close> for a row that could not be scanned.
  The row of the primary key query may be missing.
\<close>

definition scan_names :: "gostring option list option \<Rightarrow> gostring list option" where
  "scan_names answer = Option.bind answer those"

definition fetchAllTables :: "gostring option list option \<Rightarrow> gostring list option" where
  "fetchAllTables answer = scan_names answer"

definition fetchColumnNames :: "gostring option list option \<Rightarrow> gostring list option" where
  "fetchColumnNames answer = scan_names answer"

datatype pk_answer = PkNoRows | PkFailed | PkRow gostring

fun fetchPrimaryKey :: "pk_answer \<Rightarrow> gostring option" where
  "fetchPrimaryKey PkNoRows = Some []"
| "fetchPrimaryKey PkFailed = None"
| "fetchPrimaryKey (PkRow pk) = Some pk"

text \<open>The connection of a snapshot: the catalog's answers per table, and per table the database its chunks are read from.\<close>

record 'v snapshot_conn =
  sn_connected :: bool
  sn_tables :: "gostring option list option"
  sn_columns :: "gostring \<Rightarrow> gostring option list option"
  sn_pk :: "gostring \<Rightarrow> pk_answer"
  sn_db :: "gostring \<Rightarrow> 'v database"

definition snapshotTable :: "int \<Rightarrow> ('v \<Rightarrow> gostring) \<Rightarrow> 'v snapshot_conn \<Rightarrow> gostring \<Rightarrow> gostring \<Rightarrow> int \<Rightarrow> snapshot_result" where
  "snapshotTable now sprint conn schema table chunkSize =
     (if \<not> validateIdentifier table then Some (Some SnapTable, [])
      else case fetchColumnNames (sn_columns conn table) of
             None \<Rightarrow> Some (Some SnapColumns, [])
           | Some columns \<Rightarrow>
               (case fetchPrimaryKey (sn_pk conn table) of
                  None \<Rightarrow> Some (Some SnapPrimaryKey, [])
                | Some pk \<Rightarrow>
                    let spec = \<lparr>cs_schema = schema, cs_table = table, cs_pk = pk, cs_columns = columns, cs_chunkSize = chunkSize\<rparr>
                    in if pk \<noteq> [] then snapshotByPK now sprint (sn_db conn table) spec
                       else snapshotByOffset now sprint (sn_db conn table) spec))"

fun snapshot_tables :: "(gostring \<Rightarrow> snapshot_result) \<Rightarrow> gostring list \<Rightarrow> snapshot_result" where
  "snapshot_tables snap [] = Some (None, [])"
| "snapshot_tables snap (t # ts) =
     (case snap t of
        None \<Rightarrow> None
      | Some (Some e, es) \<Rightarrow> Some (Some e, es)
      | Some (None, es) \<Rightarrow> map_option (\<lambda>(err, es'). (err, es @ es')) (snapshot_tables snap ts))"

definition RunChunkedSnapshot :: "int \<Rightarrow> ('v \<Rightarrow> gostring) \<Rightarrow> 'v snapshot_conn \<Rightarrow> gostring \<Rightarrow> gostring list \<Rightarrow> int \<Rightarrow> snapshot_result" where
  "RunChunkedSnapshot now sprint conn schema tables chunkSize =
     (if \<not> sn_connected conn then Some (Some SnapConnect, [])
      else if \<not> validateIdentifier schema then Some (Some SnapSchema, [])
      else let snap = (\<lambda>t. snapshotTable now sprint conn schema t chunkSize)
           in if tables = []
              then case fetchAllTables (sn_tables conn) of
                     None \<Rightarrow> Some (Some SnapTables, [])
                   | Some ts \<Rightarrow> snapshot_tables snap ts
              else snapshot_tables snap tables)"

subsection \<open>Choosing the snapshot\<close>

text \<open>\<open>query\<close> is \<^verbatim>\<open>u.Query().Get\<close> of the parsed URL, \<open>None\<close> when it does not parse.\<close>

definition parseSchema :: "(gostring \<Rightarrow> gostring) option \<Rightarrow> gostring" where
  "parseSchema query =
     (case query of
        None \<Rightarrow> ''public''
      | Some get \<Rightarrow>
          if get ''currentSchema'' \<noteq> [] then get ''currentSchema''
          else if get ''search_path'' \<noteq> [] then get ''search_path''
          else ''public'')"

record snapshot_config =
  sg_mode :: gostring
  sg_tables :: "gostring list"
  sg_chunkSize :: int
  sg_backupFile :: gostring
  sg_startLSN :: gostring

definition runSnapshot ::
    "int \<Rightarrow> ('v \<Rightarrow> gostring) \<Rightarrow> 'v snapshot_conn \<Rightarrow> (gostring \<Rightarrow> gostring) option \<Rightarrow> gostring option \<Rightarrow> snapshot_config \<Rightarrow> snapshot_result" where
  "runSnapshot now sprint conn url content cfg =
     (let schemaName = parseSchema url
      in if sg_mode cfg = ''chunked'' then RunChunkedSnapshot now sprint conn schemaName (sg_tables cfg) (sg_chunkSize cfg)
         else if sg_mode cfg = ''backup_file''
         then if sg_backupFile cfg = [] then Some (Some SnapNoFile, [])
              else let (err, es) = ParseDumpFile now content (sg_startLSN cfg) in Some (map_option SnapDump err, es)
         else Some (None, []))"

section \<open>Properties\<close>

subsection \<open>Chunks by primary key\<close>

interpretation snap_row: value_renderer "render_cell sprint" "\<lambda>n v. True" for sprint :: "'v \<Rightarrow> gostring"
proof
  show "embeds n (render_cell sprint v)" for n v
    by (cases v) (simp_all add: render_cell_def embeds_null embeds_string EscapeString_body)
  show "strip (render_cell sprint v) = render_cell sprint v" for v
    by (cases v) (auto simp: render_cell_def is_space_def intro!: strip_no_space)
qed

abbreviation row_event :: "int \<Rightarrow> ('v \<Rightarrow> gostring) \<Rightarrow> chunkSpec \<Rightarrow> 'v option list \<Rightarrow> Event" where
  "row_event now sprint s \<equiv> buildSnapshotEvent now sprint (cs_schema s) (cs_table s) (cs_columns s)"

lemma cells:
  assumes "length row = length columns"
  shows "map (\<lambda>(i, col). (col, cell row i)) (enumerate 0 columns) = zip columns row"
  using assms by (auto simp: list_eq_iff_nth_eq nth_enumerate_eq cell_def)

lemma row_event_decodes:
  assumes "length row = length (cs_columns s)"
  shows "unmarshal_map (ev_Data (row_event now sprint s row)) = Some (zip (map decoded_name (cs_columns s)) (map (render_cell sprint) row))"
proof -
  have "unmarshal_map (row_object (render_cell sprint) (zip (cs_columns s) row)) =
      Some (map (\<lambda>(k, v). (decoded_name k, render_cell sprint v)) (zip (cs_columns s) row))"
    by (rule snap_row.row_decodes [where n = 0]) (auto simp: max_nesting_depth_def)
  then show ?thesis by (simp add: buildSnapshotEvent_def NewEvent_def cells [OF assms] zip_map_map)
qed

text \<open>The key of a row, and what the database promises of a table: rows in key order, one value per column, keys not null and distinct.\<close>

definition row_key :: "chunkSpec \<Rightarrow> 'v option list \<Rightarrow> 'v" where
  "row_key s row = the (row ! the (first_index (cs_pk s) (cs_columns s)))"

definition keyed_table :: "chunkSpec \<Rightarrow> 'v::linorder set \<Rightarrow> 'v option list list \<Rightarrow> bool" where
  "keyed_table s K rows \<longleftrightarrow>
     (\<forall>row \<in> set rows. length row = length (cs_columns s) \<and> row ! the (first_index (cs_pk s) (cs_columns s)) \<noteq> None \<and> row_key s row \<in> K) \<and>
     sorted_wrt (\<lambda>a b. row_key s a < row_key s b) rows"

definition after :: "'v::linorder option \<Rightarrow> 'v \<Rightarrow> bool" where
  "after lastValue v = (case lastValue of None \<Rightarrow> True | Some l \<Rightarrow> l < v)"

definition newer :: "chunkSpec \<Rightarrow> 'v::linorder option \<Rightarrow> 'v option list list \<Rightarrow> 'v option list list" where
  "newer s lastValue rows = filter (\<lambda>row. after lastValue (row_key s row)) rows"

text \<open>What PostgreSQL answers to the \<open>k\<close>-th chunk query when the table's content is \<open>tbl k\<close> at that moment.\<close>

definition answers_pk :: "'v::linorder database \<Rightarrow> chunkSpec \<Rightarrow> (nat \<Rightarrow> 'v option list list) \<Rightarrow> bool" where
  "answers_pk db s tbl \<longleftrightarrow> (\<forall>k lastValue. db k (pk_query s lastValue) = ChunkRows (take (nat (cs_chunkSize s)) (newer s lastValue (tbl k))) True)"

lemma first_index_member: "pk \<in> set cols \<Longrightarrow> \<exists>i. first_index pk cols = Some i \<and> i < length cols"
  by (induction cols) auto

lemma chunk_rows_keyed:
  assumes "cs_pk s \<in> set (cs_columns s)"
    "\<forall>row \<in> set rows. length row = length (cs_columns s) \<and> row ! the (first_index (cs_pk s) (cs_columns s)) \<noteq> None"
  shows "chunk_rows now sprint s rows v = (False, if rows = [] then v else Some (row_key s (last rows)), map (row_event now sprint s) rows)"
  using assms(2)
proof (induction rows arbitrary: v)
  case (Cons row rows)
  obtain i where "first_index (cs_pk s) (cs_columns s) = Some i" "i < length (cs_columns s)"
    using first_index_member [OF assms(1)] by blast
  then show ?case using Cons by (auto simp: row_key_def Let_def)
qed simp

lemma sorted_wrt_last:
  assumes "sorted_wrt (\<lambda>a b. f a < (f b :: 'v::linorder)) xs" "x \<in> set xs"
  shows "f x \<le> f (last xs)"
  using assms by (induction xs) (auto simp: less_imp_le)


text \<open>The rows a loop over changing tables hands over: in key order, beyond the last key, all seen in some chunk, none of the constant rows missed.\<close>

definition covers_rows :: "chunkSpec \<Rightarrow> (nat \<Rightarrow> 'v::linorder option list list) \<Rightarrow> 'v option \<Rightarrow> 'v option list list \<Rightarrow> bool" where
  "covers_rows s tbl lastValue out \<longleftrightarrow>
     sorted_wrt (\<lambda>a b. row_key s a < row_key s b) out \<and>
     (\<forall>row \<in> set out. after lastValue (row_key s row) \<and> (\<exists>j. row \<in> set (tbl j))) \<and>
     (\<forall>row. (\<forall>j. row \<in> set (tbl j)) \<longrightarrow> after lastValue (row_key s row) \<longrightarrow> row \<in> set out)"

lemma covers_whole:
  assumes "keyed_table s K (tbl k)"
  shows "covers_rows s tbl lastValue (newer s lastValue (tbl k))"
  using assms by (auto simp: covers_rows_def keyed_table_def newer_def sorted_wrt_filter)

lemma covers_chunk:
  fixes tbl :: "nat \<Rightarrow> 'v::linorder option list list"
  assumes t: "keyed_table s K (tbl k)" and rows: "rows = take n (newer s lastValue (tbl k))" "rows \<noteq> []"
    and out: "covers_rows s tbl (Some (row_key s (last rows))) out"
  shows "covers_rows s tbl lastValue (rows @ out)"
proof -
  let ?new = "newer s lastValue (tbl k)"
  have sorted: "sorted_wrt (\<lambda>a b. row_key s a < row_key s b) ?new"
    using t by (simp add: keyed_table_def newer_def sorted_wrt_filter)
  have split: "rows @ drop n ?new = ?new" by (simp add: rows(1))
  have "sorted_wrt (\<lambda>a b. row_key s a < row_key s b) (rows @ drop n ?new)" unfolding split by (rule sorted)
  then have parts: "sorted_wrt (\<lambda>a b. row_key s a < row_key s b) rows" "\<forall>a \<in> set rows. \<forall>b \<in> set (drop n ?new). row_key s a < row_key s b"
    unfolding sorted_wrt_append by blast+
  have upto: "row_key s a \<le> row_key s (last rows)" if m: "a \<in> set rows" for a by (rule sorted_wrt_last [OF parts(1) m])
  have new: "after lastValue (row_key s a) \<and> a \<in> set (tbl k)" if m: "a \<in> set rows" for a
    using m rows(1) set_take_subset [of n ?new] by (auto simp: newer_def)
  have further: "after lastValue v" if v: "row_key s (last rows) < v" for v
    using new [of "last rows"] rows(2) v by (auto simp: after_def split: option.splits)
  have "row \<in> set rows \<union> set out" if r: "\<forall>j. row \<in> set (tbl j)" "after lastValue (row_key s row)" for row
  proof -
    have "row \<in> set ?new" using r by (simp add: newer_def)
    then consider "row \<in> set rows" | "row \<in> set (drop n ?new)"
      using set_append [of rows "drop n ?new"] unfolding split by blast
    then show ?thesis
    proof cases
      case 2
      then have "row_key s (last rows) < row_key s row" using parts(2) rows(2) by auto
      then show ?thesis using out r(1) by (auto simp: covers_rows_def after_def)
    qed simp
  qed
  then show ?thesis
    using out parts(1) upto new further by (fastforce simp: covers_rows_def sorted_wrt_append after_def)
qed

lemma pk_loop_covers:
  assumes pk: "cs_pk s \<in> set (cs_columns s)" "0 < cs_chunkSize s" "finite K" "\<forall>k. keyed_table s K (tbl k)" "answers_pk db s tbl"
  shows "\<exists>out. pk_loop now sprint db s k lastValue = Some (None, map (row_event now sprint s) out) \<and> covers_rows s tbl lastValue out"
proof (induction "card {v \<in> K. after lastValue v}" arbitrary: k lastValue rule: less_induct)
  case less
  let ?rows = "take (nat (cs_chunkSize s)) (newer s lastValue (tbl k))"
  have keyed: "keyed_table s K (tbl k)" using pk(4) by simp
  have sub: "row \<in> set (tbl k) \<and> after lastValue (row_key s row)" if m: "row \<in> set ?rows" for row
    using m set_take_subset [of "nat (cs_chunkSize s)" "newer s lastValue (tbl k)"] by (auto simp: newer_def)
  have answer: "fetchChunk now sprint s (db k (pk_query s lastValue)) =
      (None, if ?rows = [] then None else Some (row_key s (last ?rows)), map (row_event now sprint s) ?rows)"
    using pk(5) chunk_rows_keyed [OF pk(1), of ?rows] sub keyed by (simp add: answers_pk_def fetchChunk_def keyed_table_def)
  show ?case
  proof (cases "int (length ?rows) < cs_chunkSize s")
    case True
    then have "?rows = newer s lastValue (tbl k)" by auto
    then show ?thesis
      using True answer covers_whole [of s K tbl k lastValue, OF keyed] by (subst pk_loop.simps) (auto simp del: length_take)
  next
    case False
    then have ne: "?rows \<noteq> []" using pk(2) by auto
    let ?v = "row_key s (last ?rows)"
    have v: "?v \<in> K" "after lastValue ?v" using sub [OF last_in_set [OF ne]] keyed by (auto simp: keyed_table_def)
    have "{v \<in> K. after (Some ?v) v} \<subset> {v \<in> K. after lastValue v}"
      using v by (auto simp: after_def split: option.splits)
    then have "card {v \<in> K. after (Some ?v) v} < card {v \<in> K. after lastValue v}" using pk(3) by (simp add: psubset_card_mono)
    then obtain out where out: "pk_loop now sprint db s (Suc k) (Some ?v) = Some (None, map (row_event now sprint s) out)" "covers_rows s tbl (Some ?v) out"
      using less by blast
    have "pk_loop now sprint db s k lastValue = Some (None, map (row_event now sprint s) (?rows @ out))"
      using False answer ne out(1) by (subst pk_loop.simps) (simp del: length_take)
    then show ?thesis using covers_chunk [of s K tbl k, OF keyed refl ne out(2)] by blast
  qed
qed



text \<open>A database that serves the tables \<open>tbl k\<close>, and a table that gains a row after the first chunk.\<close>

definition serve :: "chunkSpec \<Rightarrow> (nat \<Rightarrow> 'v::linorder option list list) \<Rightarrow> 'v database" where
  "serve s tbl k q =
     (case snd q of
        [ArgInt n] \<Rightarrow> ChunkRows (take (nat n) (newer s None (tbl k))) True
      | [ArgValue v, ArgInt n] \<Rightarrow> ChunkRows (take (nat n) (newer s (Some v) (tbl k))) True
      | _ \<Rightarrow> ChunkRefused)"

lemma serve_answers: "answers_pk (serve s tbl) s tbl"
  by (auto simp: answers_pk_def serve_def pk_query_def buildChunkQuery_def split: option.split)

definition growing :: "nat \<Rightarrow> int option list list" where
  "growing k = (if k = 0 then [[Some 1, None], [Some 2, Some 7]] else [[Some 1, None], [Some 2, Some 7], [Some 5, None]])"

definition growing_conn :: "int snapshot_conn" where
  "growing_conn = \<lparr>sn_connected = True, sn_tables = None, sn_columns = (\<lambda>_. Some [Some ''id'', Some ''n'']), sn_pk = (\<lambda>_. PkRow ''id''),
     sn_db = (\<lambda>t. serve \<lparr>cs_schema = ''public'', cs_table = ''t'', cs_pk = ''id'', cs_columns = [''id'', ''n''], cs_chunkSize = 1\<rparr> growing)\<rparr>"


text \<open>
  The key must be one column. \<^verbatim>\<open>fetchPrimaryKey\<close> takes one of the columns of a composite key, whose values repeat, and the chunk that
  follows skips the other rows with the last value: here the second of two rows is never handed over.
\<close>

theorem composite_key_rows_lost:
  "map_option (\<lambda>(err, es). (err, length es))
     (pk_loop now sprint (serve \<lparr>cs_schema = sch, cs_table = t, cs_pk = ''a'', cs_columns = [''a'', ''b''], cs_chunkSize = 1\<rparr>
         (\<lambda>_. [[Some 1, Some 1], [Some (1::int), Some 2]]))
       \<lparr>cs_schema = sch, cs_table = t, cs_pk = ''a'', cs_columns = [''a'', ''b''], cs_chunkSize = 1\<rparr> 0 None) = Some (None, 1)"
  by (simp add: pk_loop.simps serve_def pk_query_def buildChunkQuery_def newer_def after_def fetchChunk_def row_key_def)

text \<open>With a chunk size of zero every chunk is empty and full, and the loop never ends.\<close>

theorem chunk_size_zero_never_ends:
  assumes "cs_chunkSize s = 0" "\<forall>k lastValue. db k (pk_query s lastValue) = ChunkRows [] True"
  shows "pk_loop now sprint db s k lastValue = None"
proof -
  let ?P = "\<lambda>now (sprint :: 'a \<Rightarrow> gostring) db s (k :: nat) (lastValue :: 'a option) r.
    \<not> (cs_chunkSize s = 0 \<and> (\<forall>k lastValue. db k (pk_query s lastValue) = ChunkRows [] True))"
  have "?P now sprint db s k lastValue r" if r: "pk_loop now sprint db s k lastValue = Some r" for r
  proof (rule pk_loop.raw_induct [where P = ?P, OF _ r], goal_cases)
    case (1 loop now sprint db s k lastValue r)
    show ?case
    proof
      assume zero: "cs_chunkSize s = 0 \<and> (\<forall>k lastValue. db k (pk_query s lastValue) = ChunkRows [] True)"
      obtain r' where "loop now sprint db s (Suc k) None = Some r'"
        using 1(2) zero by (auto simp: fetchChunk_def split: Option.bind_splits)
      then show False using 1(1) zero by blast
    qed
  qed
  then show ?thesis using assms by (cases "pk_loop now sprint db s k lastValue") auto
qed

subsection \<open>Chunks by offset\<close>

lemma offset_loop_complete:
  assumes "0 < cs_chunkSize s" "0 \<le> off"
    "\<forall>k n. db k (offset_query s (int n)) = ChunkRows (take (nat (cs_chunkSize s)) (drop n rows)) True"
  shows "offset_loop now sprint db s k off = Some (None, map (row_event now sprint s) (drop (nat off) rows))"
  using assms(2)
proof (induction "length rows - nat off" arbitrary: k off rule: less_induct)
  case less
  let ?n = "nat (cs_chunkSize s)"
  let ?rows = "take ?n (drop (nat off) rows)"
  have "db k (offset_query s off) = ChunkRows ?rows True" using spec [OF spec [OF assms(3), of k], of "nat off"] less.prems by simp
  then have answer: "fetchOffsetChunk now sprint s (db k (offset_query s off)) = (None, map (row_event now sprint s) ?rows)"
    by (simp add: fetchOffsetChunk_def)
  show ?case
  proof (cases "length ?rows < ?n")
    case True
    then have "?rows = drop (nat off) rows" by auto
    then show ?thesis using True answer assms(1) by (subst offset_loop.simps) (auto simp del: length_take length_drop)
  next
    case False
    then have len: "length ?rows = ?n" "nat off + ?n \<le> length rows" using assms(1) by auto
    let ?off = "off + int (length ?rows)"
    have "length rows - nat ?off < length rows - nat off" using len assms(1) less.prems by auto
    then have "offset_loop now sprint db s (Suc k) ?off = Some (None, map (row_event now sprint s) (drop (nat ?off) rows))"
      using less.hyps less.prems by simp
    moreover have "?rows @ drop (nat ?off) rows = drop (nat off) rows"
      using append_take_drop_id [of ?n "drop (nat off) rows"] len(1) less.prems by (simp add: nat_add_distrib add.commute del: append_take_drop_id)
    ultimately show ?thesis
      using False answer assms(1) by (subst offset_loop.simps) (simp del: length_take length_drop add: map_append [symmetric])
  qed
qed


subsection \<open>Dump files\<close>

definition ident_char :: "char \<Rightarrow> bool" where
  "ident_char c \<longleftrightarrow> is_letter c \<or> is_digit c"

lemma validateIdentifier_chars: "validateIdentifier s \<Longrightarrow> s \<noteq> [] \<and> (\<forall>c \<in> set s. ident_char c)"
  by (cases s) (auto simp: validateIdentifier_def ident_char_def list_all_iff)

lemma ident_char_facts:
  assumes "ident_char c"
  shows "byte c < 128 \<and> 32 \<le> byte c \<and> \<not> re_space c \<and> \<not> is_white (byte c) \<and> c \<notin> {CHR 0x22, CHR 0x5C, CHR ''.'', CHR '','', CHR '')'', CHR ''('', CHR '' '', CHR 0x0A, CHR 0x0D, CHR 0x09}"
  using assms by (auto simp: ident_char_def is_letter_def is_digit_def re_space_def is_white_def)

lemma chunks_ascii: "byte c < 128 \<Longrightarrow> chunks (c # s) = (byte c, [c]) # chunks s"
  by (simp add: decode_rune.simps(2))

lemma TrimSpace_ident:
  assumes "\<forall>c \<in> set s. ident_char c"
  shows "TrimSpace s = s"
proof -
  have c: "chunks s = map (\<lambda>c. (byte c, [c])) s"
    using assms by (induction s) (auto simp: chunks_ascii ident_char_facts simp del: chunks.simps(2))
  show ?thesis
    by (rule TrimSpace_plain) (use assms in \<open>auto simp: c hd_map last_map ident_char_facts\<close>)
qed

lemma TrimSpace_blank: "TrimSpace (CHR '' '' # s) = TrimSpace s"
  by (simp add: TrimSpace_def chunks_ascii is_white_def Let_def del: chunks.simps(2))

lemma splitColumns_blank: "splitColumns (CHR '' '' # s) = splitColumns s"
proof -
  obtain p ps where "split_on (CHR '','') s = p # ps" by (cases "split_on (CHR '','') s") auto
  then show ?thesis by (simp add: splitColumns_def TrimSpace_blank)
qed

lemma splitColumns_names:
  assumes "cols \<noteq> []" "\<forall>k \<in> set cols. validateIdentifier k"
  shows "splitColumns (intercalate '', '' cols) = cols"
  using assms
proof (induction cols)
  case (Cons k cols)
  have k: "CHR '','' \<notin> set k" "TrimSpace k = k"
    using validateIdentifier_chars [of k] Cons.prems(2) ident_char_facts by (auto intro: TrimSpace_ident)
  show ?case
  proof (cases cols)
    case Nil
    then show ?thesis using k by (simp add: splitColumns_def split_on_plain)
  next
    case (Cons k' cols')
    have "splitColumns (k @ CHR '','' # CHR '' '' # intercalate '', '' cols) = TrimSpace k # splitColumns (intercalate '', '' cols)"
      using splitColumns_blank by (simp add: splitColumns_def split_on_append [OF k(1)])
    then show ?thesis using Cons k Cons.IH Cons.prems by simp
  qed
qed simp

lemma split_name_ident:
  assumes "validateIdentifier schema" "validateIdentifier table"
  shows "split_name (schema @ CHR ''.'' # table) = Some (schema, table)"
proof -
  let ?w = "schema @ CHR ''.'' # table" and ?n = "length schema"
  have s: "schema \<noteq> []" "CHR ''.'' \<notin> set schema" and t: "table \<noteq> []" "CHR ''.'' \<notin> set table"
    using validateIdentifier_chars [OF assms(1)] validateIdentifier_chars [OF assms(2)] ident_char_facts by auto
  have "?w ! i = CHR ''.'' \<longleftrightarrow> i = ?n" if "i < length ?w" for i
    using that s(2) t(2) by (auto simp: nth_append nth_Cons' in_set_conv_nth split: if_splits)
  then have "filter (\<lambda>i. ?w ! i = CHR ''.'' \<and> 0 < i \<and> Suc i < length ?w) (rev [0..<length ?w]) = filter (\<lambda>i. i = ?n) (rev [0..<length ?w])"
    using s(1) t(1) by (intro filter_cong) auto
  also have "\<dots> = [?n]"
  proof -
    have "[0..<length ?w] = [0..<?n] @ ?n # [Suc ?n..<length ?w]"
      using upt_add_eq_append [of 0 ?n "Suc (length table)"] upt_conv_Cons [of ?n "?n + Suc (length table)"] by (simp del: upt_Suc)
    then show ?thesis by (simp del: upt_Suc add: filter_empty_conv)
  qed
  finally show ?thesis by (simp add: split_name_def dot_splits_def)
qed


text \<open>A dump as \<^verbatim>\<open>pg_dump\<close> writes it: blocks of other statements, a COPY header, one line per row and the end marker.\<close>

record copy_block =
  cb_before :: "gostring list"
  cb_schema :: gostring
  cb_table :: gostring
  cb_columns :: "gostring list"
  cb_rows :: "gostring option list list"

definition header_line :: "copy_block \<Rightarrow> gostring" where
  "header_line b = ''COPY '' @ cb_schema b @ ''.'' @ cb_table b @ '' ('' @ intercalate '', '' (cb_columns b) @ '') FROM stdin;''"

definition cell_text :: "gostring option \<Rightarrow> gostring" where
  "cell_text v = (case v of None \<Rightarrow> copy_null | Some s \<Rightarrow> s)"

definition row_line :: "gostring option list \<Rightarrow> gostring" where
  "row_line row = join_on (CHR 0x09) (map cell_text row)"

definition block_lines :: "copy_block \<Rightarrow> gostring list" where
  "block_lines b = cb_before b @ header_line b # map row_line (cb_rows b) @ [copy_end]"

definition unlines :: "gostring list \<Rightarrow> gostring" where
  "unlines ls = concat (map (\<lambda>l. l @ [CHR 0x0A]) ls)"

text \<open>Values that need no escape in the COPY format.\<close>

definition plain_cell :: "gostring option \<Rightarrow> bool" where
  "plain_cell v = (case v of None \<Rightarrow> True | Some s \<Rightarrow> set s \<inter> {CHR 0x09, CHR 0x0A, CHR 0x0D, CHR 0x5C} = {})"

definition plain_block :: "copy_block \<Rightarrow> bool" where
  "plain_block b \<longleftrightarrow>
     validateIdentifier (cb_schema b) \<and> validateIdentifier (cb_table b) \<and> cb_columns b \<noteq> [] \<and> list_all validateIdentifier (cb_columns b) \<and>
     list_all (\<lambda>row. length row = length (cb_columns b) \<and> list_all plain_cell row) (cb_rows b) \<and>
     list_all (\<lambda>l. copyHeaderRegex l = None) (cb_before b)"

definition cell_json :: "gostring option \<Rightarrow> gostring" where
  "cell_json v = (case v of None \<Rightarrow> ''null'' | Some s \<Rightarrow> CHR 0x22 # EscapeString s @ [CHR 0x22])"

definition block_rows :: "copy_block \<Rightarrow> (gostring \<times> gostring \<times> (gostring \<times> gostring) list option) list" where
  "block_rows b = map (\<lambda>row. (cb_schema b, cb_table b, Some (zip (cb_columns b) (map cell_json row)))) (cb_rows b)"

lemma copyHeader_line:
  assumes "plain_block b"
  shows "copyHeaderRegex (header_line b) = Some (cb_schema b, cb_table b, intercalate '', '' (cb_columns b))"
proof -
  let ?name = "cb_schema b @ CHR ''.'' # cb_table b" and ?cols = "intercalate '', '' (cb_columns b)"
  let ?s5 = "'' FROM stdin;''"
  let ?s4 = "?cols @ '')'' @ ?s5"
  let ?s3 = "'' '' @ ''('' @ ?s4"
  have v: "validateIdentifier (cb_schema b)" "validateIdentifier (cb_table b)" "\<forall>k \<in> set (cb_columns b). validateIdentifier k" "cb_columns b \<noteq> []"
    using assms by (simp_all add: plain_block_def list_all_iff)
  have name: "\<forall>c \<in> set ?name. \<not> re_space c"
    using validateIdentifier_chars [OF v(1)] validateIdentifier_chars [OF v(2)] ident_char_facts by (auto simp: re_space_def)
  have cols: "?cols \<noteq> []" "\<forall>c \<in> set ?cols. c \<noteq> CHR '')''"
  proof -
    have "ks \<noteq> [] \<Longrightarrow> \<forall>k \<in> set ks. validateIdentifier k \<Longrightarrow> intercalate '', '' ks \<noteq> [] \<and> CHR '')'' \<notin> set (intercalate '', '' ks)" for ks
      by (induction ks rule: induct_list012) (auto dest: validateIdentifier_chars ident_char_facts)
    then show "?cols \<noteq> []" "\<forall>c \<in> set ?cols. c \<noteq> CHR '')''" using v(3,4) by auto
  qed
  have line: "header_line b = ''COPY'' @ '' '' @ ?name @ ?s3" by (simp add: header_line_def)
  have steps: "lit ''COPY'' (''COPY'' @ '' '' @ ?name @ ?s3) = Some ('' '' @ ?name @ ?s3)"
    "run1 re_space ('' '' @ ?name @ ?s3) = Some ('' '', ?name @ ?s3)"
    "run1 (\<lambda>c. \<not> re_space c) (?name @ ?s3) = Some (?name, ?s3)"
    "run1 re_space ?s3 = Some ('' '', ''('' @ ?s4)" "lit ''('' (''('' @ ?s4) = Some ?s4"
    "run1 (\<lambda>c. c \<noteq> CHR '')'') ?s4 = Some (?cols, '')'' @ ?s5)" "lit '')'' ('')'' @ ?s5) = Some ?s5"
    "run1 re_space ?s5 = Some ('' '', ''FROM stdin;'')" "lit ''FROM'' ''FROM stdin;'' = Some '' stdin;''"
    "run1 re_space '' stdin;'' = Some ('' '', ''stdin;'')" "lit ''stdin;'' ''stdin;'' = Some []"
    subgoal by (rule lit_append)
    subgoal using name v(1) validateIdentifier_chars [OF v(1)] by (intro run1_append) (auto simp: hd_append re_space_def)
    subgoal using name by (intro run1_append) (auto simp: re_space_def)
    subgoal by (intro run1_append) (auto simp: re_space_def)
    subgoal by (rule lit_append)
    subgoal using cols by (intro run1_append) auto
    subgoal by (rule lit_append)
    subgoal by (simp add: run1_def re_space_def)
    subgoal by (simp add: lit_def has_prefix_def)
    subgoal by (simp add: run1_def re_space_def)
    subgoal by (simp add: lit_def has_prefix_def)
    done
  show ?thesis
    unfolding copyHeaderRegex_def line by (simp only: steps Option.bind.simps prod.case split_name_ident [OF v(1,2)])
qed


lemma split_row_line:
  assumes "row \<noteq> []" "list_all plain_cell row"
  shows "split_on (CHR 0x09) (row_line row) = map cell_text row"
  unfolding row_line_def
proof (rule split_join)
  show "\<forall>p \<in> set (map cell_text row). CHR 0x09 \<notin> set p"
    using assms(2) by (auto simp: list_all_iff plain_cell_def cell_text_def copy_null_def split: option.splits)
qed (use assms in simp)

lemma row_line_not_end:
  assumes "row \<noteq> []" "list_all plain_cell row"
  shows "row_line row \<noteq> copy_end"
proof
  assume "row_line row = copy_end"
  then have "map cell_text row = [copy_end]" using split_row_line [OF assms] by (simp add: copy_end_def)
  then obtain v where v: "row = [v]" "cell_text v = copy_end" by (cases row) auto
  then show False using assms(2) by (cases v) (auto simp: plain_cell_def cell_text_def copy_null_def copy_end_def)
qed

lemma copy_value_cell:
  assumes "list_all plain_cell row" "i < length row"
  shows "copy_value (map cell_text row) i = cell_json (row ! i)"
proof -
  have "plain_cell (row ! i)" using assms by (simp add: list_all_length)
  then show ?thesis using assms(2) by (auto simp: copy_value_def cell_text_def cell_json_def plain_cell_def copy_null_def split: option.splits)
qed

definition copy_members :: "copy_block \<Rightarrow> gostring option list \<Rightarrow> (gostring \<times> gostring) list" where
  "copy_members b row = zip (cb_columns b) (map cell_json row)"

lemma copy_members_decode:
  assumes "plain_block b"
  shows "unmarshal_map (json_object (copy_members b row)) = Some (copy_members b row)"
proof -
  have "string_body k \<and> unquote k = Some (id k) \<and> embeds 0 v \<and> strip v = v" if m: "(k, v) \<in> set (copy_members b row)" for k v
  proof -
    have "k \<in> set (cb_columns b)" "v \<in> set (map cell_json row)" using m unfolding copy_members_def by (blast dest: set_zip_leftD set_zip_rightD)+
    then have "validateIdentifier k" and v: "v \<in> cell_json ` set row" using assms by (auto simp: plain_block_def list_all_iff)
    then have "\<forall>c \<in> set k. byte c < 128 \<and> 32 \<le> byte c \<and> c \<noteq> CHR 0x22 \<and> c \<noteq> CHR 0x5C"
      using validateIdentifier_chars [of k] ident_char_facts by auto
    then have "string_body k" "unquote k = Some k" by (rule field_name)+
    moreover have "embeds 0 v \<and> strip v = v"
      using v by (auto simp: cell_json_def embeds_null embeds_string EscapeString_body is_space_def intro!: strip_no_space split: option.splits)
    ultimately show ?thesis by simp
  qed
  from unmarshal_json_object [of "copy_members b row" id 0 "'', ''", OF this] show ?thesis
    by (simp add: max_nesting_depth_def)
qed

lemma parseCopyLine_row:
  assumes "plain_block b" "row \<in> set (cb_rows b)"
  shows "parseCopyLine now (row_line row) (cb_schema b) (cb_table b) (cb_columns b) lsn =
     NewEvent now Insert (cb_schema b) (cb_table b) (json_object (copy_members b row)) ''INSERT'' lsn"
proof -
  have r: "length row = length (cb_columns b)" "list_all plain_cell row" "row \<noteq> []"
    using assms by (auto simp: plain_block_def list_all_iff)
  have "map (\<lambda>(i, col). (col, copy_value (map cell_text row) i)) (enumerate 0 (cb_columns b)) = copy_members b row"
    by (rule nth_equalityI) (use r in \<open>simp_all add: nth_enumerate_eq copy_value_cell copy_members_def\<close>)
  then show ?thesis by (simp add: parseCopyLine_def split_row_line [OF r(3,2)])
qed

definition block_events :: "int \<Rightarrow> gostring \<Rightarrow> copy_block \<Rightarrow> Event list" where
  "block_events now lsn b =
     map (\<lambda>row. NewEvent now Insert (cb_schema b) (cb_table b) (json_object (copy_members b row)) ''INSERT'' lsn) (cb_rows b)"

lemma copy_lines_append:
  assumes "\<forall>l \<in> set ls. copy_step now lsn l s = Inr (s, f l)"
  shows "copy_lines now lsn (ls @ later) s = (fst (copy_lines now lsn later s), concat (map f ls) @ snd (copy_lines now lsn later s))"
  using assms by (induction ls) (simp_all add: case_prod_unfold)

lemma copy_lines_block:
  assumes b: "plain_block b" and s: "\<not> cp_inCopy s"
  shows "\<exists>s'. \<not> cp_inCopy s' \<and> copy_lines now lsn (block_lines b @ later) s =
     (fst (copy_lines now lsn later s'), block_events now lsn b @ snd (copy_lines now lsn later s'))"
proof -
  let ?in = "\<lparr>cp_inCopy = True, cp_schema = cb_schema b, cp_table = cb_table b, cp_columns = cb_columns b\<rparr>"
  let ?f = "\<lambda>l. [parseCopyLine now l (cb_schema b) (cb_table b) (cb_columns b) lsn]"
  have names: "validateIdentifier (cb_schema b)" "validateIdentifier (cb_table b)" "splitColumns (intercalate '', '' (cb_columns b)) = cb_columns b"
    using b by (auto simp: plain_block_def list_all_iff intro: splitColumns_names)
  have before: "\<forall>l \<in> set (cb_before b). copy_step now lsn l s = Inr (s, [])"
    using b s by (simp add: copy_step_def plain_block_def list_all_iff)
  have start: "copy_step now lsn (header_line b) s = Inr (?in, [])"
    using s copyHeader_line [OF b] names by (simp add: copy_step_def)
  have row: "copy_step now lsn (row_line row) ?in = Inr (?in, ?f (row_line row))" if r: "row \<in> set (cb_rows b)" for row
  proof -
    have "row \<noteq> []" "list_all plain_cell row" using b r by (auto simp: plain_block_def list_all_iff)
    then show ?thesis using row_line_not_end by (simp add: copy_step_def)
  qed
  have stop: "copy_step now lsn copy_end ?in = Inr (?in\<lparr>cp_inCopy := False\<rparr>, [])" by (simp add: copy_step_def)
  have events: "concat (map ?f (map row_line (cb_rows b))) = block_events now lsn b"
    using parseCopyLine_row [OF b] by (simp add: block_events_def comp_def concat_map_singleton)
  have "copy_lines now lsn (map row_line (cb_rows b) @ copy_end # later) ?in =
      (fst (copy_lines now lsn later (?in\<lparr>cp_inCopy := False\<rparr>)), block_events now lsn b @ snd (copy_lines now lsn later (?in\<lparr>cp_inCopy := False\<rparr>)))"
    using copy_lines_append [of "map row_line (cb_rows b)" now lsn ?in ?f "copy_end # later"] row stop
    by (simp only: events [symmetric]) (simp add: case_prod_unfold)
  then have "copy_lines now lsn (block_lines b @ later) s =
      (fst (copy_lines now lsn later (?in\<lparr>cp_inCopy := False\<rparr>)), block_events now lsn b @ snd (copy_lines now lsn later (?in\<lparr>cp_inCopy := False\<rparr>)))"
    using copy_lines_append [OF before] start by (simp add: block_lines_def case_prod_unfold)
  then show ?thesis by (intro exI [of _ "?in\<lparr>cp_inCopy := False\<rparr>"]) simp
qed

lemma copy_lines_blocks:
  assumes "\<forall>b \<in> set bs. plain_block b" "\<not> cp_inCopy s"
  shows "copy_lines now lsn (concat (map block_lines bs)) s = (None, concat (map (block_events now lsn) bs))"
  using assms
proof (induction bs arbitrary: s)
  case (Cons b bs)
  obtain s' where "\<not> cp_inCopy s'" "copy_lines now lsn (block_lines b @ concat (map block_lines bs)) s =
      (fst (copy_lines now lsn (concat (map block_lines bs)) s'), block_events now lsn b @ snd (copy_lines now lsn (concat (map block_lines bs)) s'))"
    using copy_lines_block [of b s now lsn "concat (map block_lines bs)"] Cons.prems by auto
  then show ?case using Cons by simp
qed simp

lemma raw_lines_unlines:
  assumes "\<forall>l \<in> set ls. CHR 0x0A \<notin> set l"
  shows "raw_lines (unlines ls) = ls"
proof -
  have "split_on (CHR 0x0A) (unlines ls) = ls @ [[]]"
    using assms by (induction ls) (auto simp: unlines_def split_on_append)
  then show ?thesis by (simp add: raw_lines_def Let_def)
qed

lemma scan_lines_plain:
  assumes "\<forall>l \<in> set ls. length l < limit \<and> CHR 0x0D \<notin> set l"
  shows "scan_lines limit ls = (ls, True)"
proof -
  have "drop_cr l = l" if "CHR 0x0D \<notin> set l" for l using that last_in_set [of l] by (metis drop_cr_def)
  then show ?thesis using assms by (induction ls) auto
qed

text \<open>
  C35. A dump is read back as it was written: for a file of COPY blocks, between any other statements, whose names need no quotes
  and whose values need no escapes, with lines shorter than 10 MB, the reader reports no error and hands over one insert per row of every block, in file
  order, under the block's schema and table and the configured LSN. Each decodes to the block's columns with the row's values, and null for the null marker.
\<close>

theorem dump_file_roundtrip:
  assumes "\<forall>b \<in> set bs. plain_block b"
    "\<forall>l \<in> set (concat (map block_lines bs)). length l < pg_max_dump_line \<and> CHR 0x0A \<notin> set l \<and> CHR 0x0D \<notin> set l"
  shows "\<exists>es. ParseDumpFile now (Some (unlines (concat (map block_lines bs)))) lsn = (None, es) \<and>
     (\<forall>e \<in> set es. ev_Type e = Insert \<and> ev_LSN e = lsn) \<and>
     map (\<lambda>e. (ev_Schema e, ev_Table e, unmarshal_map (ev_Data e))) es = concat (map block_rows bs)"
proof -
  let ?ls = "concat (map block_lines bs)" and ?es = "concat (map (block_events now lsn) bs)"
  have "raw_lines (unlines ?ls) = ?ls" "scan_lines pg_max_dump_line ?ls = (?ls, True)"
    using assms(2) by (auto intro!: raw_lines_unlines scan_lines_plain)
  then have "ParseDumpFile now (Some (unlines ?ls)) lsn = (None, ?es)"
    using copy_lines_blocks [OF assms(1), of copy_start] by (simp add: ParseDumpFile_def copy_start_def)
  moreover have "map (\<lambda>e. (ev_Schema e, ev_Table e, unmarshal_map (ev_Data e))) (block_events now lsn b) = block_rows b" if "b \<in> set bs" for b
    using that assms(1) copy_members_decode by (simp add: block_events_def block_rows_def NewEvent_def copy_members_def)
  then have "map (\<lambda>e. (ev_Schema e, ev_Table e, unmarshal_map (ev_Data e))) ?es = concat (map block_rows bs)"
    by (simp add: map_concat comp_def cong: map_cong)
  moreover have "\<forall>e \<in> set ?es. ev_Type e = Insert \<and> ev_LSN e = lsn" by (auto simp: block_events_def NewEvent_def)
  ultimately show ?thesis by blast
qed


theorem dump_file_roundtrip_witness:
  "\<exists>es. ParseDumpFile 0 (Some (unlines (block_lines
       \<lparr>cb_before = [''SET x = 1;'', []], cb_schema = ''public'', cb_table = ''t'', cb_columns = [''id'', ''name''], cb_rows = [[Some ''1'', None], [Some ''2'', Some ''a, b'']]\<rparr>))) ''0/10'' = (None, es) \<and>
     map (\<lambda>e. (ev_Schema e, ev_Table e, unmarshal_map (ev_Data e))) es =
       [(''public'', ''t'', Some [(''id'', cell_json (Some ''1'')), (''name'', ''null'')]),
        (''public'', ''t'', Some [(''id'', cell_json (Some ''2'')), (''name'', cell_json (Some ''a, b''))])]"
proof -
  let ?b = "\<lparr>cb_before = [''SET x = 1;'', []], cb_schema = ''public'', cb_table = ''t'', cb_columns = [''id'', ''name''],
    cb_rows = [[Some ''1'', None], [Some ''2'', Some ''a, b'']]\<rparr>"
  have "plain_block ?b"
    by (simp add: plain_block_def plain_cell_def validateIdentifier_def is_letter_def copyHeaderRegex_def lit_def has_prefix_def)
  moreover have "\<forall>l \<in> set (block_lines ?b). length l < pg_max_dump_line \<and> CHR 0x0A \<notin> set l \<and> CHR 0x0D \<notin> set l"
    by (simp add: block_lines_def header_line_def row_line_def cell_text_def copy_null_def copy_end_def pg_max_dump_line_def)
  ultimately show ?thesis
    using dump_file_roundtrip [of "[?b]" 0 "''0/10''"] by (auto simp: block_rows_def cell_json_def)
qed

text \<open>
  A column \<^verbatim>\<open>pg_dump\<close> has to quote keeps its quotes, which are not escaped: the event's data is not JSON and the bus refuses the row.
\<close>

theorem quoted_column_row_refused:
  "\<not> json_valid (ev_Data (parseCopyLine now ''1'' schema table (splitColumns (quote_name ''a'')) lsn))"
proof -
  have "splitColumns (quote_name ''a'') = [quote_name ''a'']"
    by (simp add: splitColumns_def quote_name_def TrimSpace_def chunks_ascii is_white_def del: chunks.simps(2))
  moreover have "\<not> json_valid (json_object [(quote_name ''a'', copy_value [''1''] 0)])" by code_simp
  ultimately show ?thesis by (simp add: parseCopyLine_def NewEvent_def)
qed

text \<open>An escape of the COPY format is kept as it stands: a tab inside a value arrives as a backslash and a letter.\<close>

theorem copy_escapes_kept:
  "unmarshal_string (copy_value [[CHR 0x5C, CHR ''t'']] 0) = Some (decoded_name [CHR 0x5C, CHR ''t''])"
  by (simp add: copy_value_def copy_null_def unmarshal_quoted)

end
