(* ===== verification/Watcher.thy ===== *)
theory Watcher
  imports Pg_Snapshot Nats_Publisher
begin

text \<open>
  The program around the components: the configuration (\<^verbatim>\<open>config/config.go\<close>), the health endpoints (\<^verbatim>\<open>health/health.go\<close>) and
  \<^verbatim>\<open>run\<close> with its helpers (\<^verbatim>\<open>main.go\<close>). Closures a checker holds are functions of the program's state. \<^verbatim>\<open>run\<close> is the
  list of the starts and stops it performs, for given outcomes of the calls it makes; deferred calls are run in reverse order at every
  return. viper is a parameter that turns defaults, bindings and file into settings.
\<close>

section \<open>Configuration\<close>

record SlotCleanupConfig =
  scf_Enabled :: bool
  scf_IntervalMinutes :: int
  scf_StaleAfterMinutes :: int
  scf_RetainedWALThresholdBytes :: int
  scf_DryRun :: bool
  scf_SlotPattern :: gostring
  scf_HeartbeatSeconds :: int

record PostgresConfig =
  pc_Enabled :: bool
  pc_URL :: gostring
  pc_Username :: gostring
  pc_Password :: gostring
  pc_SlotName :: gostring
  pc_PublicationName :: gostring
  pc_CreateSlot :: bool
  pc_CreatePublication :: bool
  pc_Tables :: "gostring list"
  pc_SnapshotMode :: gostring
  pc_SnapshotChunkSize :: int
  pc_SnapshotBackupFile :: gostring
  pc_SnapshotStartLSN :: gostring
  pc_CaptureDDL :: bool
  pc_SchemaHistoryDir :: gostring
  pc_SlotStatsIntervalSeconds :: int
  pc_OwnerID :: gostring
  pc_SlotCleanup :: SlotCleanupConfig

record MySQLConfig =
  mc_Enabled :: bool
  mc_Host :: gostring
  mc_Username :: gostring
  mc_Password :: gostring
  mc_Schema :: gostring
  mc_Tables :: "gostring list"
  mc_SnapshotMode :: gostring
  mc_SnapshotChunkSize :: int
  mc_SnapshotBackupFile :: gostring
  mc_OffsetFile :: gostring
  mc_CACert :: gostring

record NATSConfig =
  nc_Enabled :: bool
  nc_URL :: gostring
  nc_StreamName :: gostring
  nc_SubjectPrefix :: gostring
  nc_MaxAgeMinutes :: int
  nc_Storage :: gostring
  nc_Username :: gostring
  nc_Password :: gostring
  nc_InboxPrefix :: gostring

record HealthConfig =
  hc_Port :: int
  hc_BindAddress :: gostring

record Config =
  cf_Postgres :: PostgresConfig
  cf_MySQL :: MySQLConfig
  cf_NATS :: NATSConfig
  cf_Health :: HealthConfig
  cf_MetricsEnabled :: bool

definition ValidateSnapshotMode :: "gostring \<Rightarrow> bool" where
  "ValidateSnapshotMode mode \<longleftrightarrow> mode \<in> {'''', ''none'', ''chunked'', ''backup_file''}"

text \<open>\<open>host\<close> is \<^verbatim>\<open>os.Hostname()\<close>, \<open>None\<close> on error.\<close>

definition defaultOwnerID :: "gostring option \<Rightarrow> gostring" where
  "defaultOwnerID host = (case host of None \<Rightarrow> ''watcher'' | Some h \<Rightarrow> if h = [] then ''watcher'' else h)"

datatype setting = BoolSetting bool | IntSetting int | TextSetting gostring

definition config_defaults :: "gostring option \<Rightarrow> (gostring \<times> setting) list" where
  "config_defaults host =
    [(''postgres.slot_name'', TextSetting ''cdc_slot''),
     (''postgres.publication_name'', TextSetting ''cdc_publication''),
     (''postgres.create_slot'', BoolSetting True),
     (''postgres.create_publication'', BoolSetting True),
     (''postgres.snapshot_mode'', TextSetting ''none''),
     (''postgres.snapshot_chunk_size'', IntSetting 10000),
     (''postgres.slot_stats_interval_seconds'', IntSetting 15),
     (''postgres.owner_id'', TextSetting (defaultOwnerID host)),
     (''postgres.slot_cleanup.enabled'', BoolSetting True),
     (''postgres.slot_cleanup.interval_minutes'', IntSetting 10),
     (''postgres.slot_cleanup.stale_after_minutes'', IntSetting 30),
     (''postgres.slot_cleanup.retained_wal_threshold_bytes'', IntSetting 0),
     (''postgres.slot_cleanup.dry_run'', BoolSetting False),
     (''postgres.slot_cleanup.slot_pattern'', TextSetting ''^cdc_''),
     (''postgres.slot_cleanup.heartbeat_seconds'', IntSetting 30),
     (''mysql.enabled'', BoolSetting False),
     (''mysql.snapshot_mode'', TextSetting ''none''),
     (''mysql.snapshot_chunk_size'', IntSetting 10000),
     (''nats.enabled'', BoolSetting True),
     (''nats.url'', TextSetting ''nats://localhost:4222''),
     (''nats.stream_name'', TextSetting ''CDC''),
     (''nats.subject_prefix'', TextSetting ''cdc''),
     (''nats.max_age_minutes'', IntSetting 5),
     (''nats.storage'', TextSetting ''memory''),
     (''health.port'', IntSetting 8080),
     (''health.bind_address'', TextSetting ''127.0.0.1''),
     (''metrics.enabled'', BoolSetting True)]"

definition env_bindings :: "(gostring \<times> gostring) list" where
  "env_bindings =
    [(''postgres.url'', ''WATCHER_POSTGRES_URL''), (''postgres.username'', ''WATCHER_POSTGRES_USERNAME''),
     (''postgres.password'', ''WATCHER_POSTGRES_PASSWORD''), (''mysql.host'', ''WATCHER_MYSQL_HOST''),
     (''mysql.username'', ''WATCHER_MYSQL_USERNAME''), (''mysql.password'', ''WATCHER_MYSQL_PASSWORD''),
     (''mysql.ca_cert'', ''WATCHER_MYSQL_CA_CERT''), (''nats.url'', ''WATCHER_NATS_URL''),
     (''nats.username'', ''WATCHER_NATS_USERNAME''), (''nats.password'', ''WATCHER_NATS_PASSWORD''),
     (''nats.inbox_prefix'', ''WATCHER_NATS_INBOX_PREFIX'')]"

datatype config_error = ReadingConfig | UnmarshalingConfig | PostgresMode gostring | MySQLMode gostring

type_synonym viper = "(gostring \<times> setting) list \<Rightarrow> (gostring \<times> gostring) list \<Rightarrow> gostring \<Rightarrow> config_error + Config"

definition Load :: "viper \<Rightarrow> gostring option \<Rightarrow> gostring \<Rightarrow> config_error + Config" where
  "Load viper host cfgFile =
     (case viper (config_defaults host) env_bindings cfgFile of
        Inl err \<Rightarrow> Inl err
      | Inr cfg \<Rightarrow>
          if \<not> ValidateSnapshotMode (pc_SnapshotMode (cf_Postgres cfg)) then Inl (PostgresMode (pc_SnapshotMode (cf_Postgres cfg)))
          else if \<not> ValidateSnapshotMode (mc_SnapshotMode (cf_MySQL cfg)) then Inl (MySQLMode (mc_SnapshotMode (cf_MySQL cfg)))
          else Inr cfg)"

section \<open>Health\<close>

record Status =
  st_Status :: gostring
  st_CDCEnabled :: bool
  st_Subscriptions :: nat
  st_Reason :: gostring

text \<open>The body of an answer: \<^verbatim>\<open>json.NewEncoder(w).Encode\<close> of the struct, with a newline; empty reasons are left out.\<close>

definition marshal_bool :: "bool \<Rightarrow> gostring" where
  "marshal_bool b = (if b then ''true'' else ''false'')"

definition reason_member :: "gostring \<Rightarrow> (gostring \<times> gostring) list" where
  "reason_member why = (if why = [] then [] else [(''reason'', marshal_string why)])"

definition encode_Status :: "Status \<Rightarrow> gostring" where
  "encode_Status s = json_object_sep '',''
     ([(''status'', marshal_string (st_Status s)), (''cdc.enabled'', marshal_bool (st_CDCEnabled s)),
       (''cdc.subscriptions'', itoa (st_Subscriptions s))] @ reason_member (st_Reason s)) @ [CHR 0x0A]"

definition encode_readyBody :: "gostring \<Rightarrow> gostring \<Rightarrow> gostring" where
  "encode_readyBody status why = json_object_sep '','' ((''status'', marshal_string status) # reason_member why) @ [CHR 0x0A]"

record 'w Checker =
  ck_isRunning :: "'w \<Rightarrow> bool"
  ck_subscriberFn :: "'w \<Rightarrow> nat"
  ck_readiness :: "(gostring \<times> ('w \<Rightarrow> bool)) list"
  ck_isStarting :: "('w \<Rightarrow> bool) option"

definition listenerNotRunning :: gostring where
  "listenerNotRunning = ''CDC listener not running''"

definition NewChecker :: "('w \<Rightarrow> bool) \<Rightarrow> ('w \<Rightarrow> nat) \<Rightarrow> 'w Checker" where
  "NewChecker isRunning subscriberFn = \<lparr>ck_isRunning = isRunning, ck_subscriberFn = subscriberFn, ck_readiness = [], ck_isStarting = None\<rparr>"

definition WithReadiness :: "gostring \<Rightarrow> ('w \<Rightarrow> bool) \<Rightarrow> 'w Checker \<Rightarrow> 'w Checker" where
  "WithReadiness why ready c = c\<lparr>ck_readiness := ck_readiness c @ [(why, ready)]\<rparr>"

definition WithStartup :: "('w \<Rightarrow> bool) \<Rightarrow> 'w Checker \<Rightarrow> 'w Checker" where
  "WithStartup isStarting c = c\<lparr>ck_isStarting := Some isStarting\<rparr>"

definition starting :: "'w Checker \<Rightarrow> 'w \<Rightarrow> bool" where
  "starting c w = (case ck_isStarting c of None \<Rightarrow> False | Some f \<Rightarrow> f w)"

definition HealthHandler :: "'w Checker \<Rightarrow> 'w \<Rightarrow> nat \<times> gostring" where
  "HealthHandler c w =
     (let status = \<lparr>st_Status = [], st_CDCEnabled = True, st_Subscriptions = ck_subscriberFn c w, st_Reason = []\<rparr>;
          (code, status) =
            (if ck_isRunning c w then (200, status\<lparr>st_Status := ''UP''\<rparr>)
             else if starting c w then (200, status\<lparr>st_Status := ''STARTING''\<rparr>)
             else (503, status\<lparr>st_Status := ''DOWN'', st_Reason := listenerNotRunning\<rparr>))
      in (code, encode_Status status))"

fun first_failing :: "(gostring \<times> ('w \<Rightarrow> bool)) list \<Rightarrow> 'w \<Rightarrow> gostring" where
  "first_failing [] w = []"
| "first_failing ((why, ready) # cs) w = (if \<not> ready w then why else first_failing cs w)"

definition notReadyReason :: "'w Checker \<Rightarrow> 'w \<Rightarrow> gostring" where
  "notReadyReason c w = (if \<not> ck_isRunning c w then listenerNotRunning else first_failing (ck_readiness c) w)"

definition ReadyHandler :: "'w Checker \<Rightarrow> 'w \<Rightarrow> nat \<times> gostring" where
  "ReadyHandler c w =
     (let why = notReadyReason c w
      in if why = [] then (200, encode_readyBody ''ready'' []) else (503, encode_readyBody ''not ready'' why))"


section \<open>The program\<close>

text \<open>What the endpoints look at: the bus, the publisher with the state of its connection, the start-up flag and the slot sampler of a running listener.\<close>

record world =
  w_service :: Service
  w_connected :: bool
  w_publisher :: Publisher
  w_starting :: bool
  w_sampler :: "slotSampler option"

definition startHTTPServer :: "bool \<Rightarrow> world Checker" where
  "startHTTPServer pub =
     (let checker = WithReadiness ''replication slot dropped or invalidated'' (\<lambda>w. case w_sampler w of None \<Rightarrow> True | Some s \<Rightarrow> SlotUsable s)
            (WithStartup w_starting (NewChecker (\<lambda>w. IsRunning (w_service w)) (\<lambda>w. TotalSubscriberCount (w_service w))))
      in if pub then WithReadiness ''NATS not connected'' (\<lambda>w. Ready (w_connected w) (w_publisher w)) checker else checker)"

text \<open>The routes of the server; a path outside them is not found, and the page of the metrics is the library's.\<close>

datatype http_answer = Answer nat gostring | MetricsPage | NotFound

definition http_mux :: "bool \<Rightarrow> 'w Checker \<Rightarrow> gostring \<Rightarrow> 'w \<Rightarrow> http_answer" where
  "http_mux metricsEnabled checker path w =
     (if path = ''/healthz'' then Answer (fst (HealthHandler checker w)) (snd (HealthHandler checker w))
      else if path = ''/readyz'' then Answer (fst (ReadyHandler checker w)) (snd (ReadyHandler checker w))
      else if metricsEnabled \<and> path = ''/metrics'' then MetricsPage
      else NotFound)"

definition server_Addr :: "HealthConfig \<Rightarrow> gostring" where
  "server_Addr cfg = hc_BindAddress cfg @ '':'' @ itoa_int (hc_Port cfg)"

datatype part = BusPart | PublisherPart | HttpPart | PostgresPart | MySQLPart

text \<open>
  A start that is tried, one that succeeded, a stop, and the wiring of a listener's observer.
\<close>

datatype run_action = Wires part | Tries part | Begins part | Ends part

datatype run_error =
    LoadingConfig config_error | StartingNATS start_error | CreatingPostgres | StartingPostgres | CreatingMySQL | StartingMySQL
  | NATSFailed | MySQLFailed

text \<open>Whether the component runs afterwards, or the error, with the actions.\<close>

definition startNATS :: "bool \<Rightarrow> start_error option \<Rightarrow> (run_error + bool) \<times> run_action list" where
  "startNATS enabled start_err =
     (if \<not> enabled then (Inr False, [])
      else case start_err of
             Some err \<Rightarrow> (Inl (StartingNATS err), [Tries PublisherPart])
           | None \<Rightarrow> (Inr True, [Tries PublisherPart, Begins PublisherPart]))"

definition start_listener :: "part \<Rightarrow> run_error \<Rightarrow> run_error \<Rightarrow> bool \<Rightarrow> bool \<Rightarrow> bool \<Rightarrow> bool \<Rightarrow> (run_error + bool) \<times> run_action list" where
  "start_listener part e_new e_start enabled pub new_ok start_ok =
     (if \<not> enabled then (Inr False, [])
      else if \<not> new_ok then (Inl e_new, [])
      else let wire = (if pub then [Wires part] else [])
           in if \<not> start_ok then (Inl e_start, wire @ [Tries part]) else (Inr True, wire @ [Tries part, Begins part]))"

definition startPostgres :: "bool \<Rightarrow> bool \<Rightarrow> bool \<Rightarrow> bool \<Rightarrow> (run_error + bool) \<times> run_action list" where
  "startPostgres enabled pub new_ok start_ok = start_listener PostgresPart CreatingPostgres StartingPostgres enabled pub new_ok start_ok"

definition startMySQL :: "bool \<Rightarrow> bool \<Rightarrow> bool \<Rightarrow> bool \<Rightarrow> (run_error + bool) \<times> run_action list" where
  "startMySQL enabled pub new_ok start_ok = start_listener MySQLPart CreatingMySQL StartingMySQL enabled pub new_ok start_ok"

text \<open>
  The select of \<^verbatim>\<open>waitForShutdown\<close>: the ready cases, one of which is picked; with none ready it waits. A channel of a component
  that does not run is nil and never ready.
\<close>

definition waitForShutdown :: "bool \<Rightarrow> bool \<Rightarrow> bool \<Rightarrow> nat \<Rightarrow> run_error option option" where
  "waitForShutdown ctx_done nats_failure mysql_failure pick =
     (let ready = (if ctx_done then [None] else []) @ (if nats_failure then [Some NATSFailed] else []) @ (if mysql_failure then [Some MySQLFailed] else [])
      in if ready = [] then None else Some (ready ! (pick mod length ready)))"

record run_env =
  re_load :: "config_error + Config"
  re_nats_err :: "start_error option"
  re_pg_new_ok :: bool
  re_pg_start_ok :: bool
  re_ctx_done_starting :: bool
  re_my_new_ok :: bool
  re_my_start_ok :: bool
  re_ctx_done :: bool
  re_nats_failure :: bool
  re_mysql_failure :: bool
  re_pick :: nat

text \<open>The result is \<open>None\<close> while the program waits; otherwise the error it returns, if any, and all actions, the deferred ones at the end.\<close>

definition run :: "run_env \<Rightarrow> (run_error option \<times> run_action list) option" where
  "run e =
     (case re_load e of
        Inl err \<Rightarrow> Some (Some (LoadingConfig err), [])
      | Inr cfg \<Rightarrow>
          let acts = [Begins BusPart]; defers = [Ends BusPart];
              (pub, new) = startNATS (nc_Enabled (cf_NATS cfg)) (re_nats_err e); acts = acts @ new
          in case pub of
               Inl err \<Rightarrow> Some (Some err, acts @ defers)
             | Inr pub \<Rightarrow>
                 let defers = (if pub then [Ends PublisherPart] else []) @ defers; acts = acts @ [Begins HttpPart];
                     (pg, new) = startPostgres (pc_Enabled (cf_Postgres cfg)) pub (re_pg_new_ok e) (re_pg_start_ok e); acts = acts @ new
                 in case pg of
                      Inl err \<Rightarrow> Some (if re_ctx_done_starting e then None else Some err, acts @ defers)
                    | Inr pg \<Rightarrow>
                        let defers = (if pg then [Ends PostgresPart] else []) @ defers;
                            (my, new) = startMySQL (mc_Enabled (cf_MySQL cfg)) pub (re_my_new_ok e) (re_my_start_ok e); acts = acts @ new
                        in case my of
                             Inl err \<Rightarrow> Some (Some err, acts @ defers)
                           | Inr my \<Rightarrow>
                               let defers = (if my then [Ends MySQLPart] else []) @ defers
                               in case waitForShutdown (re_ctx_done e) (pub \<and> re_nats_failure e) (my \<and> re_mysql_failure e) (re_pick e) of
                                    None \<Rightarrow> None
                                  | Some err \<Rightarrow> Some (err, acts @ [Ends HttpPart] @ defers))"

section \<open>Properties\<close>

lemma Load_modes:
  assumes "Load viper host cfgFile = Inr cfg"
  shows "ValidateSnapshotMode (pc_SnapshotMode (cf_Postgres cfg)) \<and> ValidateSnapshotMode (mc_SnapshotMode (cf_MySQL cfg))"
  using assms by (auto simp: Load_def split: sum.splits if_splits)

lemma default_keys_distinct: "distinct (map fst (config_defaults host))" "distinct (map fst env_bindings)"
  by (simp_all add: config_defaults_def env_bindings_def)


definition parts_begun :: "run_action list \<Rightarrow> part list" where
  "parts_begun acts = [p. Begins p \<leftarrow> acts, p \<noteq> HttpPart]"

definition parts_ended :: "run_action list \<Rightarrow> part list" where
  "parts_ended acts = [p. Ends p \<leftarrow> acts, p \<noteq> HttpPart]"


lemma parts_simps [simp]:
  "parts_begun [] = []" "parts_ended [] = []"
  "parts_begun (a # as) = (case a of Begins p \<Rightarrow> if p = HttpPart then [] else [p] | _ \<Rightarrow> []) @ parts_begun as"
  "parts_ended (a # as) = (case a of Ends p \<Rightarrow> if p = HttpPart then [] else [p] | _ \<Rightarrow> []) @ parts_ended as"
  by (simp_all add: parts_begun_def parts_ended_def split: run_action.split)

lemma parts_append [simp]: "parts_begun (xs @ ys) = parts_begun xs @ parts_begun ys" "parts_ended (xs @ ys) = parts_ended xs @ parts_ended ys"
  by (simp_all add: parts_begun_def parts_ended_def)

lemma startNATS_parts:
  "startNATS enabled err = (r, acts) \<Longrightarrow> parts_ended acts = [] \<and> parts_begun acts = (if r = Inr True then [PublisherPart] else [])"
  by (auto simp: startNATS_def split: if_splits option.splits)

lemma start_listener_parts:
  "start_listener part e_new e_start enabled pub new_ok start_ok = (r, acts) \<Longrightarrow> part \<noteq> HttpPart \<Longrightarrow>
     parts_ended acts = [] \<and> parts_begun acts = (if r = Inr True then [part] else [])"
  by (auto simp: start_listener_def Let_def split: if_splits)

definition tidy :: "run_action list \<Rightarrow> bool" where
  "tidy acts \<longleftrightarrow> parts_ended acts = rev (parts_begun acts) \<and> distinct (parts_begun acts) \<and>
     (\<exists>up down. acts = up @ down \<and> parts_ended up = [] \<and> parts_begun down = [])"

lemma tidyI:
  assumes "parts_ended up = []" "parts_begun down = []" "parts_ended down = rev (parts_begun up)" "distinct (parts_begun up)"
  shows "tidy (up @ down)"
  unfolding tidy_def using assms by auto

lemma run_tidy:
  assumes "run e = Some (err, acts)"
  shows "tidy acts"
proof (cases "re_load e")
  case (Inl c)
  then show ?thesis using assms tidyI [of "[]" "[]"] by (auto simp: run_def)
next
  case (Inr cfg)
  obtain r1 a1 where 1: "startNATS (nc_Enabled (cf_NATS cfg)) (re_nats_err e) = (r1, a1)" by (rule prod.exhaust)
  note p1 = startNATS_parts [OF 1]
  show ?thesis
  proof (cases r1)
    case (Inl x)
    then have acts: "acts = ([Begins BusPart] @ a1) @ [Ends BusPart]" using assms Inr 1 by (simp add: run_def Let_def)
    show ?thesis unfolding acts by (rule tidyI) (use p1 Inl in auto)
  next
    case pub: (Inr pub)
    obtain r2 a2 where 2: "startPostgres (pc_Enabled (cf_Postgres cfg)) pub (re_pg_new_ok e) (re_pg_start_ok e) = (r2, a2)" by (rule prod.exhaust)
    note p2 = start_listener_parts [OF 2 [unfolded startPostgres_def]]
    let ?d1 = "(if pub then [Ends PublisherPart] else []) @ [Ends BusPart]" and ?u1 = "[Begins BusPart] @ a1 @ [Begins HttpPart]"
    show ?thesis
    proof (cases r2)
      case (Inl x)
      then have acts: "acts = (?u1 @ a2) @ ?d1" using assms Inr pub 1 2 by (simp add: run_def Let_def)
      show ?thesis unfolding acts by (rule tidyI) (use p1 p2 Inl pub in auto)
    next
      case pg: (Inr pg)
      obtain r3 a3 where 3: "startMySQL (mc_Enabled (cf_MySQL cfg)) pub (re_my_new_ok e) (re_my_start_ok e) = (r3, a3)" by (rule prod.exhaust)
      note p3 = start_listener_parts [OF 3 [unfolded startMySQL_def]]
      let ?d2 = "(if pg then [Ends PostgresPart] else []) @ ?d1"
      show ?thesis
      proof (cases r3)
        case (Inl x)
        then have acts: "acts = (?u1 @ a2 @ a3) @ ?d2" using assms Inr pub pg 1 2 3 by (simp add: run_def Let_def)
        show ?thesis unfolding acts by (rule tidyI) (use p1 p2 p3 Inl pub pg in auto)
      next
        case my: (Inr my)
        then have acts: "acts = (?u1 @ a2 @ a3 @ [Ends HttpPart]) @ (if my then [Ends MySQLPart] else []) @ ?d2"
          using assms Inr pub pg 1 2 3 by (auto simp: run_def Let_def split: option.splits)
        show ?thesis unfolding acts by (rule tidyI) (use p1 p2 p3 my pub pg in auto)
      qed
    qed
  qed
qed



definition demo_config :: Config where
  "demo_config = \<lparr>cf_Postgres = \<lparr>pc_Enabled = True, pc_URL = [], pc_Username = [], pc_Password = [], pc_SlotName = ''cdc_slot'', pc_PublicationName = ''p'',
       pc_CreateSlot = True, pc_CreatePublication = True, pc_Tables = [], pc_SnapshotMode = ''none'', pc_SnapshotChunkSize = 10000,
       pc_SnapshotBackupFile = [], pc_SnapshotStartLSN = [], pc_CaptureDDL = False, pc_SchemaHistoryDir = [], pc_SlotStatsIntervalSeconds = 15,
       pc_OwnerID = ''w'', pc_SlotCleanup = \<lparr>scf_Enabled = True, scf_IntervalMinutes = 10, scf_StaleAfterMinutes = 30,
         scf_RetainedWALThresholdBytes = 0, scf_DryRun = False, scf_SlotPattern = ''^cdc_'', scf_HeartbeatSeconds = 30\<rparr>\<rparr>,
     cf_MySQL = \<lparr>mc_Enabled = True, mc_Host = [], mc_Username = [], mc_Password = [], mc_Schema = [], mc_Tables = [], mc_SnapshotMode = ''none'',
       mc_SnapshotChunkSize = 10000, mc_SnapshotBackupFile = [], mc_OffsetFile = [], mc_CACert = []\<rparr>,
     cf_NATS = \<lparr>nc_Enabled = True, nc_URL = [], nc_StreamName = ''CDC'', nc_SubjectPrefix = ''cdc'', nc_MaxAgeMinutes = 5, nc_Storage = ''memory'',
       nc_Username = [], nc_Password = [], nc_InboxPrefix = []\<rparr>,
     cf_Health = \<lparr>hc_Port = 8080, hc_BindAddress = ''127.0.0.1''\<rparr>, cf_MetricsEnabled = True\<rparr>"

definition demo_run :: run_env where
  "demo_run = \<lparr>re_load = Load (\<lambda>_ _ _. Inr demo_config) None [], re_nats_err = None, re_pg_new_ok = True, re_pg_start_ok = True,
     re_ctx_done_starting = False, re_my_new_ok = True, re_my_start_ok = True, re_ctx_done = False, re_nats_failure = True,
     re_mysql_failure = False, re_pick = 0\<rparr>"



text \<open>The observer of a listener is wired before the listener is started, so no event is published unobserved.\<close>

lemma wired_before_start:
  assumes "start_listener part e_new e_start enabled True new_ok start_ok = (r, acts)"
  shows "acts = [] \<or> (\<exists>ys. acts = Wires part # Tries part # ys)"
  using assms by (auto simp: start_listener_def Let_def split: if_splits)

text \<open>The program reports success only when it was told to stop.\<close>

lemma run_succeeds:
  assumes "run e = Some (None, acts)"
  shows "re_ctx_done e \<or> re_ctx_done_starting e"
proof -
  have "re_ctx_done e" if "waitForShutdown (re_ctx_done e) n m k = Some None" for n m k
    using that by (auto simp: waitForShutdown_def Let_def nth_append nth_Cons' mod_less_divisor split: if_splits)
  then show ?thesis
    using assms by (auto simp: run_def Let_def split: sum.splits prod.splits option.splits if_splits)
qed

end
