(* ===== verification/Pg_Fleet.thy ===== *)
theory Pg_Fleet
  imports Pg_Slots
begin

text \<open>
  Several watchers on one PostgreSQL server: the queries of \<^verbatim>\<open>slotcleanup.go\<close> and \<^verbatim>\<open>slotstats.go\<close> over the server's tables, and the watchers'
  registrations, heartbeats, releases and cleanup passes as steps on those tables. The part of the server the queries read is \<open>pg_server\<close>; its slots are an
  association list because \<^verbatim>\<open>pg_replication_slots\<close> has one row per name.
\<close>

section \<open>The queries\<close>

record pg_slot =
  pgs_active :: bool
  pgs_logical :: bool
  pgs_database :: gostring
  pgs_restart :: "gostring option"
  pgs_confirmed :: "gostring option"
  pgs_status :: "gostring option"
  pgs_safe :: "int option"

record pg_server =
  pv_slots :: "(gostring \<times> pg_slot) list"
  pv_owners :: owners
  pv_database :: gostring
  pv_in_recovery :: bool
  pv_receive_lsn :: gostring
  pv_current_lsn :: gostring

definition coalesce :: "'a option \<Rightarrow> 'a \<Rightarrow> 'a" where
  "coalesce x y = (case x of None \<Rightarrow> y | Some v \<Rightarrow> v)"

definition server_wal :: "pg_server \<Rightarrow> gostring" where
  "server_wal v = (if pv_in_recovery v then pv_receive_lsn v else pv_current_lsn v)"

definition slotCandidatesSQL :: "pg_server \<Rightarrow> candidate_row list" where
  "slotCandidatesSQL v =
     map (\<lambda>(name, s). \<lparr>cr_name = name, cr_active = pgs_active s, cr_restart = coalesce (pgs_restart s) [], cr_wal = server_wal v,
            cr_owner = map_option ow_owner (pv_owners v name), cr_heartbeat = map_option ow_heartbeat (pv_owners v name),
            cr_released = Option.bind (pv_owners v name) ow_released\<rparr>)
       (filter (\<lambda>(name, s). pgs_logical s \<and> pgs_database s = pv_database v) (pv_slots v))"

definition slotStatsSQL :: "gostring \<Rightarrow> pg_server \<Rightarrow> slot_row option" where
  "slotStatsSQL slotName v =
     map_option (\<lambda>s. \<lparr>row_confirmed = coalesce (pgs_confirmed s) [], row_restart = coalesce (pgs_restart s) [], row_active = pgs_active s,
         row_wal = server_wal v, row_status = coalesce (pgs_status s) [], row_safe = coalesce (pgs_safe s) (-1)\<rparr>)
       (map_of (pv_slots v) slotName)"

text \<open>
  \<^verbatim>\<open>pg_drop_replication_slot\<close> fails for a slot that does not exist or is active; \<open>exec_ok\<close> says whether the statement reaches the server.
\<close>

definition dropReplicationSlot :: "bool \<Rightarrow> gostring \<Rightarrow> pg_server \<Rightarrow> bool \<times> pg_server" where
  "dropReplicationSlot exec_ok name v = (case map_of (pv_slots v) name of
      None \<Rightarrow> (False, v)
    | Some s \<Rightarrow> if exec_ok \<and> \<not> pgs_active s then (True, v\<lparr>pv_slots := filter (\<lambda>(n, _). n \<noteq> name) (pv_slots v)\<rparr>) else (False, v))"

text \<open>A cleanup pass against the server: the query, the decisions, and the drops that succeed.\<close>

definition pass_on :: "int \<Rightarrow> (gostring \<Rightarrow> bool) \<Rightarrow> (gostring \<Rightarrow> u64 option) \<Rightarrow> slotCleaner \<Rightarrow> pg_server \<Rightarrow> slotCleaner \<times> pg_server" where
  "pass_on now exec_ok parse c v =
     (let (ok, dropped, c) = cleanupOnce now (\<lambda>n. fst (dropReplicationSlot (exec_ok n) n v)) (fetchSlotCandidates parse (slotCandidatesSQL v)) c
      in (c, fold (\<lambda>n v. snd (dropReplicationSlot True n v)) dropped v))"

lemma fetchSlotCandidates_all: "fetchSlotCandidates parse rs = Some cs \<Longrightarrow> map Some cs = map (scanSlotCandidate parse) rs"
  by (induction rs arbitrary: cs) (auto split: option.splits simp: bind_eq_Some_conv)

lemma scanSlotCandidate_name: "scanSlotCandidate parse r = Some c \<Longrightarrow> ca_Name c = cr_name r"
  by (auto simp: scanSlotCandidate_def split: option.splits)

lemma fetch_names:
  assumes "fetchSlotCandidates parse rs = Some cs"
  shows "map ca_Name cs = map cr_name rs"
  using assms
  by (induction rs arbitrary: cs) (auto simp: bind_eq_Some_conv dest: scanSlotCandidate_name)

text \<open>The candidates have distinct names, which the cleanup relies on, and each carries the owner row of its slot.\<close>

lemma candidates_distinct:
  assumes "fetchSlotCandidates parse (slotCandidatesSQL v) = Some cs" "distinct (map fst (pv_slots v))"
  shows "distinct (map ca_Name cs)"
proof -
  have "map cr_name (slotCandidatesSQL v) = map fst (filter (\<lambda>(name, s). pgs_logical s \<and> pgs_database s = pv_database v) (pv_slots v))"
    by (simp add: slotCandidatesSQL_def case_prod_unfold)
  then show ?thesis using assms(2) by (simp add: fetch_names [OF assms(1)] distinct_map_filter)
qed

lemma candidates_owner:
  assumes "fetchSlotCandidates parse (slotCandidatesSQL v) = Some cs" "c \<in> set cs"
  shows "ca_Owner c = pv_owners v (ca_Name c)"
proof -
  have "Some c \<in> set (map (scanSlotCandidate parse) (slotCandidatesSQL v))"
    using assms(2) unfolding fetchSlotCandidates_all [OF assms(1), symmetric] by simp
  then obtain r where r: "r \<in> set (slotCandidatesSQL v)" "scanSlotCandidate parse r = Some c" by auto
  obtain name where "cr_name r = name" "cr_owner r = map_option ow_owner (pv_owners v name)" "cr_heartbeat r = map_option ow_heartbeat (pv_owners v name)"
      "cr_released r = Option.bind (pv_owners v name) ow_released"
    using r(1) by (auto simp: slotCandidatesSQL_def)
  then show ?thesis using r(2) by (cases "pv_owners v name") (auto simp: scanSlotCandidate_def split: option.splits)
qed

section \<open>The fleet\<close>

text \<open>
  \<open>fl_live\<close> are the watchers that registered and were not stopped, \<open>fl_cleaners\<close> the cleaners by watcher. Time passes only while each live watcher has a
  heartbeat less than \<open>period\<close> old; what a watcher that is not live still executes, and a failing statement, changes nothing that matters. A pass of a cleaner
  is one step.
\<close>

record fleet =
  fl_now :: int
  fl_server :: pg_server
  fl_live :: "slotRegistry set"
  fl_cleaners :: "nat \<Rightarrow> slotCleaner"

definition with_owners :: "(owners \<Rightarrow> owners) \<Rightarrow> fleet \<Rightarrow> fleet" where
  "with_owners f F = F\<lparr>fl_server := (fl_server F)\<lparr>pv_owners := f (pv_owners (fl_server F))\<rparr>\<rparr>"

inductive fleet_step :: "int \<Rightarrow> (gostring \<Rightarrow> u64 option) \<Rightarrow> fleet \<Rightarrow> fleet \<Rightarrow> bool" for period parse where
  time: "fl_now F \<le> now \<Longrightarrow> \<forall>r \<in> fl_live F. \<forall>row. pv_owners (fl_server F) (sr_slot r) = Some row \<longrightarrow> now - ow_heartbeat row < period \<Longrightarrow>
     fleet_step period parse F (F\<lparr>fl_now := now\<rparr>)"
| starts: "sr_slot r \<notin> sr_slot ` fl_live F \<Longrightarrow>
     fleet_step period parse F ((with_owners (register (fl_now F) r) F)\<lparr>fl_live := insert r (fl_live F)\<rparr>)"
| beats: "fleet_step period parse F (with_owners (heartbeat (fl_now F) r) F)"
| stops: "fleet_step period parse F ((with_owners (release (fl_now F) r) F)\<lparr>fl_live := fl_live F - {r}\<rparr>)"
| slots_change: "distinct (map fst slots) \<Longrightarrow> fst ` set (pv_slots (fl_server F)) \<subseteq> fst ` set slots \<Longrightarrow>
     fleet_step period parse F (F\<lparr>fl_server := (fl_server F)\<lparr>pv_slots := slots\<rparr>\<rparr>)"
| server_moves: "fleet_step period parse F (F\<lparr>fl_server := (fl_server F)\<lparr>pv_in_recovery := rec, pv_receive_lsn := a, pv_current_lsn := b\<rparr>\<rparr>)"
| cleans: "pass_on (fl_now F) exec_ok parse (fl_cleaners F i) (fl_server F) = (c, v) \<Longrightarrow>
     fleet_step period parse F (F\<lparr>fl_server := v, fl_cleaners := (fl_cleaners F)(i := c)\<rparr>)"

abbreviation fleet_reach :: "int \<Rightarrow> (gostring \<Rightarrow> u64 option) \<Rightarrow> fleet \<Rightarrow> fleet \<Rightarrow> bool" where
  "fleet_reach period parse \<equiv> (fleet_step period parse)\<^sup>*\<^sup>*"

definition fleet_inv :: "int \<Rightarrow> fleet \<Rightarrow> bool" where
  "fleet_inv period F \<longleftrightarrow> 0 < period \<and> distinct (map fst (pv_slots (fl_server F))) \<and> inj_on sr_slot (fl_live F) \<and>
     (\<forall>i. period \<le> or_staleAfter (sc_rules (fl_cleaners F i))) \<and>
     (\<forall>r \<in> fl_live F. \<exists>h. pv_owners (fl_server F) (sr_slot r) = Some \<lparr>ow_owner = sr_owner r, ow_heartbeat = h, ow_released = None\<rparr> \<and> fl_now F - h < period)"

lemma update_own_other: "sr_slot r' \<noteq> n \<Longrightarrow> update_own r' f t n = t n"
  by (auto simp: update_own_def split: option.split)

lemma dropReplicationSlot_frame:
  "pv_owners (snd (dropReplicationSlot ok n v)) = pv_owners v"
  "distinct (map fst (pv_slots v)) \<Longrightarrow> distinct (map fst (pv_slots (snd (dropReplicationSlot ok n v))))"
  "x \<in> set (pv_slots v) \<Longrightarrow> fst x \<noteq> n \<Longrightarrow> x \<in> set (pv_slots (snd (dropReplicationSlot ok n v)))"
  by (auto simp: dropReplicationSlot_def distinct_map_filter split: option.split)

lemma drops_frame:
  "pv_owners (fold (\<lambda>n v. snd (dropReplicationSlot True n v)) ns v) = pv_owners v"
  "distinct (map fst (pv_slots v)) \<Longrightarrow> distinct (map fst (pv_slots (fold (\<lambda>n v. snd (dropReplicationSlot True n v)) ns v)))"
  "x \<in> set (pv_slots v) \<Longrightarrow> fst x \<notin> set ns \<Longrightarrow> x \<in> set (pv_slots (fold (\<lambda>n v. snd (dropReplicationSlot True n v)) ns v))"
  by (induction ns arbitrary: v) (simp_all add: dropReplicationSlot_frame)

text \<open>What a pass drops is not the slot of a live watcher.\<close>

lemma pass_spares_live:
  assumes "fleet_inv period F" "pass_on (fl_now F) exec_ok parse (fl_cleaners F i) (fl_server F) = (c, v)"
  shows "sc_rules c = sc_rules (fl_cleaners F i)" "pv_owners v = pv_owners (fl_server F)" "distinct (map fst (pv_slots v))"
    "r \<in> fl_live F \<Longrightarrow> x \<in> set (pv_slots (fl_server F)) \<Longrightarrow> fst x = sr_slot r \<Longrightarrow> x \<in> set (pv_slots v)"
proof -
  let ?now = "fl_now F" and ?s = "fl_cleaners F i" and ?v = "fl_server F"
  let ?ok = "\<lambda>n. fst (dropReplicationSlot (exec_ok n) n ?v)" and ?fetched = "fetchSlotCandidates parse (slotCandidatesSQL ?v)"
  obtain ok dropped where o: "cleanupOnce ?now ?ok ?fetched ?s = (ok, dropped, c)" and v: "v = fold (\<lambda>n v. snd (dropReplicationSlot True n v)) dropped ?v"
    using assms(2) by (auto simp: pass_on_def split: prod.splits)
  have d: "distinct (map fst (pv_slots ?v))" using assms(1) by (simp add: fleet_inv_def)
  have "c = snd (snd (cleanupOnce ?now ?ok ?fetched ?s))" by (simp add: o)
  then show "sc_rules c = sc_rules ?s" by (cases ?fetched) (simp_all add: cleanupOnce_def)
  show "pv_owners v = pv_owners ?v" "distinct (map fst (pv_slots v))" using d by (simp_all add: v drops_frame)
  show "x \<in> set (pv_slots v)" if r: "r \<in> fl_live F" and x: "x \<in> set (pv_slots ?v)" "fst x = sr_slot r"
  proof -
    have "sr_slot r \<notin> set dropped"
    proof
      assume n: "sr_slot r \<in> set dropped"
      then obtain cs where cs: "?fetched = Some cs" "cleanup_loop ?now ?ok cs ?s = (ok, dropped, c)"
        using o by (cases ?fetched) (auto simp: cleanupOnce_def)
      then have "sr_slot r \<in> set (fst (snd (cleanup_loop ?now ?ok cs ?s)))" using n by simp
      from cleanup_loop_dropped [OF candidates_distinct [OF cs(1) d] this]
      obtain cand since where c: "cand \<in> set cs" "ca_Name cand = sr_slot r" "may_drop ?now ?s cand since" by blast
      obtain h where "ca_Owner cand = Some \<lparr>ow_owner = sr_owner r, ow_heartbeat = h, ow_released = None\<rparr>" "?now - h < period"
        using candidates_owner [OF cs(1) c(1)] c(2) assms(1) r by (auto simp: fleet_inv_def)
      moreover have "period \<le> or_staleAfter (sc_rules ?s)" using assms(1) by (simp add: fleet_inv_def)
      ultimately show False using c(3) by (simp add: may_drop_def)
    qed
    then show ?thesis using x by (simp add: v drops_frame(3))
  qed
qed

lemma fleet_step_inv:
  assumes "fleet_step period parse F F'" "fleet_inv period F"
  shows "fleet_inv period F'"
  using assms(1)
proof (cases rule: fleet_step.cases)
  case (time now)
  then show ?thesis using assms(2) by (fastforce simp: fleet_inv_def)
next
  case (starts r)
  then have "sr_slot r' \<noteq> sr_slot r" if "r' \<in> fl_live F" for r' using that starts(2) by (metis image_eqI)
  then show ?thesis using assms(2) starts by (auto simp: fleet_inv_def with_owners_def register_def)
next
  case (beats r)
  have "\<exists>h'. heartbeat (fl_now F) r t (sr_slot r') = Some \<lparr>ow_owner = sr_owner r', ow_heartbeat = h', ow_released = None\<rparr> \<and> fl_now F - h' < period"
    if "t (sr_slot r') = Some \<lparr>ow_owner = sr_owner r', ow_heartbeat = h, ow_released = None\<rparr>" "fl_now F - h < period" for r' h and t :: owners
    using that assms(2) by (cases "sr_slot r = sr_slot r'") (auto simp: heartbeat_def update_own_def fleet_inv_def split: option.split)
  then show ?thesis using assms(2) unfolding beats fleet_inv_def with_owners_def by fastforce
next
  case (stops r)
  have "release (fl_now F) r t (sr_slot r') = Some \<lparr>ow_owner = sr_owner r', ow_heartbeat = h, ow_released = None\<rparr>"
    if "t (sr_slot r') = Some \<lparr>ow_owner = sr_owner r', ow_heartbeat = h, ow_released = None\<rparr>" "r' \<noteq> r" for r' h and t :: owners
    using that by (cases r; cases r') (auto simp: release_def update_own_def split: option.split)
  then show ?thesis using assms(2) unfolding stops fleet_inv_def with_owners_def by (fastforce intro: inj_on_diff)
next
  case (cleans exec_ok i c v)
  note p = pass_spares_live(1-3) [OF assms(2) cleans(2)]
  show ?thesis using assms(2) p unfolding cleans(1) fleet_inv_def by simp
qed (use assms(2) in \<open>auto simp: fleet_inv_def\<close>)

lemma fleet_reach_inv: "fleet_reach period parse F F' \<Longrightarrow> fleet_inv period F \<Longrightarrow> fleet_inv period F'"
  by (induction rule: rtranclp_induct) (auto intro: fleet_step_inv)


section \<open>Properties\<close>


definition demo_watcher :: slotRegistry where
  "demo_watcher = \<lparr>sr_slot = ''cdc_b'', sr_owner = ''w''\<rparr>"

definition demo_fleet :: fleet where
  "demo_fleet = \<lparr>fl_now = 0,
     fl_server = \<lparr>pv_slots = [(''cdc_b'', \<lparr>pgs_active = False, pgs_logical = True, pgs_database = ''db'', pgs_restart = Some ''0/1'', pgs_confirmed = None,
         pgs_status = None, pgs_safe = None\<rparr>)], pv_owners = Map.empty, pv_database = ''db'', pv_in_recovery = False, pv_receive_lsn = [], pv_current_lsn = ''0/9''\<rparr>,
     fl_live = {}, fl_cleaners = (\<lambda>_. demo_cleaner)\<rparr>"


text \<open>
  The premise on heartbeats is not met during the start of a watcher: it registers once, then takes the snapshot, and only then starts the heartbeat. A
  snapshot that takes longer than the stale period of another watcher's cleaner loses the slot, with the changes made meanwhile.
\<close>

lemma heartbeat_after_snapshot:
  assumes "pg_Start e = (None, acts)" "ActHeartbeat \<in> set acts"
  shows "\<exists>before after. acts = before @ ActSnapshot # after \<and> ActHeartbeat \<in> set after \<and> ActHeartbeat \<notin> set before \<and> ActRegister \<in> set before"
proof -
  have "ActHeartbeat \<in> set acts \<Longrightarrow> \<exists>before after. acts = before @ ActSnapshot # after \<and> ActHeartbeat \<in> set after \<and> ActHeartbeat \<notin> set before \<and> ActRegister \<in> set before"
    using assms(1) unfolding pg_Start_def Let_def
    by (auto split: if_splits simp: Cons_eq_append_conv append_eq_Cons_conv)
  then show ?thesis using assms(2) .
qed

theorem slow_snapshot_loses_slot:
  assumes "or_staleAfter rules \<le> now - t0" "sr_slot r \<noteq> or_ownSlot rules" "or_pattern rules (sr_slot r)"
    "or_retainedThreshold rules = 0 \<or> or_retainedThreshold rules < retained"
  shows "decide now rules (candidate_of (register t0 r t) (sr_slot r) False retained) seen = Drop ''heartbeat stale''"
  using assms by (auto simp: decide_def candidate_of_def register_def)

text \<open>
  The decisions of a pass use the rows fetched at its beginning. A watcher that is restarted while a pass runs registers again, but the pass still sees the
  release of its stop and drops the slot, which is inactive until the watcher streams.
\<close>

theorem restart_races_cleanup:
  assumes "candidate_of (release t1 r (register t0 r t)) (sr_slot r) False retained = c" "\<not> sc_dryRun s" "drop_ok (sr_slot r)"
    "sr_slot r \<noteq> or_ownSlot (sc_rules s)" "or_pattern (sc_rules s) (sr_slot r)"
    "or_retainedThreshold (sc_rules s) = 0 \<or> or_retainedThreshold (sc_rules s) < retained"
  shows "fst (snd (cleanup_loop now drop_ok [c] s)) = [sr_slot r] \<and>
    register t2 r (release t1 r (register t0 r t)) (sr_slot r) = Some \<lparr>ow_owner = sr_owner r, ow_heartbeat = t2, ow_released = None\<rparr>"
proof -
  have c: "c = \<lparr>ca_Name = sr_slot r, ca_Active = False, ca_Retained = retained, ca_Owner = Some \<lparr>ow_owner = sr_owner r, ow_heartbeat = t0, ow_released = Some t1\<rparr>\<rparr>"
    using assms(1) by (simp add: candidate_of_def release_def register_def update_own_def)
  have "decide now (sc_rules s) c seen = Drop ''released by owner''" for seen
    using assms(4-6) by (auto simp: c decide_def)
  then have "fst (snd (cleanup_loop now drop_ok [c] s)) = [sr_slot r]"
    using assms(2,3) by (simp add: cleanup_loop.simps dropSlot_def Let_def case_prod_unfold) (simp add: c)
  then show ?thesis by (simp add: register_def)
qed

end
