(* ===== verification/Pg_Life.thy ===== *)
theory Pg_Life
  imports Pg_Fleet
begin

text \<open>
  The life of a PostgreSQL listener around its session (\<^verbatim>\<open>postgres/listener.go\<close>): the goroutines \<^verbatim>\<open>Start\<close> leaves running, \<^verbatim>\<open>Stop\<close>, and what is said to the server
  when replication starts. Of the connections only whether they are open matters.
\<close>

section \<open>Start and stop\<close>

datatype goroutine = ListenLoop | SampleSlotStats | HeartbeatLoop | CleanerLoop

record pg_life =
  lf_running :: bool
  lf_goroutines :: "goroutine list"
  lf_conn :: bool
  lf_maintenance :: bool
  lf_registry :: "slotRegistry option"
  lf_cleaner :: "slotCleaner option"

definition heartbeat_interval :: "int \<Rightarrow> int" where
  "heartbeat_interval heartbeatSeconds = (if 0 < heartbeatSeconds then seconds heartbeatSeconds else seconds 30)"

definition startSlotMaintenance :: "pg_life \<Rightarrow> pg_life" where
  "startSlotMaintenance l = (if lf_registry l = None then l
     else let l = l\<lparr>lf_goroutines := lf_goroutines l @ [HeartbeatLoop]\<rparr> in
       if lf_cleaner l = None then l else l\<lparr>lf_goroutines := lf_goroutines l @ [CleanerLoop]\<rparr>)"

text \<open>The end of \<^verbatim>\<open>Start\<close>, from the maintenance pool on.\<close>

definition launch :: "pg_life \<Rightarrow> pg_life" where
  "launch l = startSlotMaintenance (l\<lparr>lf_maintenance := True, lf_running := True, lf_goroutines := lf_goroutines l @ [ListenLoop, SampleSlotStats]\<rparr>)"

text \<open>Cancelling the context and waiting ends all goroutines; the statement of the release uses the pool, which is closed after it.\<close>

definition pg_Stop :: "int \<Rightarrow> bool \<Rightarrow> pg_life \<Rightarrow> owners \<Rightarrow> pg_life \<times> owners" where
  "pg_Stop now exec_ok l t =
     (if \<not> lf_running l then (l, t)
      else let l = l\<lparr>lf_running := False, lf_goroutines := [], lf_conn := False\<rparr>; t = releaseSlotOwnership now exec_ok (lf_registry l) t
           in (l\<lparr>lf_maintenance := False\<rparr>, t))"

lemma launch_running: "lf_running (launch l)"
  by (simp add: launch_def startSlotMaintenance_def Let_def)

lemma Stop_running:
  "lf_running l \<Longrightarrow> pg_Stop now ok l t =
     (l\<lparr>lf_running := False, lf_goroutines := [], lf_conn := False, lf_maintenance := False\<rparr>, releaseSlotOwnership now ok (lf_registry l) t)"
  by (simp add: pg_Stop_def Let_def)

lemma Stop_ends_all: "pg_Stop now ok (launch l) t = (l', t') \<Longrightarrow> \<not> lf_running l' \<and> lf_goroutines l' = [] \<and> \<not> lf_conn l' \<and> \<not> lf_maintenance l'"
  by (auto simp: Stop_running [OF launch_running])

lemma Stop_once: "pg_Stop now ok l t = (l', t') \<Longrightarrow> pg_Stop now' ok' l' t'' = (l', t'')"
  by (auto simp: pg_Stop_def Let_def split: if_splits)

text \<open>
  A deliberate stop gives the slot up: the next cleanup of another watcher may drop it at once, without waiting for the stale period.
\<close>

lemma stopped_slot_reclaimed:
  assumes "lf_running l" "lf_registry l = Some r" "t (sr_slot r) = Some \<lparr>ow_owner = sr_owner r, ow_heartbeat = h, ow_released = None\<rparr>"
    "pg_Stop now True l t = (l', t')" "sr_slot r \<noteq> or_ownSlot rules" "or_pattern rules (sr_slot r)" "or_retainedThreshold rules = 0"
  shows "decide now' rules (candidate_of t' (sr_slot r) False retained) seen = Drop ''released by owner''"
  using assms by (auto simp: Stop_running releaseSlotOwnership_def release_def update_own_def candidate_of_def decide_def Let_def)

text \<open>A watcher with the default settings sends sixty heartbeats per stale period of a cleaner with the default settings.\<close>

lemma default_heartbeat_frequent:
  "pg_newSlotCleaner cfg compiled = Some s \<Longrightarrow> cc_StaleAfterMinutes cfg = 0 \<Longrightarrow> or_staleAfter (sc_rules s) = 60 * heartbeat_interval 0"
  by (auto simp: pg_newSlotCleaner_def minutesOrDefault_def heartbeat_interval_def seconds_def)

section \<open>Starting replication\<close>

datatype open_error = BadPublicationName | BadSlotName | ConnectFailed

definition openReplicationConn :: "gostring \<Rightarrow> gostring \<Rightarrow> bool \<Rightarrow> open_error option" where
  "openReplicationConn publication slot connect_ok =
     (if \<not> validateIdentifier publication then Some BadPublicationName
      else if \<not> validateIdentifier slot then Some BadSlotName
      else if \<not> connect_ok then Some ConnectFailed else None)"

definition replication_args :: "gostring \<Rightarrow> gostring list" where
  "replication_args publication = [''proto_version '' @ [CHR 0x27] @ ''1'' @ [CHR 0x27], ''publication_names '' @ [CHR 0x27] @ publication @ [CHR 0x27]]"

text \<open>The outcomes of the two commands are arguments; the result says whether replication runs and which plugin arguments the server was sent, if any.\<close>

definition startReplication :: "bool \<Rightarrow> bool \<Rightarrow> gostring \<Rightarrow> bool \<times> gostring list option" where
  "startReplication identify_ok start_ok publication =
     (if \<not> identify_ok then (False, None) else (start_ok, Some (replication_args publication)))"

lemma identifier_chars: "validateIdentifier s \<Longrightarrow> c \<in> set s \<Longrightarrow> is_letter c \<or> is_digit c"
  by (cases s) (auto simp: validateIdentifier_def list_all_iff)

text \<open>
  The names of the configuration cannot break out of the text they are put into: replication only starts on a connection that was opened, and then the only quotes in
  the arguments are those written around the values.
\<close>

theorem replication_args_closed:
  assumes "openReplicationConn publication slot ok = None" "startReplication i st publication = (r, Some args)" "a \<in> set args"
  shows "length (filter (\<lambda>c. c = CHR 0x27) a) = 2 \<and> last a = CHR 0x27"
proof -
  have "validateIdentifier publication" using assms(1) by (auto simp: openReplicationConn_def split: if_splits)
  then have "\<forall>c \<in> set publication. c \<noteq> CHR 0x27" using identifier_chars by (fastforce simp: is_letter_def is_digit_def)
  then have "filter (\<lambda>c. c = CHR 0x27) publication = []" by (simp add: filter_empty_conv)
  then show ?thesis using assms(2,3) by (auto simp: startReplication_def replication_args_def split: if_splits)
qed

end
