(* ===== verification/Pg_Ddl.thy ===== *)
theory Pg_Ddl
  imports Pg_Slots
begin

text \<open>
  The capture of DDL statements: the log table and the event triggers \<^verbatim>\<open>createDDLTriggerIfNotExists\<close> installs (\<^verbatim>\<open>postgres/setup.go\<close>), the two trigger
  functions as functions on the log table, and the way of a log row through replication and parser to an event. Columns that may be NULL are options.
\<close>

section \<open>The log table and the triggers\<close>

record ddl_row =
  dr_id :: nat
  dr_command_tag :: "gostring option"
  dr_object_type :: "gostring option"
  dr_schema_name :: "gostring option"
  dr_object_identity :: "gostring option"
  dr_query :: "gostring option"

record ddl_capture =
  dc_table :: bool
  dc_trigger :: bool
  dc_dropTrigger :: bool
  dc_next :: nat
  dc_log :: "ddl_row list"

text \<open>The script is one statement to the server, which runs it as a whole or not at all; what exists already is kept.\<close>

definition createDDLTriggerIfNotExists :: "bool \<Rightarrow> ddl_capture \<Rightarrow> setup_error option \<times> ddl_capture" where
  "createDDLTriggerIfNotExists exec_ok c =
     (if \<not> exec_ok then (Some ExecError, c)
      else (None, c\<lparr>dc_table := True, dc_trigger := True, dc_dropTrigger := True\<rparr>))"

definition log_insert :: "gostring option \<Rightarrow> gostring option \<Rightarrow> gostring option \<Rightarrow> gostring option \<Rightarrow> gostring option \<Rightarrow> ddl_capture \<Rightarrow> ddl_capture" where
  "log_insert tag type sch ident query c =
     c\<lparr>dc_log := dc_log c @ [\<lparr>dr_id = dc_next c, dr_command_tag = tag, dr_object_type = type, dr_schema_name = sch, dr_object_identity = ident, dr_query = query\<rparr>],
       dc_next := Suc (dc_next c)\<rparr>"

text \<open>
  A row of \<^verbatim>\<open>pg_event_trigger_ddl_commands()\<close>; its other columns are never NULL. For a record, \<^verbatim>\<open>IS NOT NULL\<close> holds only when every column is set.
\<close>

record ddl_command =
  co_command_tag :: "gostring option"
  co_object_type :: "gostring option"
  co_schema_name :: "gostring option"
  co_object_identity :: "gostring option"

definition command_not_null :: "ddl_command \<Rightarrow> bool" where
  "command_not_null co \<longleftrightarrow> co_command_tag co \<noteq> None \<and> co_object_type co \<noteq> None \<and> co_schema_name co \<noteq> None \<and> co_object_identity co \<noteq> None"

definition cdc_ddl_log_fn :: "ddl_command list \<Rightarrow> gostring \<Rightarrow> ddl_capture \<Rightarrow> ddl_capture" where
  "cdc_ddl_log_fn commands query c = (case commands of
      [] \<Rightarrow> c
    | obj # _ \<Rightarrow>
        if command_not_null obj
        then log_insert (co_command_tag obj) (co_object_type obj) (co_schema_name obj) (co_object_identity obj) (Some query) c
        else c)"

text \<open>A row of \<^verbatim>\<open>pg_event_trigger_dropped_objects()\<close>, the columns used.\<close>

record dropped_object =
  do_object_type :: "gostring option"
  do_schema_name :: "gostring option"
  do_object_identity :: "gostring option"

definition cdc_ddl_drop_fn :: "dropped_object list \<Rightarrow> ddl_capture \<Rightarrow> ddl_capture" where
  "cdc_ddl_drop_fn objs c = fold (\<lambda>obj. log_insert (Some ''DROP'') (do_object_type obj) (do_schema_name obj) (do_object_identity obj) None) objs c"

text \<open>The server fires an installed trigger at the end of a command, and for the objects it dropped.\<close>

definition ddl_command_end :: "ddl_command list \<Rightarrow> gostring \<Rightarrow> ddl_capture \<Rightarrow> ddl_capture" where
  "ddl_command_end commands query c = (if dc_trigger c then cdc_ddl_log_fn commands query c else c)"

definition sql_drop :: "dropped_object list \<Rightarrow> ddl_capture \<Rightarrow> ddl_capture" where
  "sql_drop objs c = (if dc_dropTrigger c then cdc_ddl_drop_fn objs c else c)"

section \<open>A log row in the replication stream\<close>

definition nullable :: "gostring option \<Rightarrow> colval" where
  "nullable x = (case x of None \<Rightarrow> Null | Some s \<Rightarrow> Text s)"

definition ddl_tuple :: "ddl_row \<Rightarrow> colval list" where
  "ddl_tuple r = [Text (itoa (dr_id r)), nullable (dr_command_tag r), nullable (dr_object_type r), nullable (dr_schema_name r),
     nullable (dr_object_identity r), nullable (dr_query r)]"

definition ddl_relation :: "gostring \<Rightarrow> RelationInfo" where
  "ddl_relation ns = \<lparr>ri_Namespace = ns, ri_Name = ddlLogTable,
     ri_Columns = [''id'', ''command_tag'', ''object_type'', ''schema_name'', ''object_identity'', ''query''],
     ri_TypeOIDs = [23, 25, 25, 25, 25, 25], ri_KeyColumns = [''id'']\<rparr>"

definition short_text :: "gostring option \<Rightarrow> bool" where
  "short_text x \<longleftrightarrow> (case x of None \<Rightarrow> True | Some s \<Rightarrow> utf8_valid s \<and> length s < 2 ^ 32)"

definition ddl_row_ok :: "ddl_row \<Rightarrow> bool" where
  "ddl_row_ok r \<longleftrightarrow> length (itoa (dr_id r)) < 2 ^ 32 \<and> short_text (dr_command_tag r) \<and> short_text (dr_object_type r) \<and> short_text (dr_schema_name r) \<and>
     short_text (dr_object_identity r) \<and> short_text (dr_query r)"

text \<open>What a decoded member tells of a column: \<^verbatim>\<open>null\<close>, or the text.\<close>

definition member_of :: "gostring \<Rightarrow> gostring option \<Rightarrow> (gostring \<times> gostring) list \<Rightarrow> bool" where
  "member_of k x ms \<longleftrightarrow> (\<exists>txt. (k, txt) \<in> set ms \<and> (case x of None \<Rightarrow> txt = ''null'' | Some s \<Rightarrow> unmarshal_string txt = Some s))"

lemma text_oid: "text_column 25"
  by (simp add: text_column_def isNumericOID_def isJSONOID_def boolOID_def)

lemma nullable_decodes: "short_text x \<Longrightarrow> case x of None \<Rightarrow> col_json (25, nullable x) = ''null'' | Some s \<Rightarrow> unmarshal_string (col_json (25, nullable x)) = Some s"
  using text_column_decodes [OF text_oid] by (cases x) (auto simp: nullable_def short_text_def)

lemma ddl_tuple_ok: "ddl_row_ok r \<Longrightarrow> tuple_ok (ddl_tuple r)"
  by (auto simp: tuple_ok_def ddl_tuple_def ddl_row_ok_def col_ok_def nullable_def short_text_def split: option.splits)

lemma itoa_number: "json_valid_upto 0 (itoa n) \<and> strip (itoa n) = itoa n"
proof -
  have "strip (itoa n) = itoa n" using strip_itoa_int [of "int n"] by (simp add: itoa_int_def)
  then show ?thesis using embeds_valid [OF embeds_itoa [of 0 n]] by simp
qed

lemma ddl_members:
  "tuple_members (ddl_relation ns) False 0 (ddl_tuple r) =
     [(''id'', 23, Text (itoa (dr_id r))), (''command_tag'', 25, nullable (dr_command_tag r)), (''object_type'', 25, nullable (dr_object_type r)),
      (''schema_name'', 25, nullable (dr_schema_name r)), (''object_identity'', 25, nullable (dr_object_identity r)), (''query'', 25, nullable (dr_query r))]"
  by (auto simp: ddl_tuple_def ddl_relation_def col_written_def col_name_def col_oid_def nullable_def split: option.splits)

lemma member_of_column:
  assumes "short_text x" "decoded_name k = k" "(k, 25, nullable x) \<in> set row"
  shows "member_of k x (map (\<lambda>(k, v). (decoded_name k, col_json v)) row)"
proof -
  have "(k, col_json (25, nullable x)) \<in> set (map (\<lambda>(k, v). (decoded_name k, col_json v)) row)"
    using assms(3) by (auto simp: assms(2) intro: rev_image_eqI)
  then show ?thesis using nullable_decodes [OF assms(1)] unfolding member_of_def by blast
qed

lemma ddl_row_event:
  assumes "captureDDL p" "relationMap p relID = Some (ddl_relation ns)" "ddl_row_ok r" "\<not> svc_closed s"
  shows "\<exists>e ms. Parse now io (enc_insert relID (ddl_tuple r)) lsn p = (Some e, [], p) \<and> ev_Type e = DDL \<and> ev_Schema e = ns \<and> fst (HandleEvent s e) \<and>
    unmarshal_map (ev_Data e) = Some ms \<and> member_of ''command_tag'' (dr_command_tag r) ms \<and> member_of ''object_type'' (dr_object_type r) ms \<and>
    member_of ''schema_name'' (dr_schema_name r) ms \<and> member_of ''object_identity'' (dr_object_identity r) ms \<and> member_of ''query'' (dr_query r) ms"
proof -
  let ?row = "tuple_members (ddl_relation ns) False 0 (ddl_tuple r)"
  let ?e = "NewEvent now DDL ns [] (row_object col_json ?row) ''DDL'' lsn"
  let ?ms = "map (\<lambda>(k, v). (decoded_name k, col_json v)) ?row"
  have num: "isNumericOID 23" "\<not> isNumericOID 25" "\<not> isJSONOID 25" by (simp_all add: isNumericOID_def isJSONOID_def)
  have "\<forall>(k, v) \<in> set ?row. pg_fits 9999 v"
    using num itoa_number by (auto simp: ddl_members nullable_def split: option.splits)
  then have dec: "unmarshal_map (row_object col_json ?row) = Some ?ms" by (rule pg_row.row_decodes) (simp add: max_nesting_depth_def)
  have "Parse now io (enc_insert relID (ddl_tuple r)) lsn p = (Some ?e, [], p)"
    using Parse_insert [OF assms(2) ddl_tuple_ok [OF assms(3)]] assms(1) by (simp add: ddl_relation_def)
  moreover have "fst (HandleEvent s ?e)" using assms(4) by (simp add: HandleEvent_def accepts_def NewEvent_def isTableEvent_def)
  moreover have "decoded_name k = k" if "k \<in> {''command_tag'', ''object_type'', ''schema_name'', ''object_identity'', ''query''}" for k
    using that by (auto simp: decoded_name_valid decode_rune.simps(2) rune_error_def)
  then have "member_of ''command_tag'' (dr_command_tag r) ?ms" "member_of ''object_type'' (dr_object_type r) ?ms" "member_of ''schema_name'' (dr_schema_name r) ?ms"
      "member_of ''object_identity'' (dr_object_identity r) ?ms" "member_of ''query'' (dr_query r) ?ms"
    using assms(3) by (simp_all only: member_of_column ddl_members ddl_row_ok_def list.set insert_iff simp_thms)
  ultimately show ?thesis using dec by (intro exI [of _ ?e] exI [of _ ?ms]) (simp add: NewEvent_def)
qed


section \<open>Properties\<close>

definition command_ok :: "ddl_command \<Rightarrow> bool" where
  "command_ok co \<longleftrightarrow> command_not_null co \<and> short_text (co_command_tag co) \<and> short_text (co_object_type co) \<and> short_text (co_schema_name co) \<and>
     short_text (co_object_identity co)"

text \<open>
  C21. A captured DDL statement reaches the bus as one event with its text. Once the triggers are installed, a statement whose first command has all its columns set adds
  exactly one row to the log table; the INSERT message for that row becomes a DDL event that the bus accepts, and whose data decodes to the command tag, the
  type, schema and identity of the object, and the query as it was sent.
\<close>

theorem ddl_statement_captured:
  assumes "createDDLTriggerIfNotExists True c0 = (None, c)" "command_ok obj" "short_text (Some query)" "length (itoa (dc_next c)) < 2 ^ 32"
    "captureDDL p" "relationMap p relID = Some (ddl_relation ns)" "\<not> svc_closed s"
  shows "\<exists>r e ms. dc_log (ddl_command_end (obj # others) query c) = dc_log c @ [r] \<and>
    Parse now io (enc_insert relID (ddl_tuple r)) lsn p = (Some e, [], p) \<and> ev_Type e = DDL \<and> fst (HandleEvent s e) \<and> unmarshal_map (ev_Data e) = Some ms \<and>
    member_of ''command_tag'' (co_command_tag obj) ms \<and> member_of ''object_type'' (co_object_type obj) ms \<and>
    member_of ''schema_name'' (co_schema_name obj) ms \<and> member_of ''object_identity'' (co_object_identity obj) ms \<and> member_of ''query'' (Some query) ms"
proof -
  let ?r = "\<lparr>dr_id = dc_next c, dr_command_tag = co_command_tag obj, dr_object_type = co_object_type obj, dr_schema_name = co_schema_name obj,
      dr_object_identity = co_object_identity obj, dr_query = Some query\<rparr>"
  have "dc_trigger c" using assms(1) by (auto simp: createDDLTriggerIfNotExists_def)
  then have "dc_log (ddl_command_end (obj # others) query c) = dc_log c @ [?r]"
    using assms(2) by (simp add: ddl_command_end_def cdc_ddl_log_fn_def log_insert_def command_ok_def)
  moreover have "ddl_row_ok ?r" using assms(2-4) by (simp add: ddl_row_ok_def command_ok_def)
  ultimately show ?thesis using ddl_row_event [OF assms(5,6) _ assms(7), of ?r now io lsn] by auto
qed

definition no_capture :: ddl_capture where
  "no_capture = \<lparr>dc_table = False, dc_trigger = False, dc_dropTrigger = False, dc_next = 1, dc_log = []\<rparr>"

definition create_table_t :: ddl_command where
  "create_table_t = \<lparr>co_command_tag = Some ''CREATE TABLE'', co_object_type = Some ''table'', co_schema_name = Some ''public'', co_object_identity = Some ''public.t''\<rparr>"

definition ddl_parser :: Parser where
  "ddl_parser = (NewParser [] True None)\<lparr>relationMap := [7 \<mapsto> ddl_relation ''public'']\<rparr>"

theorem ddl_statement_captured_witness:
  "\<exists>r e ms. dc_log (ddl_command_end [create_table_t] ''CREATE TABLE t ()'' (snd (createDDLTriggerIfNotExists True no_capture))) = [r] \<and>
     Parse 0 True (enc_insert 7 (ddl_tuple r)) ''0/1'' ddl_parser = (Some e, [], ddl_parser) \<and> unmarshal_map (ev_Data e) = Some ms \<and>
     member_of ''query'' (Some ''CREATE TABLE t ()'') ms"
proof -
  let ?c = "snd (createDDLTriggerIfNotExists True no_capture)"
  have c: "createDDLTriggerIfNotExists True no_capture = (None, ?c)" "dc_next ?c = 1" "dc_log ?c = []"
    by (simp_all add: createDDLTriggerIfNotExists_def no_capture_def)
  have ascii: "short_text (Some ''CREATE TABLE t ()'')" "command_ok create_table_t"
    by (simp_all add: command_ok_def command_not_null_def create_table_t_def short_text_def decode_rune.simps(2) rune_error_def)
  have p: "captureDDL ddl_parser" "relationMap ddl_parser 7 = Some (ddl_relation ''public'')" "\<not> svc_closed NewService"
    by (simp_all add: ddl_parser_def NewParser_def NewService_def)
  have "length (itoa (dc_next ?c)) < 2 ^ 32" by (simp add: c(2) itoa.simps [of "Suc 0"])
  then show ?thesis
    using ddl_statement_captured [OF c(1) ascii(2,1) _ p, of "[]" 0 True "''0/1''"] c(3) by fastforce
qed

text \<open>
  What is not captured. A command on an object without schema (a schema, a role, an extension) has no schema name, so the record is not \<^verbatim>\<open>NOT NULL\<close> and no row is
  written; of a statement with several commands only the first is logged. Dropped objects are logged one by one, without the statement.
\<close>

theorem schemaless_ddl_not_captured: "co_schema_name obj = None \<Longrightarrow> ddl_command_end (obj # others) query c = c"
  by (simp add: ddl_command_end_def cdc_ddl_log_fn_def command_not_null_def)

lemma later_commands_not_captured: "ddl_command_end (obj # others) query c = ddl_command_end [obj] query c"
  by (simp add: ddl_command_end_def cdc_ddl_log_fn_def)

lemma log_inserts:
  "dc_log (cdc_ddl_drop_fn objs c) = dc_log c @ map (\<lambda>(i, obj). \<lparr>dr_id = i, dr_command_tag = Some ''DROP'', dr_object_type = do_object_type obj,
     dr_schema_name = do_schema_name obj, dr_object_identity = do_object_identity obj, dr_query = None\<rparr>) (enumerate (dc_next c) objs)"
  by (induction objs arbitrary: c) (simp_all add: cdc_ddl_drop_fn_def log_insert_def)

text \<open>Installing the triggers twice is installing them once, and a failure leaves everything as it was.\<close>

lemma createDDLTrigger_idempotent:
  "createDDLTriggerIfNotExists True (snd (createDDLTriggerIfNotExists True c)) = createDDLTriggerIfNotExists True c"
  "snd (createDDLTriggerIfNotExists False c) = c"
  by (simp_all add: createDDLTriggerIfNotExists_def)

end
