(* ===== verification/Metrics.thy ===== *)
theory Metrics
  imports Pg_Slots Nats_Publisher
begin

text \<open>
  The counters of \<^verbatim>\<open>internal/metrics/metrics.go\<close> and the operations that count: the bus (\<^verbatim>\<open>HandleEvent\<close>), the publisher and the slot maintenance, each
  with the counters as further state. A counter vector is a function of its label. Erasing the counters gives the operations of the component theories, and the
  counters tell what those operations did. The slot gauges are in \<open>Pg_Slots\<close>.
\<close>

record metrics =
  me_EventsTotal :: "gostring \<Rightarrow> nat"
  me_NATSPublished :: "gostring \<Rightarrow> nat"
  me_OversizedEvents :: "gostring \<Rightarrow> nat"
  me_NATSErrors :: nat
  me_SlotsRecreated :: nat
  me_SlotsDropped :: nat

definition inc_label :: "gostring \<Rightarrow> (gostring \<Rightarrow> nat) \<Rightarrow> gostring \<Rightarrow> nat" where
  "inc_label l c = c(l := Suc (c l))"

definition IncEvent :: "gostring \<Rightarrow> metrics \<Rightarrow> metrics" where
  "IncEvent eventType m = m\<lparr>me_EventsTotal := inc_label eventType (me_EventsTotal m)\<rparr>"

definition IncNATSPublished :: "gostring \<Rightarrow> metrics \<Rightarrow> metrics" where
  "IncNATSPublished eventType m = m\<lparr>me_NATSPublished := inc_label eventType (me_NATSPublished m)\<rparr>"

definition IncOversizedEvent :: "gostring \<Rightarrow> metrics \<Rightarrow> metrics" where
  "IncOversizedEvent eventType m = m\<lparr>me_OversizedEvents := inc_label eventType (me_OversizedEvents m)\<rparr>"

definition IncNATSError :: "metrics \<Rightarrow> metrics" where
  "IncNATSError m = m\<lparr>me_NATSErrors := Suc (me_NATSErrors m)\<rparr>"

definition IncSlotRecreated :: "metrics \<Rightarrow> metrics" where
  "IncSlotRecreated m = m\<lparr>me_SlotsRecreated := Suc (me_SlotsRecreated m)\<rparr>"

definition IncSlotDropped :: "metrics \<Rightarrow> metrics" where
  "IncSlotDropped m = m\<lparr>me_SlotsDropped := Suc (me_SlotsDropped m)\<rparr>"

lemmas metrics_defs = IncEvent_def IncNATSPublished_def IncOversizedEvent_def IncNATSError_def IncSlotRecreated_def IncSlotDropped_def inc_label_def

section \<open>The operations that count\<close>

definition HandleEvent_m :: "Service \<Rightarrow> Event \<Rightarrow> metrics \<Rightarrow> (bool \<times> nat list) \<times> metrics" where
  "HandleEvent_m s e m =
     (if svc_closed s then ((False, []), m)
      else if isTableEvent (ev_Type e) \<and> ev_Data e \<noteq> [] \<and> \<not> json_valid (ev_Data e) then ((False, []), m)
      else ((True, targets s e), IncEvent (EventType_String (ev_Type e)) m))"

fun publishWithRetry_m :: "message \<Rightarrow> int \<Rightarrow> round list \<Rightarrow> Publisher \<Rightarrow> metrics \<Rightarrow> wait run \<times> metrics" where
  "publishWithRetry_m msg delay [] p m = ((Blocked, [], p), m)"
| "publishWithRetry_m msg delay (r # rs) p m =
     (let p = attempted msg r p; err = ro_result r in
      if err = None \<or> isTooLarge err then ((Returned err, rs, p), m)
      else let m = IncNATSError m in
        if ro_lost r
        then (case waitConnected (ro_polls r) of
                Blocked \<Rightarrow> ((Blocked, rs, p), m)
              | Returned (Some e) \<Rightarrow> ((Returned (Some e), rs, p), m)
              | Returned None \<Rightarrow> publishWithRetry_m msg delay rs p m)
        else if ro_done r then ((Returned (Some ErrContext), rs, p), m)
        else publishWithRetry_m msg (double_up_to maxRetryDelay delay) rs (p\<lparr>p_waits := p_waits p @ [delay]\<rparr>) m)"

definition send_m :: "gostring \<Rightarrow> Event \<Rightarrow> gostring \<Rightarrow> round list \<Rightarrow> Publisher \<Rightarrow> metrics \<Rightarrow> wait run \<times> metrics" where
  "send_m subject event msgID rs p m =
     publishWithRetry_m \<lparr>m_subject = subject, m_data = marshal_event event, m_id = msgID\<rparr> defaultRetryBaseDelay rs p m"

definition sendTruncated_m :: "gostring \<Rightarrow> Event \<Rightarrow> gostring \<Rightarrow> round list \<Rightarrow> Publisher \<Rightarrow> metrics \<Rightarrow> wait run \<times> metrics" where
  "sendTruncated_m subject event msgID rs p m =
     (let m = IncOversizedEvent (EventType_String (ev_Type event)) m;
          ((w, rs, p), m) = send_m subject (Truncated event) msgID rs p m
      in if too_large w then send_m subject (Stripped event) msgID rs p m else ((w, rs, p), m))"

definition publish_m :: "gostring \<Rightarrow> Event \<Rightarrow> round list \<Rightarrow> Publisher \<Rightarrow> metrics \<Rightarrow> wait run \<times> metrics" where
  "publish_m nuid event rs p m =
     (let subject = buildSubject (p_prefix p) (ev_Schema event) (ev_Table event);
          msgID = messageID nuid (p_prefix p) event;
          ((w, rs, p), m) = send_m subject event msgID rs p m;
          ((w, rs, p), m) = (if too_large w then sendTruncated_m subject event msgID rs p m else ((w, rs, p), m))
      in if w = Returned None then ((w, rs, notify event p), IncNATSPublished (EventType_String (ev_Type event)) m) else ((w, rs, p), m))"

definition dropSlot_m :: "(gostring \<Rightarrow> bool) \<Rightarrow> slotCandidate \<Rightarrow> slotCleaner \<Rightarrow> metrics \<Rightarrow> (bool \<times> gostring list \<times> slotCleaner) \<times> metrics" where
  "dropSlot_m drop_ok c s m =
     (if sc_dryRun s then ((True, [], s), m)
      else if \<not> drop_ok (ca_Name c) then ((False, [], s), m)
      else ((True, [ca_Name c], s\<lparr>sc_marks := (sc_marks s)(ca_Name c := None)\<rparr>), IncSlotDropped m))"

definition recreateUnusableSlot_m ::
    "bool \<Rightarrow> gostring \<Rightarrow> lookup_error + SlotStats \<Rightarrow> bool \<Rightarrow> bool option \<Rightarrow> bool \<Rightarrow> metrics \<Rightarrow> (recreate_error option \<times> slot_action list) \<times> metrics" where
  "recreateUnusableSlot_m createSlot slotName lookup drop_ok exists exec_ok m =
     (if \<not> createSlot then ((None, []), m)
      else case slotNeedsRecreating lookup of
             None \<Rightarrow> ((Some (RecLookup LookupError), []), m)
           | Some False \<Rightarrow> ((None, []), m)
           | Some True \<Rightarrow>
               if lookup \<noteq> Inl SlotMissing \<and> \<not> drop_ok then ((Some RecDrop, []), m)
               else let acts = (if lookup \<noteq> Inl SlotMissing then [DropOwnSlot] else []);
                        (err, created) = createReplicationSlotIfNotExists slotName exists exec_ok
                    in ((map_option RecCreate err, acts @ (if created then [CreateOwnSlot] else [])),
                        if err = None then IncSlotRecreated m else m))"

section \<open>Erasure\<close>

lemma HandleEvent_erase: "fst (HandleEvent_m s e m) = HandleEvent s e"
  by (simp add: HandleEvent_m_def HandleEvent_def accepts_def)

lemma publishWithRetry_erase: "fst (publishWithRetry_m msg delay rs p m) = publishWithRetry msg delay rs p"
proof (induction msg delay rs p m rule: publishWithRetry_m.induct)
  case (2 msg delay r rs p m)
  show ?case
  proof (cases "ro_result r = None \<or> isTooLarge (ro_result r)")
    case False
    then obtain err where err: "ro_result r = Some err" "\<not> isTooLarge (Some err)" by auto
    show ?thesis
      using 2 [OF refl refl False refl] by (cases "waitConnected (ro_polls r)") (simp_all add: err Let_def split: option.split)
  qed (auto simp: Let_def)
qed simp

lemma send_erase: "fst (send_m subject e msgID rs p m) = send subject e msgID rs p"
  by (simp add: send_m_def send_def publishWithRetry_erase)

lemma sendTruncated_erase: "fst (sendTruncated_m subject e msgID rs p m) = sendTruncated subject e msgID rs p"
  using send_erase by (simp add: sendTruncated_m_def sendTruncated_def Let_def case_prod_unfold)

lemma publish_erase: "fst (publish_m nuid e rs p m) = publish nuid e rs p"
proof -
  let ?sub = "buildSubject (p_prefix p) (ev_Schema e) (ev_Table e)" and ?id = "messageID nuid (p_prefix p) e"
  obtain w rs1 p1 m1 where s: "send_m ?sub e ?id rs p m = ((w, rs1, p1), m1)" by (metis prod.exhaust)
  obtain w' rs2 p2 m2 where t: "sendTruncated_m ?sub e ?id rs1 p1 m1 = ((w', rs2, p2), m2)" by (metis prod.exhaust)
  have "send ?sub e ?id rs p = (w, rs1, p1)" "sendTruncated ?sub e ?id rs1 p1 = (w', rs2, p2)"
    using send_erase [of ?sub e ?id rs p m] sendTruncated_erase [of ?sub e ?id rs1 p1 m1] by (simp_all add: s t)
  then show ?thesis using s t by (simp add: publish_m_def publish_def Let_def)
qed

lemma slots_erase:
  "fst (dropSlot_m drop_ok c s m) = dropSlot drop_ok c s"
  "fst (recreateUnusableSlot_m createSlot slotName lookup dropped ex exec_ok m) = recreateUnusableSlot createSlot slotName lookup dropped ex exec_ok"
  by (auto simp: dropSlot_m_def dropSlot_def recreateUnusableSlot_m_def recreateUnusableSlot_def Let_def case_prod_unfold split: option.split bool.split)


section \<open>What the counters tell\<close>

lemma waitConnected_error: "waitConnected cs = Returned (Some e) \<Longrightarrow> e \<in> {ErrContext, ErrConnectionClosed}"
  by (induction cs) (auto split: if_splits)

lemma publishWithRetry_counts:
  assumes "publishWithRetry_m msg delay rs p m = ((w, rs', p'), m')"
  shows "me_NATSPublished m' = me_NATSPublished m \<and> me_OversizedEvents m' = me_OversizedEvents m \<and> me_NATSErrors m \<le> me_NATSErrors m' \<and>
    length (p_sent p') = length (p_sent p) + (me_NATSErrors m' - me_NATSErrors m) + (if w = Returned None \<or> too_large w then 1 else 0) \<and>
    p_notified p' = p_notified p \<and> p_observers p' = p_observers p"
  using assms
proof (induction msg delay rs p m rule: publishWithRetry_m.induct)
  case (1 msg delay p m)
  then show ?case by (auto simp: too_large_def)
next
  case (2 msg delay r rs p m)
  let ?p = "attempted msg r p" and ?m = "IncNATSError m"
  have a: "length (p_sent ?p) = Suc (length (p_sent p))" "p_notified ?p = p_notified p" "p_observers ?p = p_observers p" by (simp_all add: attempted_def)
  show ?case
  proof (cases "ro_result r = None \<or> isTooLarge (ro_result r)")
    case True
    then show ?thesis using 2(3) a by (auto simp: Let_def too_large_def)
  next
    case False
    then obtain err where err: "ro_result r = Some err" "\<not> isTooLarge (Some err)" by auto
    have inc: "me_NATSPublished ?m = me_NATSPublished m" "me_OversizedEvents ?m = me_OversizedEvents m" "me_NATSErrors ?m = Suc (me_NATSErrors m)"
      by (simp_all add: IncNATSError_def)
    have stop: ?thesis if "w \<noteq> Returned None" "\<not> too_large w" "p' = ?p" "m' = ?m" using that a inc by simp
    consider (blocked) "ro_lost r" "waitConnected (ro_polls r) = Blocked" | (closed) e where "ro_lost r" "waitConnected (ro_polls r) = Returned (Some e)"
      | (again) "ro_lost r" "waitConnected (ro_polls r) = Returned None" | (slept) "\<not> ro_lost r" "\<not> ro_done r" | (stopped) "\<not> ro_lost r" "ro_done r"
      by (metis option.exhaust wait.exhaust)
    then show ?thesis
    proof cases
      case blocked
      then show ?thesis using 2(3) by (intro stop) (auto simp: err Let_def too_large_def)
    next
      case closed
      then have "\<not> isTooLarge (Some e)" using waitConnected_error by (auto simp: isTooLarge_def)
      moreover have "w = Returned (Some e)" "p' = ?p" "m' = ?m" using closed 2(3) by (simp_all add: err Let_def)
      ultimately show ?thesis by (intro stop) (simp_all add: too_large_def)
    next
      case again
      then show ?thesis using 2(1) [OF refl refl False refl again] 2(3) a inc by (simp add: err Let_def) linarith
    next
      case slept
      then show ?thesis using 2(2) [OF refl refl False refl slept] 2(3) a inc by (simp add: err Let_def) linarith
    next
      case stopped
      then have "w = Returned (Some ErrContext)" "p' = ?p" "m' = ?m" using 2(3) by (simp_all add: err Let_def)
      then show ?thesis by (intro stop) (simp_all add: too_large_def isTooLarge_def)
    qed
  qed
qed


lemma send_counts:
  assumes "send_m subject e msgID rs p m = ((w, rs', p'), m')"
  shows "me_NATSPublished m' = me_NATSPublished m" "me_OversizedEvents m' = me_OversizedEvents m" "me_NATSErrors m \<le> me_NATSErrors m'"
    "length (p_sent p') = length (p_sent p) + (me_NATSErrors m' - me_NATSErrors m) + (if w = Returned None \<or> too_large w then 1 else 0)"
    "p_notified p' = p_notified p" "p_observers p' = p_observers p"
  using publishWithRetry_counts [OF assms [unfolded send_m_def]] by simp_all

definition count_of :: "nat \<Rightarrow> gostring \<Rightarrow> (nat \<times> Event) list \<Rightarrow> nat" where
  "count_of f t xs = length (filter (\<lambda>(g, e). g = f \<and> EventType_String (ev_Type e) = t) xs)"

lemma count_of_notify:
  assumes "distinct obs" "f \<in> set obs"
  shows "count_of f t (xs @ map (\<lambda>g. (g, e)) obs) = count_of f t xs + (if EventType_String (ev_Type e) = t then 1 else 0)"
proof -
  have "length (filter (\<lambda>g. g = f) obs) = 1" using assms by (induction obs) (auto simp: filter_empty_conv)
  moreover have "filter (\<lambda>(g, e). g = f \<and> EventType_String (ev_Type e) = t) (map (\<lambda>g. (g, e)) obs) =
      (if EventType_String (ev_Type e) = t then map (\<lambda>g. (g, e)) (filter (\<lambda>g. g = f) obs) else [])"
    by (simp add: filter_map comp_def)
  ultimately show ?thesis by (simp add: count_of_def)
qed



definition no_metrics :: metrics where
  "no_metrics = \<lparr>me_EventsTotal = (\<lambda>_. 0), me_NATSPublished = (\<lambda>_. 0), me_OversizedEvents = (\<lambda>_. 0), me_NATSErrors = 0, me_SlotsRecreated = 0, me_SlotsDropped = 0\<rparr>"


text \<open>The counter of the bus counts the accepted events, and the slot counters the slots dropped and replaced.\<close>

lemma HandleEvent_counts:
  "me_EventsTotal (snd (HandleEvent_m s e m)) =
     (if fst (HandleEvent s e) then inc_label (EventType_String (ev_Type e)) (me_EventsTotal m) else me_EventsTotal m)"
  by (simp add: HandleEvent_m_def HandleEvent_def accepts_def IncEvent_def)

lemma dropSlot_counts: "me_SlotsDropped (snd (dropSlot_m drop_ok c s m)) = me_SlotsDropped m + length (fst (snd (dropSlot drop_ok c s)))"
  by (simp add: dropSlot_m_def dropSlot_def IncSlotDropped_def)

lemma recreate_counts:
  "CreateOwnSlot \<in> set (snd (recreateUnusableSlot createSlot slotName lookup dropped ex exec_ok)) \<Longrightarrow>
     me_SlotsRecreated (snd (recreateUnusableSlot_m createSlot slotName lookup dropped ex exec_ok m)) = Suc (me_SlotsRecreated m)"
  by (auto simp: recreateUnusableSlot_m_def recreateUnusableSlot_def createReplicationSlotIfNotExists_def create_if_missing_def IncSlotRecreated_def Let_def
      split: option.splits bool.splits if_splits)

end
