(* ===== verification/Mysql_Connect.thy ===== *)
theory Mysql_Connect
  imports Watcher Mysql_Listener
begin

text \<open>
  How the MySQL listener connects: the TLS configuration (\<^verbatim>\<open>mysql/tls.go\<close>), the configuration of the binlog client with the table filter
  (\<^verbatim>\<open>buildCanalConfig\<close> of \<^verbatim>\<open>mysql/listener.go\<close>), and the goroutine that saves the offset. \<^verbatim>\<open>net.SplitHostPort\<close>,
  \<^verbatim>\<open>regexp.QuoteMeta\<close> and the regular expressions the filter is made of are the standard library's; whether a PEM holds a certificate is an argument.
\<close>

section \<open>Host and port\<close>

text \<open>\<^verbatim>\<open>net.SplitHostPort\<close>: the port follows the last colon, a host with colons stands in brackets.\<close>

definition SplitHostPort :: "gostring \<Rightarrow> (gostring \<times> gostring) option" where
  "SplitHostPort s =
     (if CHR '':'' \<notin> set s then None
      else let port = rev (takeWhile (\<lambda>c. c \<noteq> CHR '':'') (rev s)); i = length s - Suc (length port) in
        if take 1 s = ''[''
        then if CHR '']'' \<notin> set s then None
             else let close = length (takeWhile (\<lambda>c. c \<noteq> CHR '']'') s) in
               if Suc close \<noteq> i \<or> CHR ''['' \<in> set (drop 1 s) \<or> CHR '']'' \<in> set (drop (Suc close) s) then None
               else Some (drop 1 (take close s), port)
        else let host = take i s in
             if CHR '':'' \<in> set host \<or> CHR ''['' \<in> set s \<or> CHR '']'' \<in> set s then None else Some (host, port))"

definition no_brackets :: "gostring \<Rightarrow> bool" where
  "no_brackets s \<longleftrightarrow> CHR ''['' \<notin> set s \<and> CHR '']'' \<notin> set s"

lemma last_colon:
  assumes "CHR '':'' \<notin> set port"
  shows "rev (takeWhile (\<lambda>c. c \<noteq> CHR '':'') (rev (s @ CHR '':'' # port))) = port"
  using assms by (auto simp: takeWhile_append)

lemma SplitHostPort_plain:
  assumes "CHR '':'' \<notin> set host" "no_brackets host" "CHR '':'' \<notin> set port" "no_brackets port"
  shows "SplitHostPort (host @ '':'' @ port) = Some (host, port)"
proof -
  have "take 1 (host @ '':'' @ port) \<noteq> ''[''" using assms(2) by (cases host) (auto simp: no_brackets_def)
  then show ?thesis using assms last_colon [OF assms(3), of host] by (simp add: SplitHostPort_def no_brackets_def Let_def)
qed

lemma SplitHostPort_bracketed:
  assumes "no_brackets host" "CHR '':'' \<notin> set port" "no_brackets port"
  shows "SplitHostPort (''['' @ host @ '']:'' @ port) = Some (host, port)"
proof -
  have "takeWhile (\<lambda>c. c \<noteq> CHR '']'') (CHR ''['' # host @ CHR '']'' # CHR '':'' # port) = CHR ''['' # host"
    using assms(1) by (auto simp: takeWhile_append no_brackets_def)
  then show ?thesis
    using assms last_colon [OF assms(2), of "CHR ''['' # host @ '']''"] by (simp add: SplitHostPort_def no_brackets_def Let_def)
qed

section \<open>TLS\<close>

datatype tls_error = ErrNoServerCA | NoHostName gostring

record tls_config =
  tc_RootCAs :: gostring
  tc_ServerName :: gostring
  tc_MinVersion :: nat

definition VersionTLS12 :: nat where
  "VersionTLS12 = 771"

definition serverTLS :: "(gostring \<Rightarrow> bool) \<Rightarrow> gostring \<Rightarrow> gostring \<Rightarrow> tls_error + tls_config" where
  "serverTLS pem_ok caPEM addr =
     (if caPEM = [] \<or> \<not> pem_ok caPEM then Inl ErrNoServerCA
      else let host = (case SplitHostPort addr of Some (host, _) \<Rightarrow> host | None \<Rightarrow> addr) in
        if host = [] then Inl (NoHostName addr)
        else Inr \<lparr>tc_RootCAs = caPEM, tc_ServerName = host, tc_MinVersion = VersionTLS12\<rparr>)"

section \<open>The table filter\<close>

definition meta_chars :: "char list" where
  "meta_chars = [CHR 0x5C] @ ''.+*?()|[]{}^$''"

fun QuoteMeta :: "gostring \<Rightarrow> gostring" where
  "QuoteMeta [] = []"
| "QuoteMeta (c # s) = (if c \<in> set meta_chars then CHR 0x5C # c # QuoteMeta s else c # QuoteMeta s)"

definition table_pattern :: "gostring \<Rightarrow> gostring \<Rightarrow> gostring" where
  "table_pattern schema t = ''^'' @ QuoteMeta schema @ [CHR 0x5C] @ ''.'' @ QuoteMeta t @ ''$''"

text \<open>
  The part of \<^verbatim>\<open>regexp\<close> such patterns use: literals, escaped metacharacters and the two anchors. \<open>parse_re\<close> is \<open>None\<close> for anything else, in particular for a
  metacharacter that is an operator. Patterns and texts are UTF-8, so comparing runes is comparing bytes. \<^verbatim>\<open>MatchString\<close> searches
  the text.
\<close>

datatype re_item = BeginText | EndText | Literal char

fun parse_re :: "gostring \<Rightarrow> re_item list option" where
  "parse_re [] = Some []"
| "parse_re (c # s) =
     (if c = CHR 0x5C
      then (case s of [] \<Rightarrow> None | d # s' \<Rightarrow> if d \<in> set meta_chars then map_option (Cons (Literal d)) (parse_re s') else None)
      else if c = CHR ''^'' then map_option (Cons BeginText) (parse_re s)
      else if c = CHR ''$'' then map_option (Cons EndText) (parse_re s)
      else if c \<in> set meta_chars then None
      else map_option (Cons (Literal c)) (parse_re s))"

fun match_here :: "re_item list \<Rightarrow> bool \<Rightarrow> gostring \<Rightarrow> bool" where
  "match_here [] first s = True"
| "match_here (BeginText # re) first s = (first \<and> match_here re first s)"
| "match_here (EndText # re) first s = (s = [] \<and> match_here re first s)"
| "match_here (Literal c # re) first s = (case s of [] \<Rightarrow> False | d # s' \<Rightarrow> c = d \<and> match_here re False s')"

fun search_from :: "re_item list \<Rightarrow> bool \<Rightarrow> gostring \<Rightarrow> bool" where
  "search_from re first [] = match_here re first []"
| "search_from re first (c # s) = (match_here re first (c # s) \<or> search_from re False s)"

definition MatchString :: "gostring \<Rightarrow> gostring \<Rightarrow> bool" where
  "MatchString pattern s = (case parse_re pattern of None \<Rightarrow> False | Some re \<Rightarrow> search_from re True s)"

section \<open>The client's configuration\<close>

record canal_config =
  cn_TLSConfig :: tls_config
  cn_Addr :: gostring
  cn_User :: gostring
  cn_Password :: gostring
  cn_Flavor :: gostring
  cn_ServerID :: u32
  cn_DumpExecutionPath :: gostring
  cn_ParseTime :: bool
  cn_UseDecimal :: bool
  cn_IncludeTableRegex :: "gostring list"

text \<open>The expressions are appended to those of the default configuration, which has none.\<close>

definition buildCanalConfig :: "(gostring \<Rightarrow> bool) \<Rightarrow> MySQLConfig \<Rightarrow> tls_error + canal_config" where
  "buildCanalConfig pem_ok cfg =
     (case serverTLS pem_ok (mc_CACert cfg) (mc_Host cfg) of
        Inl err \<Rightarrow> Inl err
      | Inr tls \<Rightarrow>
          Inr \<lparr>cn_TLSConfig = tls, cn_Addr = mc_Host cfg, cn_User = mc_Username cfg, cn_Password = mc_Password cfg, cn_Flavor = ''mysql'',
               cn_ServerID = generateServerID (mc_Host cfg), cn_DumpExecutionPath = [], cn_ParseTime = True, cn_UseDecimal = True,
               cn_IncludeTableRegex = map (table_pattern (mc_Schema cfg)) (mc_Tables cfg)\<rparr>)"

section \<open>Saving the offset\<close>

text \<open>The ticks until the context ends, each with the outcome of a write; an error is only logged.\<close>

fun offsetSaver :: "save_io list \<Rightarrow> my_Listener \<Rightarrow> files \<Rightarrow> my_Listener \<times> files" where
  "offsetSaver [] l fs = (l, fs)"
| "offsetSaver (io # ios) l fs = (let (err, l, fs) = saveConfirmedOffset io l fs in offsetSaver ios l fs)"

lemma offsetSaver_steps: "\<exists>env'. (binlog_step B path)\<^sup>*\<^sup>* (l, fs, env) (fst (offsetSaver ios l fs), snd (offsetSaver ios l fs), env')"
proof (induction ios arbitrary: l fs env)
  case (Cons io ios)
  obtain err l' fs' where s: "saveConfirmedOffset io l fs = (err, l', fs')" by (rule prod_cases3)
  show ?case
    using Cons.IH [of l' fs'] binlog_step.save_tick [OF s, of B path env] by (simp add: s) (meson converse_rtranclp_into_rtranclp)
qed auto

section \<open>Properties\<close>

lemma parse_re_quoted: "parse_re (QuoteMeta s @ rest') = map_option ((@) (map Literal s)) (parse_re rest')"
proof (induction s)
  case (Cons c s)
  have "CHR ''^'' \<in> set meta_chars" "CHR ''$'' \<in> set meta_chars" "CHR 0x5C \<in> set meta_chars" by (simp_all add: meta_chars_def)
  then show ?case using Cons.IH by (cases "parse_re rest'") auto
qed (simp add: option.map_ident)

lemma parse_table_pattern: "parse_re (table_pattern schema t) = Some (BeginText # map Literal (schema @ ''.'' @ t) @ [EndText])"
  by (simp add: table_pattern_def parse_re_quoted [of t "''$''", simplified] parse_re_quoted) (simp add: meta_chars_def)

lemma match_literals: "match_here (map Literal xs @ [EndText]) first s \<longleftrightarrow> s = xs"
  by (induction xs arbitrary: first s) (auto split: list.split)

lemma search_anchored: "\<not> search_from (BeginText # re) False s"
  by (induction s) simp_all

lemma table_pattern_matches: "MatchString (table_pattern schema t) key \<longleftrightarrow> key = schema @ ''.'' @ t"
  using match_literals [of "schema @ ''.'' @ t" True key]
  by (cases key) (simp_all add: MatchString_def parse_table_pattern search_anchored)

text \<open>
  C27. The table filter given to the binlog client selects exactly the configured tables: some expression of the list matches a qualified table name if and only if the
  name is the configured schema, a dot and one of the configured tables. Whatever characters the names have, none acts as an operator of the expression.
\<close>

theorem table_filter_exact:
  assumes "buildCanalConfig pem_ok cfg = Inr cc"
  shows "(\<exists>p \<in> set (cn_IncludeTableRegex cc). MatchString p key) \<longleftrightarrow> (\<exists>t \<in> set (mc_Tables cfg). key = mc_Schema cfg @ ''.'' @ t)"
  using assms by (auto simp: buildCanalConfig_def table_pattern_matches split: sum.splits)

definition demo_mysql :: MySQLConfig where
  "demo_mysql = \<lparr>mc_Enabled = True, mc_Host = ''[::1]:3306'', mc_Username = ''u'', mc_Password = ''p'', mc_Schema = ''a.b'', mc_Tables = [''t*'', ''(x''],
     mc_SnapshotMode = '''', mc_SnapshotChunkSize = 100, mc_SnapshotBackupFile = '''', mc_OffsetFile = ''o'', mc_CACert = ''PEM''\<rparr>"

theorem table_filter_exact_witness:
  "\<exists>cc. buildCanalConfig (\<lambda>_. True) demo_mysql = Inr cc \<and> (\<exists>p \<in> set (cn_IncludeTableRegex cc). MatchString p ''a.b.t*'') \<and>
     \<not> (\<exists>p \<in> set (cn_IncludeTableRegex cc). MatchString p ''aXb.ttt'')"
proof -
  have "\<exists>cc. buildCanalConfig (\<lambda>_. True) demo_mysql = Inr cc"
    by (simp add: buildCanalConfig_def serverTLS_def demo_mysql_def SplitHostPort_def Let_def)
  then obtain cc where c: "buildCanalConfig (\<lambda>_. True) demo_mysql = Inr cc" by blast
  show ?thesis
    using table_filter_exact [OF c, of "''a.b.t*''"] table_filter_exact [OF c, of "''aXb.ttt''"] c by (auto simp: demo_mysql_def)
qed

text \<open>
  C26. The watcher never connects to MySQL without verifying the server. A configuration is only built with a usable CA, and then it trusts that CA alone, asks for
  TLS 1.2 or newer, and requires the certificate to name the host that is dialled: the part before the port for \<^verbatim>\<open>host:port\<close> and for
  \<^verbatim>\<open>[host]:port\<close>, the whole address when it has no port.
\<close>

theorem server_always_verified:
  assumes "buildCanalConfig pem_ok cfg = Inr cc"
  shows "mc_CACert cfg \<noteq> [] \<and> pem_ok (mc_CACert cfg) \<and> tc_RootCAs (cn_TLSConfig cc) = mc_CACert cfg \<and> tc_MinVersion (cn_TLSConfig cc) = VersionTLS12 \<and>
    tc_ServerName (cn_TLSConfig cc) \<noteq> [] \<and>
    (\<forall>host port. no_brackets host \<and> no_brackets port \<and> CHR '':'' \<notin> set port \<longrightarrow>
       (CHR '':'' \<notin> set host \<and> mc_Host cfg = host @ '':'' @ port \<or> mc_Host cfg = ''['' @ host @ '']:'' @ port) \<longrightarrow>
       tc_ServerName (cn_TLSConfig cc) = host) \<and>
    (CHR '':'' \<notin> set (mc_Host cfg) \<longrightarrow> tc_ServerName (cn_TLSConfig cc) = mc_Host cfg)"
proof -
  let ?host = "case SplitHostPort (mc_Host cfg) of Some (host, _) \<Rightarrow> host | None \<Rightarrow> mc_Host cfg"
  have t: "mc_CACert cfg \<noteq> []" "pem_ok (mc_CACert cfg)" "?host \<noteq> []"
      "cn_TLSConfig cc = \<lparr>tc_RootCAs = mc_CACert cfg, tc_ServerName = ?host, tc_MinVersion = VersionTLS12\<rparr>"
    using assms by (auto simp: buildCanalConfig_def serverTLS_def Let_def split: sum.splits if_splits)
  have "?host = host" if "no_brackets host \<and> no_brackets port \<and> CHR '':'' \<notin> set port"
      "CHR '':'' \<notin> set host \<and> mc_Host cfg = host @ '':'' @ port \<or> mc_Host cfg = ''['' @ host @ '']:'' @ port" for host port
    using that SplitHostPort_plain [of host port] SplitHostPort_bracketed [of host port] by auto
  moreover have "?host = mc_Host cfg" if "CHR '':'' \<notin> set (mc_Host cfg)" using that by (simp add: SplitHostPort_def)
  ultimately show ?thesis using t by simp
qed

theorem server_always_verified_witness:
  "\<exists>cc. buildCanalConfig (\<lambda>p. p = ''PEM'') demo_mysql = Inr cc \<and> tc_ServerName (cn_TLSConfig cc) = ''::1''"
proof -
  have "\<exists>cc. buildCanalConfig (\<lambda>p. p = ''PEM'') demo_mysql = Inr cc"
    by (simp add: buildCanalConfig_def serverTLS_def demo_mysql_def SplitHostPort_def Let_def)
  then obtain cc where c: "buildCanalConfig (\<lambda>p. p = ''PEM'') demo_mysql = Inr cc" by blast
  have "no_brackets ''::1''" "no_brackets ''3306''" "mc_Host demo_mysql = ''['' @ ''::1'' @ '']:'' @ ''3306''"
    by (simp_all add: no_brackets_def demo_mysql_def)
  then show ?thesis using server_always_verified [OF c] c by fastforce
qed

end
