(* ===== verification/Nats_Connect.thy ===== *)
theory Nats_Connect
  imports Watcher
begin

text \<open>
  How the publisher connects (\<^verbatim>\<open>nats/connection.go\<close>): the options given to the client and the delay before a
  reconnect. Handlers that only log are options without content.
\<close>

datatype nats_option =
    MaxReconnects int
  | RetryOnFailedConnect bool
  | ReconnectBufSize int
  | CustomReconnectDelay
  | ReconnectErrHandler
  | DisconnectErrHandler
  | ConnectHandler
  | ReconnectHandler
  | ClosedHandler
  | ErrorHandler
  | UserInfo gostring gostring
  | CustomInboxPrefix gostring

definition connectOptions :: "NATSConfig \<Rightarrow> nats_option list" where
  "connectOptions cfg =
     [MaxReconnects (-1), RetryOnFailedConnect True, ReconnectBufSize (-1), CustomReconnectDelay, ReconnectErrHandler, DisconnectErrHandler,
      ConnectHandler, ReconnectHandler, ClosedHandler, ErrorHandler]
     @ (if nc_Username cfg \<noteq> [] then [UserInfo (nc_Username cfg) (nc_Password cfg)] else [])
     @ (if nc_InboxPrefix cfg \<noteq> [] then [CustomInboxPrefix (nc_InboxPrefix cfg)] else [])"

definition nextReconnectDelay :: "(int \<Rightarrow> int) \<Rightarrow> backoff \<Rightarrow> nat \<Rightarrow> int" where
  "nextReconnectDelay rnd reconnect attempt = backoff_delay rnd reconnect attempt"

lemma at_most_one_login: "length (filter (\<lambda>x. \<exists>u w. x = UserInfo u w) (connectOptions cfg)) = (if nc_Username cfg = [] then 0 else 1)"
  by (simp add: connectOptions_def)

text \<open>The waits between connects of the default backoff stay between a quarter of a second and half a minute, however often it fails.\<close>

lemma reconnect_delay_range:
  assumes rnd: "\<And>n. 0 < n \<Longrightarrow> 0 \<le> rnd n \<and> rnd n < n" and "0 < attempt"
  shows "milliseconds 250 \<le> nextReconnectDelay rnd defaultBackoff attempt \<and> nextReconnectDelay rnd defaultBackoff attempt \<le> milliseconds 30000"
proof -
  let ?s = "min (bo_base defaultBackoff * 2 ^ (attempt - 1)) (bo_max defaultBackoff)"
  have b: "0 < bo_base defaultBackoff" "bo_base defaultBackoff \<le> bo_max defaultBackoff" by (simp_all add: defaultBackoff_def milliseconds_def)
  have "(1::int) \<le> 2 ^ (attempt - 1)" by simp
  then have "milliseconds 500 \<le> ?s \<and> ?s \<le> milliseconds 30000" by (simp add: defaultBackoff_def milliseconds_def)
  moreover note backoff_delay_bounds [OF b rnd \<open>0 < attempt\<close>]
  ultimately show ?thesis unfolding nextReconnectDelay_def milliseconds_def by linarith
qed

text \<open>
  A token of a subject keeps every byte but dots, wildcards and spaces. A line break in the name of a table, which PostgreSQL allows in a quoted identifier, stays in the
  subject that is handed to the client library.
\<close>

theorem subject_keeps_line_break:
  "CHR 0x0A \<in> set table \<Longrightarrow> CHR 0x0A \<in> set (buildSubject subjectPrefix schema table)"
  by (auto simp: buildSubject_def sanitizeSubjectToken_def Let_def image_iff)

end
