(* ===== verification/Spec2Isabelle.thy ===== *)
theory Spec2Isabelle
  imports Pg_Delivery Mysql_Delivery Watcher Pg_Life Pg_Ddl Metrics Mysql_Connect Nats_Connect
begin

text \<open>
  Verification of the watcher, a change-data-capture agent: it reads the write-ahead log of PostgreSQL and the binlog of MySQL and publishes
  every row change to NATS JetStream. The Go sources are under \<^verbatim>\<open>src/\<close>; file names below are relative to it.

  \<^bold>\<open>The program.\<close> A listener per database turns replication messages into events and hands them to an in-process bus. The publisher reads the bus, sends each
  event to JetStream and, after the acknowledgement, calls an observer of each listener. A gate in the listener decides from the acknowledgements which position
  may be confirmed to the database (the standby status of PostgreSQL, the offset file of MySQL). Around them are the initial snapshots, the maintenance of
  replication slots, health endpoints, configuration and the main program.

  \<^bold>\<open>Theories and sources.\<close> Definitions have the names of the code they model; a prefix tells methods of equal name apart (\<open>ackGate_Flush\<close> is
  \<^verbatim>\<open>(*ackGate).Flush\<close>, \<open>my_Start\<close> and \<open>pg_Start\<close> are the \<^verbatim>\<open>Start\<close> of the two listeners).
  \<^item> \<open>Go_Prelude\<close>, \<open>Go_Utf8\<close>, \<open>Go_Json\<close>, \<open>Go_Json_Map\<close>, \<open>Go_Text\<close>: what the sources use of Go itself, byte strings, UTF-8 decoding, the scanner of
    \<^verbatim>\<open>json.Valid\<close> and the decoder of objects, line scanner, splitting and the pieces of the regular expressions.
  \<^item> \<open>Json_Escape\<close> (\<^verbatim>\<open>internal/jsonutil/escape.go\<close>) and \<open>Json_Row\<close>: escaped strings, and rows as JSON objects. The locale \<open>value_renderer\<close> is the contract of the
    three renderers of values (WAL parser, MySQL handler, chunked snapshot).
  \<^item> \<open>Cdc_Event\<close> (\<^verbatim>\<open>internal/cdc/event.go\<close>, \<^verbatim>\<open>publishable.go\<close>, \<^verbatim>\<open>truncate.go\<close>): the event, its envelope, its reduced forms. \<open>Cdc_Service\<close>
    (\<^verbatim>\<open>internal/cdc/service.go\<close>): the bus, as operations on a store of subscribers and as the relation \<open>bus_step\<close> of interleaved producers, readers and closers.
  \<^item> \<open>Commit_Gate\<close>: the locale \<open>boundary_queue\<close> both gates interpret. \<open>Pg_AckGate\<close> and \<open>Mysql_Gate\<close> (\<^verbatim>\<open>internal/postgres/ackgate.go\<close>,
    \<^verbatim>\<open>internal/mysql/ackgate.go\<close>): the gates, and each gate in an abstract environment (\<open>pg_step\<close>, \<open>my_step\<close>).
  \<^item> \<open>Schema_History\<close> (\<^verbatim>\<open>internal/schema/history.go\<close>): the file store behind the locale \<open>history_store\<close>.
  \<^item> \<open>Pg_Reader\<close>, \<open>Pg_Parser\<close> (\<^verbatim>\<open>internal/postgres/parser.go\<close>): the bounds-checked reader and the decoder of pgoutput messages.
  \<^item> \<open>Pg_Listener\<close> (\<^verbatim>\<open>internal/postgres/listener.go\<close>, \<^verbatim>\<open>lag.go\<close>): message handlers, status messages, streaming and reconnect loops; \<open>stream_step\<close> and
    \<open>listener_step\<close> put it into its environment.
  \<^item> \<open>Pg_Slots\<close> (\<^verbatim>\<open>setup.go\<close>, \<^verbatim>\<open>dbwait.go\<close>, \<^verbatim>\<open>slotregistry.go\<close>, \<^verbatim>\<open>slotcleanup.go\<close>, \<^verbatim>\<open>slotstats.go\<close>): start-up, ownership, cleanup and
    sampling of slots. \<open>Pg_Fleet\<close> puts several watchers on one server (\<open>fleet_step\<close>), with the queries of \<^verbatim>\<open>slotcleanup.go\<close> and \<^verbatim>\<open>slotstats.go\<close> over its tables;
    \<open>Pg_Life\<close> has the goroutines and \<^verbatim>\<open>Stop\<close> of \<^verbatim>\<open>listener.go\<close> and the start of replication; \<open>Pg_Ddl\<close> the table, functions and triggers of
    \<^verbatim>\<open>createDDLTriggerIfNotExists\<close> (\<^verbatim>\<open>setup.go\<close>) and what they log.
  \<^item> \<open>Pg_Snapshot\<close> (\<^verbatim>\<open>snapshot_chunked.go\<close>, \<^verbatim>\<open>snapshot_dump.go\<close>): the snapshots.
  \<^item> \<open>Mysql_Offset\<close>, \<open>Mysql_Dump\<close>, \<open>Mysql_Listener\<close> (\<^verbatim>\<open>internal/mysql/offset.go\<close>, \<^verbatim>\<open>snapshot_dump.go\<close>, \<^verbatim>\<open>listener.go\<close>): the offset file behind the
    locale \<open>offset_store\<close>, the dump reader, and the binlog handlers with start, saves and stop; \<open>binlog_step\<close> and \<open>my_listener_step\<close> put it into its environment.
    \<open>Mysql_Connect\<close> (\<^verbatim>\<open>tls.go\<close>, \<^verbatim>\<open>listener.go\<close>): the configuration of the binlog client, its TLS part and table filter, and the loop that saves the offset.
  \<^item> \<open>Nats_Publisher\<close> (\<^verbatim>\<open>internal/nats/publisher.go\<close>, \<^verbatim>\<open>connection.go\<close>): the publishing goroutine with retries, reduction and observers;
    \<open>Nats_Connect\<close>: the options of the connection and the reconnect delay.
  \<^item> \<open>Metrics\<close> (\<^verbatim>\<open>internal/metrics/metrics.go\<close>): the counters. The functions that count (\<open>publish_m\<close>, \<open>HandleEvent_m\<close>, \<open>dropSlot_m\<close>, ...) are the ones of the other
    theories with the counters threaded through, and are shown to do the same.
  \<^item> \<open>Delivery\<close>: listener, bus and publisher as one system (\<open>cdc_step\<close>), for any listener that satisfies the locale \<open>event_source\<close>; \<open>Pg_Delivery\<close> and
    \<open>Mysql_Delivery\<close> interpret it on the two listeners.
  \<^item> \<open>Watcher\<close> (\<^verbatim>\<open>internal/config/config.go\<close>, \<^verbatim>\<open>internal/health/health.go\<close>, \<^verbatim>\<open>main.go\<close>): configuration, health endpoints, start and shutdown.

  \<^bold>\<open>State and effects.\<close> Structs are records and methods are functions that return the updated record. Errors are values of a datatype or \<open>option\<close>. Outputs are recorded in the
  state: \<open>l_out\<close> and \<open>h_out\<close> the events a bus accepted, \<open>l_sent\<close> the positions told to the primary, \<open>p_sent\<close>, \<open>p_stored\<close>, \<open>p_notified\<close> the messages, what the stream
  stored of them, and the observer calls. Clock readings and the outcomes of I/O are arguments: a list of rounds for the publisher, of dials for the database wait, \<open>save_io\<close> for
  a write. Log positions are 64-bit words, binlog positions and server ids 32-bit words, lengths in messages words of their width.

  \<^bold>\<open>What the theorems show.\<close>
  \<^item> Delivery: no position is confirmed to a database before every change at or below it is in the stream or was refused as invalid, for the gates alone, for the
    listeners (which refine the gates' environments), and for listener, bus and publisher together; the two listeners do not disturb each other (last section here).
  \<^item> The bus drops nothing and never sends on a closed channel; the publisher acknowledges in order without gaps, retries until stored and publishes only to a verified stream.
  \<^item> Rows survive: WAL tuples, binlog rows and dump lines become accepted events whose data decodes to the columns and values; escaping and envelope have decoders as inverses.
  \<^item> Identity: change ids are unique and stable across restarts; subjects have exactly the tokens the stream expects.
  \<^item> Slots: cleanup drops only abandoned slots, a running watcher of a fleet keeps its slot through every cleanup of the
    others as long as its heartbeats get through, only unusable slots are replaced. Snapshots: a chunked snapshot by a one-column key ends and is complete.
  \<^item> Configuration and schema changes: MySQL is never dialled without a verified certificate, the table filter matches exactly the configured tables, and a captured DDL statement
    arrives on the bus with its text.
  \<^item> Program: the publisher's counters agree with what observers were told; what was started is stopped in reverse order on every path, and the endpoints tell the state of the program.

  \<^bold>\<open>Loops and bounds.\<close> Loops over data are structural recursions or have termination proofs. The chunk loops of the snapshot are \<^verbatim>\<open>partial_function (option)\<close>, where
  \<open>None\<close> is a loop that does not end; that they end is part of the theorem. Loops that wait for the outside run on a script of outcomes; \<open>Blocked\<close> means that the script
  ended before the loop did, so the liveness theorems state which scripts are long enough. There is no other fuel. A handler of a listener is one
  step, the publisher runs between handlers; the one race inside a handler that the sources discuss, the acknowledgement that overtakes \<^verbatim>\<open>Hand\<close> in the MySQL gate, is modelled in \<open>Mysql_Gate\<close>.

  \<^bold>\<open>Parameters.\<close> Code outside \<^verbatim>\<open>src/\<close> is an argument: the replication driver (\<open>driver\<close>), the database behind the snapshot queries, NATS ids (\<open>nuid\<close>), random numbers, viper, the
  matcher of the slot name pattern, the PEM decoder, \<^verbatim>\<open>fmt.Sprint\<close> of database values. Hypotheses on them, such as that printing of positions is injective, are stated in the theorems.

  \<^bold>\<open>Not modelled.\<close> Dialling and connection pools, the connection strings built with \<^verbatim>\<open>net/url\<close>, the gauge with the time of the last message, logging, the cobra
  command, and \<^verbatim>\<open>internal/natstest\<close>, a server for tests. They are calls of libraries without decisions of their own; where their outcome matters, it
  is an argument. A cleanup pass is one step of a fleet; what can happen between its query and its drops is shown in \<open>restart_races_cleanup\<close>.
\<close>

section \<open>Two listeners on one bus\<close>

lemma pg_prefix_not_own:
  assumes "has_prefix i ''pg:''"
  shows "\<not> has_prefix i sourcePrefix"
  using assms by (cases i) (auto simp: has_prefix_def sourcePrefix_def)

text \<open>
  C28. The listeners do not disturb each other's count. Whatever a PostgreSQL listener puts on the bus in a step, the observer of a MySQL listener does
  not count it, and the other way round: to each of them, the other is one more source of events it ignores. So the two delivery guarantees hold for a
  process that runs both listeners.
\<close>

theorem listeners_apart:
  "(stream_step d W S S' \<longrightarrow>
      (\<exists>new. src_out (pg_source d W) S' = src_out (pg_source d W) S @ new \<and> (\<forall>e \<in> set new. \<not> src_own (my_source B path) e))) \<and>
   (binlog_step B path T T' \<longrightarrow>
      (\<exists>new. src_out (my_source B path) T' = src_out (my_source B path) T @ new \<and> (\<forall>e \<in> set new. \<not> src_own (pg_source d W) e)))"
proof (intro conjI impI)
  assume a: "stream_step d W S S'"
  obtain s env s' env' where S: "S = (s, env)" "S' = (s', env')" by (metis prod.exhaust)
  obtain new where "l_out (fst s') = l_out (fst s) @ new" "\<forall>e \<in> set (filter publishable new). has_prefix (ev_SourceID e) ''pg:''"
    using stream_step_hands(1) [OF a [unfolded S]] by (auto simp: hands_def)
  then show "\<exists>new. src_out (pg_source d W) S' = src_out (pg_source d W) S @ new \<and> (\<forall>e \<in> set new. \<not> src_own (my_source B path) e)"
    using pg_prefix_not_own by (auto simp: S ownEvent_def)
next
  assume b: "binlog_step B path T T'"
  obtain l fs env l' fs' env' where T: "T = (l, fs, env)" "T' = (l', fs', env')" by (metis prod.exhaust)
  show "\<exists>new. src_out (my_source B path) T' = src_out (my_source B path) T @ new \<and> (\<forall>e \<in> set new. \<not> src_own (pg_source d W) e)"
    using binlog_step_gives(1) [OF b [unfolded T]] by (auto simp: T gives_def numbered_def)
qed

theorem listeners_apart_witness:
  "(\<exists>new. src_out demo_source (demo_session demo_messages, demo_env 3) =
       src_out demo_source (demo_session [''B'', relation_one, truncate_one], demo_env 2) @ new \<and> (\<forall>e \<in> set new. \<not> src_own my_demo_source e)) \<and>
   (\<exists>new. src_out my_demo_source (my_demo_listener 2, demo_files, my_demo_env 2) =
       src_out my_demo_source (my_demo_listener 1, demo_files, my_demo_env 1) @ new \<and> (\<forall>e \<in> set new. \<not> src_own demo_source e))"
  using listeners_apart [of raw_driver one_truncate "(demo_session [''B'', relation_one, truncate_one], demo_env 2)" "(demo_session demo_messages, demo_env 3)"
      demo_binlog "''o''" "(my_demo_listener 1, demo_files, my_demo_env 1)" "(my_demo_listener 2, demo_files, my_demo_env 2)"]
    demo_stream_steps(4) demo_binlog_steps(2) by blast

end
